(* ===== verification/Prelude.thy ===== *)
theory Prelude
  imports Main "HOL-Library.Word" "HOL-Library.Multiset"
begin

text \<open>
  Shared vocabulary of the pg\_doorman library.

  The theory fixes how Rust is read: fixed-width integers are words, a byte buffer
  (\<^verbatim>\<open>BytesMut\<close>, \<^verbatim>\<open>&[u8]\<close>, and \<^verbatim>\<open>String\<close> as its UTF-8 bytes) is a list of 8-bit words, a
  \<^verbatim>\<open>Result\<close> is a sum with the error on the left, and a panic is one of the errors. It then models
  the parts of the Rust standard library that several components use: big-endian integer
  access (\<^verbatim>\<open>bytes::Buf\<close>/\<^verbatim>\<open>BufMut\<close>), \<^verbatim>\<open>Iterator::position\<close>, \<^verbatim>\<open>String::from_utf8_lossy\<close>,
  \<^verbatim>\<open>str::trim\<close>, ASCII case conversion and decimal integer parsing and printing; and it proves
  the generic facts about them that the component theories rely on.
\<close>

unbundle bit_operations_syntax

section \<open>Types\<close>

type_synonym u8 = "8 word"
type_synonym u16 = "16 word"
type_synonym u32 = "32 word"
type_synonym u64 = "64 word"
type_synonym bytes = "u8 list"

text \<open>Facts that drive codec proofs: reading back what was just written.\<close>

named_theorems codec

text \<open>Rust's \<^verbatim>\<open>?\<close> operator.\<close>

primrec rbind :: "'e + 'a \<Rightarrow> ('a \<Rightarrow> 'e + 'b) \<Rightarrow> 'e + 'b" where
  "rbind (Inl e) f = Inl e"
| "rbind (Inr x) f = f x"

lemma rbind_eq_Inr [simp]:
  "rbind m f = Inr y \<longleftrightarrow> (\<exists>x. m = Inr x \<and> f x = Inr y)"
  by (cases m) auto

lemma rbind_cong [fundef_cong]:
  assumes "m = m'" and "\<And>x. m' = Inr x \<Longrightarrow> f x = f' x"
  shows "rbind m f = rbind m' f'"
  using assms by (cases m') auto

section \<open>Lists\<close>

text \<open>\<^verbatim>\<open>iter().position(p)\<close>: the index of the first element that satisfies the predicate.\<close>

fun position :: "('a \<Rightarrow> bool) \<Rightarrow> 'a list \<Rightarrow> nat option" where
  "position p [] = None"
| "position p (x # xs) = (if p x then Some 0 else map_option Suc (position p xs))"

lemma position_append_hit [codec]:
  assumes "\<forall>x \<in> set xs. \<not> p x" and "p y"
  shows "position p (xs @ y # ys) = Some (length xs)"
  using assms by (induction xs) auto

lemma position_Some_iff:
  "position p xs = Some i \<longleftrightarrow>
     i < length xs \<and> p (xs ! i) \<and> (\<forall>j < i. \<not> p (xs ! j))"
proof (induction xs arbitrary: i)
  case Nil
  then show ?case by simp
next
  case (Cons x xs)
  show ?case
    by (cases i) (auto simp: Cons.IH less_Suc_eq_0_disj split: if_splits)
qed

lemma position_None_iff [simp]: "position p xs = None \<longleftrightarrow> (\<forall>x \<in> set xs. \<not> p x)"
  by (induction xs) auto

lemma position_bound: "position p xs = Some i \<Longrightarrow> i < length xs"
  by (simp add: position_Some_iff)

lemma filter_not_length: "length (filter P xs) + length (filter (\<lambda>x. \<not> P x) xs) = length xs"
  by (rule sum_length_filter_compl)

lemma mset_filter_split: "mset (filter P xs) + mset (filter (\<lambda>x. \<not> P x) xs) = mset xs"
  by (induction xs) auto

text \<open>\<^verbatim>\<open>min_by_key\<close>: the first element with the least key.\<close>

fun min_by_key :: "('a \<Rightarrow> 'k::linorder) \<Rightarrow> 'a list \<Rightarrow> 'a option" where
  "min_by_key f [] = None"
| "min_by_key f (x # xs) =
     (case min_by_key f xs of None \<Rightarrow> Some x | Some y \<Rightarrow> if f x \<le> f y then Some x else Some y)"

lemma min_by_key_None [simp]: "min_by_key f xs = None \<longleftrightarrow> xs = []"
  by (cases xs) (auto split: option.splits)

lemma min_by_key_Some:
  assumes "min_by_key f xs = Some y"
  shows "y \<in> set xs" and "\<forall>x \<in> set xs. f y \<le> f x"
  using assms by (induction xs arbitrary: y) (force split: option.splits if_splits)+

section \<open>Words\<close>

lemma unat_of_nat_small: "n < 2 ^ 64 \<Longrightarrow> w = of_nat n \<Longrightarrow> unat (w :: u64) = n"
  by (simp add: unat_of_nat take_bit_nat_eq_self)

section \<open>Big-endian integers\<close>

text \<open>\<^verbatim>\<open>put_i32\<close>, \<^verbatim>\<open>put_i16\<close> and the bytes-to-integer direction used by \<^verbatim>\<open>get_i32\<close>, \<^verbatim>\<open>get_i16\<close>.\<close>

definition put_i32 :: "u32 \<Rightarrow> bytes" where
  "put_i32 w = [ucast (drop_bit 24 w), ucast (drop_bit 16 w), ucast (drop_bit 8 w), ucast w]"

definition be32 :: "u8 \<Rightarrow> u8 \<Rightarrow> u8 \<Rightarrow> u8 \<Rightarrow> u32" where
  "be32 a b c d = push_bit 24 (ucast a) OR push_bit 16 (ucast b) OR push_bit 8 (ucast c) OR ucast d"

definition put_i16 :: "u16 \<Rightarrow> bytes" where
  "put_i16 w = [ucast (drop_bit 8 w), ucast w]"

definition be16 :: "u8 \<Rightarrow> u8 \<Rightarrow> u16" where
  "be16 a b = push_bit 8 (ucast a) OR ucast b"

lemma length_put_i32 [simp]: "length (put_i32 w) = 4"
  by (simp add: put_i32_def)

lemma length_put_i16 [simp]: "length (put_i16 w) = 2"
  by (simp add: put_i16_def)

lemma be32_put [simp]:
  "be32 (ucast (drop_bit 24 w)) (ucast (drop_bit 16 w)) (ucast (drop_bit 8 w)) (ucast w) = w"
  (is "?l = w")
proof (rule bit_word_eqI)
  fix n assume "n < LENGTH(32)"
  then consider "n < 8" | "8 \<le> n" "n < 16" | "16 \<le> n" "n < 24" | "24 \<le> n" "n < 32"
    by fastforce
  then show "bit ?l n \<longleftrightarrow> bit w n"
    by cases (auto simp: be32_def bit_simps)
qed

lemma be16_put [simp]: "be16 (ucast (drop_bit 8 w)) (ucast w) = w" (is "?l = w")
proof (rule bit_word_eqI)
  fix n assume "n < LENGTH(16)"
  then consider "n < 8" | "8 \<le> n" "n < 16"
    by fastforce
  then show "bit ?l n \<longleftrightarrow> bit w n"
    by cases (auto simp: be16_def bit_simps)
qed

lemma put_i32_be32 [simp]: "put_i32 (be32 a b c d) = [a, b, c, d]"
proof -
  have out: "\<not> bit x (k + n)" if "8 \<le> k" for x :: u8 and k n
    using that by (auto dest: bit_imp_le_length)
  show ?thesis
    by (simp add: put_i32_def be32_def) (intro conjI; rule bit_word_eqI; simp add: bit_simps out)
qed

section \<open>UTF-8\<close>

text \<open>
  \<^verbatim>\<open>String::from_utf8_lossy\<close>: valid sequences are kept, every maximal invalid subpart is
  replaced by U+FFFD (\<^verbatim>\<open>EF BF BD\<close>).
\<close>

definition is_cont :: "u8 \<Rightarrow> bool" where
  "is_cont b \<longleftrightarrow> 0x80 \<le> b \<and> b \<le> 0xBF"

text \<open>The width of the sequence a leading byte announces; \<open>None\<close> for a byte that cannot lead.\<close>

definition utf8_width :: "u8 \<Rightarrow> nat option" where
  "utf8_width b =
     (if b < 0x80 then Some 1
      else if 0xC2 \<le> b \<and> b \<le> 0xDF then Some 2
      else if 0xE0 \<le> b \<and> b \<le> 0xEF then Some 3
      else if 0xF0 \<le> b \<and> b \<le> 0xF4 then Some 4
      else None)"

text \<open>The second byte is further restricted: no overlong forms, no surrogates, nothing past U+10FFFF.\<close>

definition utf8_second :: "u8 \<Rightarrow> u8 \<Rightarrow> bool" where
  "utf8_second b c =
     (if b = 0xE0 then 0xA0 \<le> c \<and> c \<le> 0xBF
      else if b = 0xED then 0x80 \<le> c \<and> c \<le> 0x9F
      else if b = 0xF0 then 0x90 \<le> c \<and> c \<le> 0xBF
      else if b = 0xF4 then 0x80 \<le> c \<and> c \<le> 0x8F
      else is_cont c)"

text \<open>How many bytes of a sequence led by \<open>b\<close> are well formed, counted up to the announced width.\<close>

definition utf8_run :: "u8 \<Rightarrow> nat \<Rightarrow> bytes \<Rightarrow> nat" where
  "utf8_run b w rest =
     (if w = 1 then 1
      else (case rest of [] \<Rightarrow> 1
        | c # r \<Rightarrow> if utf8_second b c
            then 2 + length (takeWhile is_cont (take (w - 2) r)) else 1))"

function from_utf8_lossy :: "bytes \<Rightarrow> bytes" where
  "from_utf8_lossy [] = []"
| "from_utf8_lossy (b # bs) =
     (case utf8_width b of
        None \<Rightarrow> [0xEF, 0xBF, 0xBD] @ from_utf8_lossy bs
      | Some w \<Rightarrow>
          let n = utf8_run b w bs
          in (if n = w then b # take (w - 1) bs else [0xEF, 0xBF, 0xBD])
               @ from_utf8_lossy (drop (n - 1) bs))"
  by pat_completeness auto
termination
  by (relation "measure length") auto

fun utf8_valid :: "bytes \<Rightarrow> bool" where
  "utf8_valid bs = (from_utf8_lossy bs = bs)"

section \<open>Decimal numbers\<close>

text \<open>Printing of an unsigned integer, and \<^verbatim>\<open>str::parse\<close> for an unsigned type of a given width.\<close>

fun digits :: "nat \<Rightarrow> nat list" where
  "digits n = (if n < 10 then [n] else digits (n div 10) @ [n mod 10])"

declare digits.simps [simp del]

definition digit_value :: "nat list \<Rightarrow> nat" where
  "digit_value ds = foldl (\<lambda>a d. a * 10 + d) 0 ds"

definition show_nat :: "nat \<Rightarrow> string" where
  "show_nat n = map (\<lambda>d. char_of (48 + d)) (digits n)"

definition char_digit :: "char \<Rightarrow> nat option" where
  "char_digit c = (let k = of_char c in if 48 \<le> k \<and> k < 58 then Some (k - 48) else None)"

definition is_digit :: "char \<Rightarrow> bool" where
  "is_digit c \<longleftrightarrow> char_digit c \<noteq> None"

text \<open>
  \<^verbatim>\<open>parse::<uN>()\<close>: an optional plus sign, at least one digit, nothing else, and a value that
  fits into the type.
\<close>

definition parse_digits :: "nat \<Rightarrow> string \<Rightarrow> nat option" where
  "parse_digits bound s =
     (if s \<noteq> [] \<and> list_all is_digit s
      then (let v = digit_value (map (the \<circ> char_digit) s) in if v < bound then Some v else None)
      else None)"

definition parse_uint :: "nat \<Rightarrow> string \<Rightarrow> nat option" where
  "parse_uint bound s =
     (case s of
        c # r \<Rightarrow> if c = CHR ''+'' then parse_digits bound r else parse_digits bound s
      | [] \<Rightarrow> None)"

lemma digit_value_digits [simp]: "digit_value (digits n) = n"
proof (induction n rule: digits.induct)
  case (1 n)
  then show ?case
    by (subst digits.simps) (auto simp: digit_value_def)
qed

lemma digits_less: "d \<in> set (digits n) \<Longrightarrow> d < 10"
proof (induction n rule: digits.induct)
  case (1 n)
  from 1(2) show ?case
    by (subst (asm) digits.simps) (auto split: if_splits dest: 1(1))
qed

lemma digits_not_Nil [simp]: "digits n \<noteq> []"
  by (subst digits.simps) simp

lemma char_digit_show [simp]: "d < 10 \<Longrightarrow> char_digit (char_of (48 + d)) = Some d"
  by (simp add: char_digit_def)

lemma show_nat_digits: "map (the \<circ> char_digit) (show_nat n) = digits n"
proof -
  have "map (the \<circ> char_digit) (show_nat n) = map (\<lambda>d. d) (digits n)"
    unfolding show_nat_def map_map by (rule map_cong) (auto dest: digits_less)
  then show ?thesis by simp
qed

lemma show_nat_all_digits: "list_all is_digit (show_nat n)"
  by (auto simp: list_all_iff show_nat_def is_digit_def dest: digits_less)

lemma show_nat_not_Nil [simp]: "show_nat n \<noteq> []"
  by (simp add: show_nat_def)

lemma show_nat_inject [simp]: "show_nat m = show_nat n \<longleftrightarrow> m = n"
  by (metis digit_value_digits show_nat_digits)

lemma parse_digits_show: "n < bound \<Longrightarrow> parse_digits bound (show_nat n) = Some n"
  by (simp add: parse_digits_def show_nat_all_digits show_nat_digits)

lemma not_digit_plus: "\<not> is_digit (CHR ''+'')"
  by code_simp

lemma parse_uint_show [simp]: "n < bound \<Longrightarrow> parse_uint bound (show_nat n) = Some n"
  using show_nat_all_digits [of n] not_digit_plus parse_digits_show [of n bound]
  by (cases "show_nat n") (auto simp: parse_uint_def)

text \<open>String literals as the bytes of their ASCII characters.\<close>

definition ascii :: "string \<Rightarrow> bytes" where
  "ascii s = map (\<lambda>c. of_nat (of_char c)) s"

lemma ascii_append [simp]: "ascii (s @ t) = ascii s @ ascii t"
  by (simp add: ascii_def)

lemma length_ascii [simp]: "length (ascii s) = length s"
  by (simp add: ascii_def)

lemma unat_ascii [simp]: "unat (of_nat (of_char c) :: u8) = of_char c"
  by (simp add: unat_of_nat take_bit_nat_eq_self)

lemma ascii_inject [simp]: "ascii s = ascii t \<longleftrightarrow> s = t"
proof -
  have "inj (\<lambda>c. of_nat (of_char c) :: u8)"
    by (rule injI) (metis of_char_eq_iff unat_ascii)
  then show ?thesis by (simp add: ascii_def)
qed

end
