(* ===== verification/Tokio_Sync.thy ===== *)
theory Tokio_Sync
  imports Prelude
begin

text \<open>
  The counting semaphore of the \<^verbatim>\<open>tokio\<close> crate, as the pool code uses it. The crate is not part of
  this repository, so its operations are a parameter: every definition that uses a semaphore takes a
  record of operations, and \<open>semaphore_laws\<close> names the documented behaviour the code relies on.
  \<^verbatim>\<open>try_acquire\<close> is read together with the \<^verbatim>\<open>forget\<close> that follows it everywhere in the code (the
  permit is not returned by the guard's destructor).
\<close>

record 's semaphore_ops =
  sem_new :: "nat \<Rightarrow> 's"
  sem_available :: "'s \<Rightarrow> nat"
  sem_is_closed :: "'s \<Rightarrow> bool"
  sem_try_acquire :: "'s \<Rightarrow> 's option"
  sem_add_permits :: "nat \<Rightarrow> 's \<Rightarrow> 's"
  sem_close :: "'s \<Rightarrow> 's"

definition semaphore_laws :: "'s semaphore_ops \<Rightarrow> bool" where
  "semaphore_laws S \<longleftrightarrow>
     (\<forall>n. sem_available S (sem_new S n) = n \<and> \<not> sem_is_closed S (sem_new S n)) \<and>
     (\<forall>s. sem_try_acquire S s = None \<longleftrightarrow> sem_is_closed S s \<or> sem_available S s = 0) \<and>
     (\<forall>s s'. sem_try_acquire S s = Some s' \<longrightarrow>
        sem_available S s = Suc (sem_available S s') \<and> \<not> sem_is_closed S s') \<and>
     (\<forall>n s. sem_available S (sem_add_permits S n s) = sem_available S s + n \<and>
        sem_is_closed S (sem_add_permits S n s) = sem_is_closed S s) \<and>
     (\<forall>s. sem_is_closed S (sem_close S s) \<and>
        sem_available S (sem_close S s) = sem_available S s)"

lemma sem_new_simps [simp]:
  assumes "semaphore_laws S"
  shows "sem_available S (sem_new S n) = n" and "\<not> sem_is_closed S (sem_new S n)"
  using assms unfolding semaphore_laws_def by metis+

lemma sem_add_simps [simp]:
  assumes "semaphore_laws S"
  shows "sem_available S (sem_add_permits S n s) = sem_available S s + n"
    and "sem_is_closed S (sem_add_permits S n s) = sem_is_closed S s"
  using assms unfolding semaphore_laws_def by metis+

lemma sem_close_simps [simp]:
  assumes "semaphore_laws S"
  shows "sem_is_closed S (sem_close S s)"
    and "sem_available S (sem_close S s) = sem_available S s"
  using assms unfolding semaphore_laws_def by metis+

lemma sem_try_None_iff:
  assumes "semaphore_laws S"
  shows "sem_try_acquire S s = None \<longleftrightarrow> sem_is_closed S s \<or> sem_available S s = 0"
  using assms unfolding semaphore_laws_def by metis

lemma sem_try_SomeD:
  assumes "semaphore_laws S" and "sem_try_acquire S s = Some s'"
  shows "sem_available S s = Suc (sem_available S s')"
    and "\<not> sem_is_closed S s" and "\<not> sem_is_closed S s'"
proof -
  have "sem_try_acquire S s \<noteq> None"
    using assms(2) by simp
  then show "\<not> sem_is_closed S s"
    using sem_try_None_iff [OF assms(1), of s] by simp
  show "sem_available S s = Suc (sem_available S s')" and "\<not> sem_is_closed S s'"
    using assms unfolding semaphore_laws_def by metis+
qed

lemma sem_try_open:
  assumes "semaphore_laws S" and "\<not> sem_is_closed S s" and "0 < sem_available S s"
  obtains s' where "sem_try_acquire S s = Some s'"
    and "sem_available S s = Suc (sem_available S s')" and "\<not> sem_is_closed S s'"
proof -
  have "sem_try_acquire S s \<noteq> None"
    using assms(2,3) sem_try_None_iff [OF assms(1), of s] by simp
  then obtain s' where s': "sem_try_acquire S s = Some s'"
    by blast
  then show thesis
    using that sem_try_SomeD [OF assms(1) s'] by blast
qed

text \<open>
  A concrete semaphore: the number of free permits and the closed flag. It satisfies the laws, so
  statements that assume them are not vacuous.
\<close>

definition counting_semaphore :: "(nat \<times> bool) semaphore_ops" where
  "counting_semaphore = \<lparr>
     sem_new = (\<lambda>n. (n, False)),
     sem_available = fst,
     sem_is_closed = snd,
     sem_try_acquire = (\<lambda>(n, cl). if cl \<or> n = 0 then None else Some (n - 1, cl)),
     sem_add_permits = (\<lambda>k (n, cl). (n + k, cl)),
     sem_close = (\<lambda>(n, cl). (n, True)) \<rparr>"

lemma counting_semaphore_simps [simp]:
  "sem_new counting_semaphore n = (n, False)"
  "sem_available counting_semaphore s = fst s"
  "sem_is_closed counting_semaphore s = snd s"
  "sem_try_acquire counting_semaphore s =
     (if snd s \<or> fst s = 0 then None else Some (fst s - 1, snd s))"
  "sem_add_permits counting_semaphore k s = (fst s + k, snd s)"
  "sem_close counting_semaphore s = (fst s, True)"
  by (simp_all add: counting_semaphore_def split_beta)

lemma counting_semaphore_laws [simp]: "semaphore_laws counting_semaphore"
  unfolding semaphore_laws_def counting_semaphore_simps
  by (intro conjI allI) (simp_all split: if_splits, auto)

end
