(* ===== verification/Coordinator.thy ===== *)
theory Coordinator
  imports Tokio_Sync "HOL-Library.Product_Lexorder"
begin

text \<open>
  The per-database connection coordinator, \<^verbatim>\<open>src/src/pool/pool_coordinator.rs\<close>.

  \<open>coordinator\<close> is \<^verbatim>\<open>PoolCoordinator\<close> with its two semaphores, two gauges and three counters.
  Every method is a function of that record; those that touch several atomics are composed of one
  function per atomic access (\<open>take_main\<close>, \<open>inc_total\<close>, \dots), in the order of the code, so that the
  theory \<open>Coordinator_Steps\<close> can interleave them. \<open>acquire\<close> is a program: \<open>acquire_step\<close> is what
  the task does between two points at which other tasks may run, and \<open>acquire_run\<close> executes it
  against an arbitrary environment. The reserve arbiter's loop body is \<open>arbiter_round\<close>.
\<close>

section \<open>State\<close>

record coordinator_config =
  max_db_connections :: nat
  min_connection_lifetime_ms :: u64
  reserve_pool_size :: nat
  reserve_pool_timeout_ms :: u64

record 's coordinator =
  coord_database :: string
  db_semaphore :: 's
  reserve_semaphore :: 's
  total_connections :: u64
  reserve_in_use :: u64
  coord_config :: coordinator_config
  evictions_total :: u64
  reserve_acquisitions_total :: u64
  exhaustions_total :: u64

record coordinator_permit =
  is_reserve :: bool

record coordinator_stats =
  st_total_connections :: u64
  st_reserve_in_use :: u64
  st_evictions_total :: u64
  st_reserve_acquisitions_total :: u64
  st_exhaustions_total :: u64

definition new_coordinator ::
  "'s semaphore_ops \<Rightarrow> string \<Rightarrow> coordinator_config \<Rightarrow> 's coordinator" where
  "new_coordinator S database config = \<lparr>
     coord_database = database,
     db_semaphore = sem_new S (max_db_connections config),
     reserve_semaphore = sem_new S (reserve_pool_size config),
     total_connections = 0,
     reserve_in_use = 0,
     coord_config = config,
     evictions_total = 0,
     reserve_acquisitions_total = 0,
     exhaustions_total = 0 \<rparr>"

section \<open>Atomic accesses\<close>

definition take_main :: "'s semaphore_ops \<Rightarrow> 's coordinator \<Rightarrow> 's coordinator option" where
  "take_main S c =
     map_option (\<lambda>s. c\<lparr>db_semaphore := s\<rparr>) (sem_try_acquire S (db_semaphore c))"

definition take_reserve :: "'s semaphore_ops \<Rightarrow> 's coordinator \<Rightarrow> 's coordinator option" where
  "take_reserve S c =
     map_option (\<lambda>s. c\<lparr>reserve_semaphore := s\<rparr>) (sem_try_acquire S (reserve_semaphore c))"

definition release_main :: "'s semaphore_ops \<Rightarrow> 's coordinator \<Rightarrow> 's coordinator" where
  "release_main S c = c\<lparr>db_semaphore := sem_add_permits S 1 (db_semaphore c)\<rparr>"

definition release_reserve :: "'s semaphore_ops \<Rightarrow> 's coordinator \<Rightarrow> 's coordinator" where
  "release_reserve S c = c\<lparr>reserve_semaphore := sem_add_permits S 1 (reserve_semaphore c)\<rparr>"

definition inc_total :: "'s coordinator \<Rightarrow> 's coordinator" where
  "inc_total c = c\<lparr>total_connections := total_connections c + 1\<rparr>"

definition dec_total :: "'s coordinator \<Rightarrow> 's coordinator" where
  "dec_total c = c\<lparr>total_connections := total_connections c - 1\<rparr>"

definition inc_reserve_in_use :: "'s coordinator \<Rightarrow> 's coordinator" where
  "inc_reserve_in_use c = c\<lparr>reserve_in_use := reserve_in_use c + 1\<rparr>"

definition dec_reserve_in_use :: "'s coordinator \<Rightarrow> 's coordinator" where
  "dec_reserve_in_use c = c\<lparr>reserve_in_use := reserve_in_use c - 1\<rparr>"

definition count_eviction :: "'s coordinator \<Rightarrow> 's coordinator" where
  "count_eviction c = c\<lparr>evictions_total := evictions_total c + 1\<rparr>"

definition count_reserve_acquisition :: "'s coordinator \<Rightarrow> 's coordinator" where
  "count_reserve_acquisition c =
     c\<lparr>reserve_acquisitions_total := reserve_acquisitions_total c + 1\<rparr>"

definition count_exhaustion :: "'s coordinator \<Rightarrow> 's coordinator" where
  "count_exhaustion c = c\<lparr>exhaustions_total := exhaustions_total c + 1\<rparr>"

lemmas atomics =
  release_main_def release_reserve_def inc_total_def dec_total_def
  inc_reserve_in_use_def dec_reserve_in_use_def count_eviction_def
  count_reserve_acquisition_def count_exhaustion_def

section \<open>Permits\<close>

definition try_acquire ::
  "'s semaphore_ops \<Rightarrow> 's coordinator \<Rightarrow> (coordinator_permit \<times> 's coordinator) option" where
  "try_acquire S c =
     (case take_main S c of
        Some c' \<Rightarrow> Some (\<lparr>is_reserve = False\<rparr>, inc_total c')
      | None \<Rightarrow> None)"

text \<open>\<^verbatim>\<open>impl Drop for CoordinatorPermit\<close>. The final \<^verbatim>\<open>notify_one\<close> only wakes waiters.\<close>

definition drop_permit ::
  "'s semaphore_ops \<Rightarrow> coordinator_permit \<Rightarrow> 's coordinator \<Rightarrow> 's coordinator" where
  "drop_permit S p c =
     dec_total
       (if is_reserve p then dec_reserve_in_use (release_reserve S c) else release_main S c)"

text \<open>
  \<^verbatim>\<open>ReserveGrant\<close>: \<open>Some ()\<close> while it still owns a reserve permit, \<open>None\<close> once consumed by
  \<^verbatim>\<open>into_permit\<close>. Its destructor returns the permit only in the first case.
\<close>

type_synonym reserve_grant = "unit option"

definition into_permit :: "reserve_grant \<Rightarrow> (coordinator_permit \<times> reserve_grant) option" where
  "into_permit g = (case g of Some _ \<Rightarrow> Some (\<lparr>is_reserve = True\<rparr>, None) | None \<Rightarrow> None)"

definition drop_grant ::
  "'s semaphore_ops \<Rightarrow> reserve_grant \<Rightarrow> 's coordinator \<Rightarrow> 's coordinator" where
  "drop_grant S g c = (case g of Some _ \<Rightarrow> release_reserve S c | None \<Rightarrow> c)"

text \<open>
  The requester's half of \<^verbatim>\<open>try_grant_reserve\<close>: \<open>answer\<close> is what awaiting the arbiter returned
  (\<open>None\<close>: channel closed, denied, or the 100 ms timeout).
\<close>

definition claim_grant ::
  "reserve_grant option \<Rightarrow> 's coordinator \<Rightarrow> coordinator_permit option \<times> 's coordinator" where
  "claim_grant answer c =
     (case answer of
        Some g \<Rightarrow> (map_option fst (into_permit g),
                   count_reserve_acquisition (inc_reserve_in_use (inc_total c)))
      | None \<Rightarrow> (None, c))"

definition try_upgrade_reserve_to_main ::
  "'s semaphore_ops \<Rightarrow> 's coordinator \<Rightarrow> bool \<times> 's coordinator" where
  "try_upgrade_reserve_to_main S c =
     (case take_main S c of
        Some c' \<Rightarrow> (True, dec_reserve_in_use (release_reserve S c'))
      | None \<Rightarrow> (False, c))"

definition coordinator_stats_of :: "'s coordinator \<Rightarrow> coordinator_stats" where
  "coordinator_stats_of c = \<lparr>
     st_total_connections = total_connections c,
     st_reserve_in_use = reserve_in_use c,
     st_evictions_total = evictions_total c,
     st_reserve_acquisitions_total = reserve_acquisitions_total c,
     st_exhaustions_total = exhaustions_total c \<rparr>"

definition available_main_permits :: "'s semaphore_ops \<Rightarrow> 's coordinator \<Rightarrow> nat" where
  "available_main_permits S c = sem_available S (db_semaphore c)"

section \<open>Acquisition\<close>

datatype acquire_phase = ReserveExhausted | NoReserve

record no_connection_info =
  nci_database :: string
  nci_user :: string
  nci_max_db_connections :: nat
  nci_active_connections :: u64
  nci_reserve_size :: nat
  nci_reserve_in_use :: u64
  nci_phase :: acquire_phase

datatype acquire_error = NoConnection no_connection_info

text \<open>
  The program points of \<^verbatim>\<open>acquire\<close>: one for every atomic access or await. A wait-phase point carries
  the deadline. \<open>Done\<close> holds the returned \<^verbatim>\<open>Result\<close>.
\<close>

datatype acquire_pc =
    PhaseA
  | Recheck
  | ReserveFirst
  | AwaitReserveFirst
  | PhaseB
  | PhaseBTake
  | WaitStart
  | WaitCheck nat
  | WaitTry nat
  | WaitEvict nat
  | WaitTake nat
  | WaitSelect nat
  | PhaseD
  | AwaitPhaseD
  | PhaseE acquire_phase
  | Done "acquire_error + coordinator_permit"

text \<open>
  What the surroundings answer at a program point: the clock in milliseconds, the result of
  \<^verbatim>\<open>EvictionSource::try_evict_one\<close>, the result of awaiting the arbiter, and which branch of the
  \<^verbatim>\<open>select!\<close> completed (\<open>True\<close>: notified, \<open>False\<close>: the sleep).
\<close>

record acquire_input =
  in_now :: nat
  in_evicted :: bool
  in_answer :: "reserve_grant option"
  in_woken :: bool

definition attempt ::
  "'s semaphore_ops \<Rightarrow> 's coordinator \<Rightarrow> acquire_pc \<Rightarrow> 's coordinator \<times> acquire_pc" where
  "attempt S c next_pc =
     (case try_acquire S c of
        Some (p, c') \<Rightarrow> (c', Done (Inr p))
      | None \<Rightarrow> (c, next_pc))"

definition await_grant ::
  "acquire_input \<Rightarrow> 's coordinator \<Rightarrow> acquire_pc \<Rightarrow> 's coordinator \<times> acquire_pc" where
  "await_grant i c next_pc =
     (case claim_grant (in_answer i) c of
        (Some p, c') \<Rightarrow> (c', Done (Inr p))
      | (None, c') \<Rightarrow> (c', next_pc))"

definition evict_branch ::
  "acquire_input \<Rightarrow> 's coordinator \<Rightarrow> acquire_pc \<Rightarrow> acquire_pc \<Rightarrow> 's coordinator \<times> acquire_pc" where
  "evict_branch i c evicted_pc other_pc =
     (if in_evicted i then (count_eviction c, evicted_pc) else (c, other_pc))"

definition exhausted_info ::
  "string \<Rightarrow> string \<Rightarrow> 's coordinator \<Rightarrow> acquire_phase \<Rightarrow> no_connection_info" where
  "exhausted_info database user c phase = \<lparr>
     nci_database = database,
     nci_user = user,
     nci_max_db_connections = max_db_connections (coord_config c),
     nci_active_connections = total_connections c,
     nci_reserve_size = reserve_pool_size (coord_config c),
     nci_reserve_in_use = reserve_in_use c,
     nci_phase = phase \<rparr>"

fun acquire_step ::
  "'s semaphore_ops \<Rightarrow> string \<Rightarrow> string \<Rightarrow> acquire_input \<Rightarrow> 's coordinator \<Rightarrow> acquire_pc
     \<Rightarrow> 's coordinator \<times> acquire_pc" where
  "acquire_step S db user i c PhaseA = attempt S c Recheck"
| "acquire_step S db user i c Recheck = attempt S c ReserveFirst"
| "acquire_step S db user i c ReserveFirst =
     (if reserve_pool_size (coord_config c) > 0 \<and> sem_available S (reserve_semaphore c) > 0
      then (c, AwaitReserveFirst) else (c, PhaseB))"
| "acquire_step S db user i c AwaitReserveFirst = await_grant i c PhaseB"
| "acquire_step S db user i c PhaseB = evict_branch i c PhaseBTake WaitStart"
| "acquire_step S db user i c PhaseBTake = attempt S c WaitStart"
| "acquire_step S db user i c WaitStart =
     (c, WaitCheck (in_now i + unat (reserve_pool_timeout_ms (coord_config c))))"
| "acquire_step S db user i c (WaitCheck deadline) =
     (if deadline - in_now i = 0 then (c, PhaseD) else (c, WaitTry deadline))"
| "acquire_step S db user i c (WaitTry deadline) = attempt S c (WaitEvict deadline)"
| "acquire_step S db user i c (WaitEvict deadline) =
     evict_branch i c (WaitTake deadline) (WaitSelect deadline)"
| "acquire_step S db user i c (WaitTake deadline) = attempt S c (WaitSelect deadline)"
| "acquire_step S db user i c (WaitSelect deadline) =
     (if in_woken i then (c, WaitCheck deadline) else (c, PhaseD))"
| "acquire_step S db user i c PhaseD =
     (if reserve_pool_size (coord_config c) > 0 then (c, AwaitPhaseD) else (c, PhaseE NoReserve))"
| "acquire_step S db user i c AwaitPhaseD = await_grant i c (PhaseE ReserveExhausted)"
| "acquire_step S db user i c (PhaseE phase) =
     (let c' = count_exhaustion c
      in (c', Done (Inl (NoConnection (exhausted_info db user c' phase)))))"
| "acquire_step S db user i c (Done r) = (c, Done r)"

text \<open>
  A run against an environment: before every step the other tasks transform the shared coordinator
  in any way, then the task sees its inputs.
\<close>

type_synonym 's schedule = "(('s coordinator \<Rightarrow> 's coordinator) \<times> acquire_input) list"

fun acquire_run ::
  "'s semaphore_ops \<Rightarrow> string \<Rightarrow> string \<Rightarrow> 's schedule \<Rightarrow> 's coordinator \<times> acquire_pc
     \<Rightarrow> 's coordinator \<times> acquire_pc" where
  "acquire_run S db user [] (c, pc) = (c, pc)"
| "acquire_run S db user ((env, i) # es) (c, pc) =
     acquire_run S db user es (acquire_step S db user i (env c) pc)"

section \<open>The reserve arbiter\<close>

text \<open>
  A queued request; \<open>rq_id\<close> stands for its response channel. The score is
  \<^verbatim>\<open>(starving, queued_clients)\<close>, compared lexicographically.
\<close>

record reserve_request =
  rq_id :: nat
  rq_user :: string
  rq_score :: "nat \<times> nat"

definition request_score :: "bool \<Rightarrow> nat \<Rightarrow> nat \<times> nat" where
  "request_score starving queued = (of_bool starving, queued)"

text \<open>
  \<^verbatim>\<open>BinaryHeap\<close> ordered by score: \<^verbatim>\<open>pop\<close> returns a request of greatest score. Which one among equals
  is left open by the library; the list model takes the first.
\<close>

fun greatest :: "reserve_request list \<Rightarrow> reserve_request option" where
  "greatest [] = None"
| "greatest (r # rs) =
     (case greatest rs of
        None \<Rightarrow> Some r
      | Some q \<Rightarrow> if rq_score q \<le> rq_score r then Some r else Some q)"

definition heap_pop ::
  "reserve_request list \<Rightarrow> (reserve_request \<times> reserve_request list) option" where
  "heap_pop h = map_option (\<lambda>r. (r, remove1 r h)) (greatest h)"

text \<open>Pop at most \<open>n\<close> elements: those popped, in order, and what stays.\<close>

fun drain :: "('h \<Rightarrow> ('a \<times> 'h) option) \<Rightarrow> nat \<Rightarrow> 'h \<Rightarrow> 'a list \<times> 'h" where
  "drain pop 0 h = ([], h)"
| "drain pop (Suc n) h =
     (case pop h of
        None \<Rightarrow> ([], h)
      | Some (x, h') \<Rightarrow> (let (xs, h'') = drain pop n h' in (x # xs, h'')))"

text \<open>
  The grant loop: while a request is pending and a reserve permit can be taken, the greatest
  request is popped and sent a grant. \<open>closed\<close> says which requesters have gone; a grant that cannot
  be sent is dropped, which returns its permit.
\<close>

fun arbiter_grant ::
  "'s semaphore_ops \<Rightarrow> (nat \<Rightarrow> bool) \<Rightarrow> nat \<Rightarrow> 's coordinator \<Rightarrow> reserve_request list
     \<Rightarrow> reserve_request list \<times> 's coordinator \<times> reserve_request list" where
  "arbiter_grant S closed 0 c pending = ([], c, pending)"
| "arbiter_grant S closed (Suc fuel) c pending =
     (if pending = [] then ([], c, [])
      else (case take_reserve S c of
          None \<Rightarrow> ([], c, pending)
        | Some c' \<Rightarrow>
            (case heap_pop pending of
               None \<Rightarrow> ([], c', pending)
             | Some (r, rest) \<Rightarrow>
                 if closed (rq_id r)
                 then arbiter_grant S closed fuel (drop_grant S (Some ()) c') rest
                 else (let (gs, c'', left) = arbiter_grant S closed fuel c' rest
                       in (r # gs, c'', left)))))"

definition heap_cap :: "coordinator_config \<Rightarrow> nat" where
  "heap_cap cfg = max (reserve_pool_size cfg) 1 * 4"

text \<open>Removal of cancelled requests, then the size cap, which keeps the greatest requests.\<close>

definition arbiter_prune ::
  "(nat \<Rightarrow> bool) \<Rightarrow> coordinator_config \<Rightarrow> reserve_request list \<Rightarrow> reserve_request list" where
  "arbiter_prune closed cfg pending =
     (if pending = [] then []
      else (let open_reqs = filter (\<lambda>r. \<not> closed (rq_id r)) pending
            in if length open_reqs > heap_cap cfg
               then fst (drain heap_pop (heap_cap cfg) open_reqs)
               else open_reqs))"

text \<open>
  One iteration of the arbiter's loop up to its \<^verbatim>\<open>select!\<close>: collect the requests that arrived, grant,
  prune. Result: the requests granted, the coordinator, the heap.
\<close>

definition arbiter_round ::
  "'s semaphore_ops \<Rightarrow> (nat \<Rightarrow> bool) \<Rightarrow> reserve_request list \<Rightarrow> 's coordinator
     \<Rightarrow> reserve_request list \<Rightarrow> reserve_request list \<times> 's coordinator \<times> reserve_request list" where
  "arbiter_round S closed arrived c pending =
     (let heap = pending @ arrived;
          (gs, c', left) = arbiter_grant S closed (length heap) c heap
      in (gs, c', arbiter_prune closed (coord_config c') left))"

section \<open>Specification predicates\<close>

text \<open>
  The books of the coordinator: \<open>main\<close> and \<open>res\<close> permits are held by server connections, \<open>grants\<close>
  reserve permits sit in grants under way. The semaphores and both gauges agree with them.
\<close>

definition ledger :: "'s semaphore_ops \<Rightarrow> 's coordinator \<Rightarrow> nat \<Rightarrow> nat \<Rightarrow> nat \<Rightarrow> bool" where
  "ledger S c main res grants \<longleftrightarrow>
     \<not> sem_is_closed S (db_semaphore c) \<and> \<not> sem_is_closed S (reserve_semaphore c) \<and>
     sem_available S (db_semaphore c) + main = max_db_connections (coord_config c) \<and>
     sem_available S (reserve_semaphore c) + res + grants = reserve_pool_size (coord_config c) \<and>
     total_connections c = of_nat (main + res) \<and>
     reserve_in_use c = of_nat res"

text \<open>What the grant loop guarantees, on every exit.\<close>

definition grant_post ::
  "'s semaphore_ops \<Rightarrow> (nat \<Rightarrow> bool) \<Rightarrow> 's coordinator \<Rightarrow> reserve_request list
     \<Rightarrow> reserve_request list \<Rightarrow> 's coordinator \<Rightarrow> reserve_request list \<Rightarrow> bool" where
  "grant_post S closed c pending gs c' left \<longleftrightarrow>
     (\<exists>gone. mset pending = mset gs + mset left + gone \<and> (\<forall>r \<in># gone. closed (rq_id r))) \<and>
     (\<forall>g \<in> set gs. \<not> closed (rq_id g) \<and> (\<forall>q \<in> set left. rq_score q \<le> rq_score g)) \<and>
     sem_available S (reserve_semaphore c) = sem_available S (reserve_semaphore c') + length gs \<and>
     (\<exists>s. c' = c\<lparr>reserve_semaphore := s\<rparr>) \<and>
     (left \<noteq> [] \<longrightarrow> take_reserve S c' = None)"

section \<open>Priority heaps\<close>

text \<open>
  The contract of a max-heap: \<^verbatim>\<open>pop\<close> fails only on the empty heap and otherwise removes an element
  whose key is at least every remaining one. Draining then yields the greatest elements.
\<close>

locale max_heap =
  fixes pop :: "'h \<Rightarrow> ('a \<times> 'h) option"
    and key :: "'a \<Rightarrow> 'k::linorder"
    and elems :: "'h \<Rightarrow> 'a multiset"
  assumes pop_None: "pop h = None \<Longrightarrow> elems h = {#}"
    and pop_elems: "pop h = Some (x, h') \<Longrightarrow> elems h = add_mset x (elems h')"
    and pop_greatest: "pop h = Some (x, h') \<Longrightarrow> y \<in># elems h' \<Longrightarrow> key y \<le> key x"
begin

lemma drain_elems: "drain pop n h = (xs, h') \<Longrightarrow> elems h = mset xs + elems h'"
  by (induction n arbitrary: h xs)
    (auto split: option.splits prod.splits dest: pop_elems)

lemma drain_size: "length (fst (drain pop n h)) = min n (size (elems h))"
  by (induction n arbitrary: h)
    (auto split: option.splits prod.splits dest: pop_None pop_elems simp: prod_eq_iff)

lemma drain_greatest:
  assumes "drain pop n h = (xs, h')" and "x \<in> set xs" and "y \<in># elems h'"
  shows "key y \<le> key x"
  using assms
proof (induction n arbitrary: h xs)
  case (Suc n)
  then obtain a h1 xs' where "pop h = Some (a, h1)" "drain pop n h1 = (xs', h')" "xs = a # xs'"
    by (auto split: option.splits prod.splits)
  with Suc show ?case
    using drain_elems [of n h1 xs' h'] by (auto intro: pop_greatest)
qed simp

end

lemma greatest_None [simp]: "greatest rs = None \<longleftrightarrow> rs = []"
  by (cases rs) (auto split: option.splits)

lemma greatest_Some:
  assumes "greatest rs = Some r"
  shows "r \<in> set rs" and "\<forall>q \<in> set rs. rq_score q \<le> rq_score r"
  using assms
  by (induction rs arbitrary: r)
    (auto split: option.splits if_splits dest: order_trans simp: not_le less_imp_le simp del: less_eq_prod_simp)

interpretation rq: max_heap heap_pop rq_score mset
proof
  fix h :: "reserve_request list" and x h' y
  show "heap_pop h = None \<Longrightarrow> mset h = {#}"
    by (simp add: heap_pop_def)
  show "heap_pop h = Some (x, h') \<Longrightarrow> mset h = add_mset x (mset h')"
    by (auto simp: heap_pop_def dest: greatest_Some(1))
  show "heap_pop h = Some (x, h') \<Longrightarrow> y \<in># mset h' \<Longrightarrow> rq_score y \<le> rq_score x"
    by (auto simp: heap_pop_def dest!: greatest_Some(2) in_set_remove1 [THEN iffD1, rotated]
        dest: notin_set_remove1)
qed

section \<open>The arbiter grants by priority\<close>

lemma take_reserve_Some:
  assumes "semaphore_laws S" and "take_reserve S c = Some c'"
  shows "sem_available S (reserve_semaphore c) = Suc (sem_available S (reserve_semaphore c'))"
    and "\<not> sem_is_closed S (reserve_semaphore c')"
    and "c' = c\<lparr>reserve_semaphore := reserve_semaphore c'\<rparr>"
  using assms by (auto simp: take_reserve_def dest: sem_try_SomeD)

lemma take_main_Some:
  assumes "semaphore_laws S" and "take_main S c = Some c'"
  shows "sem_available S (db_semaphore c) = Suc (sem_available S (db_semaphore c'))"
    and "\<not> sem_is_closed S (db_semaphore c')"
    and "c' = c\<lparr>db_semaphore := db_semaphore c'\<rparr>"
  using assms by (auto simp: take_main_def dest: sem_try_SomeD)

lemma take_None_iff:
  assumes "semaphore_laws S"
  shows "take_main S c = None \<longleftrightarrow>
           sem_is_closed S (db_semaphore c) \<or> sem_available S (db_semaphore c) = 0"
    and "take_reserve S c = None \<longleftrightarrow>
           sem_is_closed S (reserve_semaphore c) \<or> sem_available S (reserve_semaphore c) = 0"
  using assms by (simp_all add: take_main_def take_reserve_def sem_try_None_iff)

lemma grant_post_closed:
  assumes "semaphore_laws S" and "take_reserve S c = Some c1"
    and "heap_pop pending = Some (r, rest)" and "closed (rq_id r)"
    and post: "grant_post S closed (drop_grant S (Some ()) c1) rest gs c' left"
  shows "grant_post S closed c pending gs c' left"
proof -
  note t = take_reserve_Some [OF assms(1,2)]
  obtain gone where "mset rest = mset gs + mset left + gone" "\<forall>r \<in># gone. closed (rq_id r)"
    using post by (auto simp: grant_post_def)
  then have "mset pending = mset gs + mset left + add_mset r gone
      \<and> (\<forall>r \<in># add_mset r gone. closed (rq_id r))"
    using rq.pop_elems [OF assms(3)] assms(4) by simp
  then show ?thesis
    using post assms(1) t(1,2) by (subst (asm) t(3), unfold grant_post_def)
      (auto simp: drop_grant_def release_reserve_def)
qed

lemma grant_post_open:
  assumes "semaphore_laws S" and "take_reserve S c = Some c1"
    and "heap_pop pending = Some (r, rest)" and "\<not> closed (rq_id r)"
    and post: "grant_post S closed c1 rest gs c' left"
  shows "grant_post S closed c pending (r # gs) c' left"
proof -
  note t = take_reserve_Some [OF assms(1,2)]
  obtain gone where g: "mset rest = mset gs + mset left + gone" "\<forall>r \<in># gone. closed (rq_id r)"
    using post by (auto simp: grant_post_def)
  then have "mset pending = mset (r # gs) + mset left + gone"
    using rq.pop_elems [OF assms(3)] by simp
  moreover have "\<forall>q \<in> set left. rq_score q \<le> rq_score r"
    using rq.pop_greatest [OF assms(3)] g by simp
  ultimately show ?thesis
    using post assms(4) t(1,2) g(2) by (subst (asm) t(3), unfold grant_post_def) auto
qed

lemma reserve_update_same [simp]: "\<exists>s. c = c\<lparr>reserve_semaphore := s\<rparr>"
  by (rule exI [of _ "reserve_semaphore c"]) simp

lemma arbiter_grant_post:
  assumes "semaphore_laws S" and "length pending \<le> fuel"
    and "arbiter_grant S closed fuel c pending = (gs, c', left)"
  shows "grant_post S closed c pending gs c' left"
  using assms(2,3)
proof (induction fuel arbitrary: c pending gs)
  case 0
  then show ?case by (simp add: grant_post_def)
next
  case (Suc fuel)
  show ?case
  proof (cases "pending = [] \<or> take_reserve S c = None")
    case True
    with Suc.prems show ?thesis by (auto simp: grant_post_def split: if_splits)
  next
    case False
    then obtain c1 r where t: "take_reserve S c = Some c1" and r: "greatest pending = Some r"
      by (metis greatest_None option.exhaust)
    then have pop: "heap_pop pending = Some (r, remove1 r pending)"
      by (simp add: heap_pop_def)
    have len: "length (remove1 r pending) \<le> fuel"
      using Suc.prems(1) greatest_Some(1) [OF r] by (simp add: length_remove1)
    show ?thesis
    proof (cases "closed (rq_id r)")
      case True
      then show ?thesis
        using Suc.prems(2) False t pop
        by (intro grant_post_closed [OF assms(1) t pop] Suc.IH [OF len]) simp_all
    next
      case False
      then obtain gs' where "arbiter_grant S closed fuel c1 (remove1 r pending) = (gs', c', left)"
        and "gs = r # gs'"
        using Suc.prems(2) \<open>\<not> (pending = [] \<or> take_reserve S c = None)\<close> t pop
        by (auto split: prod.splits)
      then show ?thesis
        using False by (auto intro: grant_post_open [OF assms(1) t pop, of closed] Suc.IH [OF len])
    qed
  qed
qed

lemma grant_post_sets:
  assumes "grant_post S closed c pending gs c' left"
  shows "set gs \<subseteq> set pending" and "set left \<subseteq> set pending"
    and "q \<in> set pending \<Longrightarrow> closed (rq_id q) \<or> q \<in> set gs \<or> q \<in> set left"
    and "coord_config c' = coord_config c"
proof -
  obtain gone where all: "mset pending = mset gs + mset left + gone"
    and gone: "\<forall>r \<in># gone. closed (rq_id r)"
    using assms by (auto simp: grant_post_def)
  have eq: "set pending = set gs \<union> set left \<union> set_mset gone"
    using arg_cong [OF all, of set_mset] by simp
  then show "set gs \<subseteq> set pending" and "set left \<subseteq> set pending"
    by auto
  show "q \<in> set pending \<Longrightarrow> closed (rq_id q) \<or> q \<in> set gs \<or> q \<in> set left"
    using eq gone by auto
  show "coord_config c' = coord_config c"
    using assms by (auto simp: grant_post_def)
qed

lemma arbiter_prune_bound: "length (arbiter_prune closed cfg left) \<le> heap_cap cfg"
  by (auto simp: arbiter_prune_def Let_def rq.drain_size)

lemma arbiter_prune_subset: "set (arbiter_prune closed cfg left) \<subseteq> {r \<in> set left. \<not> closed (rq_id r)}"
proof -
  have "set (fst (drain heap_pop n h)) \<subseteq> set h" for n h
    using rq.drain_elems [of n h] by (cases "drain heap_pop n h") (metis Un_upper1 fst_conv set_mset_mset set_mset_union)
  from this [of "heap_cap cfg" "filter (\<lambda>r. \<not> closed (rq_id r)) left"] show ?thesis
    by (auto simp: arbiter_prune_def Let_def)
qed

text \<open>A request that pruning drops scores no higher than any it keeps, and none is dropped within the cap.\<close>

lemma arbiter_prune_keeps:
  assumes "r \<in> set left" and "\<not> closed (rq_id r)" and "r \<notin> set (arbiter_prune closed cfg left)"
  shows "length (arbiter_prune closed cfg left) = heap_cap cfg"
    and "\<forall>k \<in> set (arbiter_prune closed cfg left). rq_score r \<le> rq_score k"
proof -
  let ?h = "filter (\<lambda>r. \<not> closed (rq_id r)) left"
  obtain xs h' where d: "drain heap_pop (heap_cap cfg) ?h = (xs, h')"
    by fastforce
  have big: "length ?h > heap_cap cfg" and p: "arbiter_prune closed cfg left = xs"
    using assms d by (auto simp: arbiter_prune_def Let_def split: if_splits)
  show "length (arbiter_prune closed cfg left) = heap_cap cfg"
    using rq.drain_size [of "heap_cap cfg" ?h, unfolded size_mset] d big p by simp
  have "r \<in># mset h'"
    using rq.drain_elems [OF d, THEN arg_cong, of set_mset] assms p by auto
  then show "\<forall>k \<in> set (arbiter_prune closed cfg left). rq_score r \<le> rq_score k"
    using rq.drain_greatest [OF d] p by blast
qed

section \<open>The books balance\<close>

lemma ledger_new:
  "semaphore_laws S \<Longrightarrow> ledger S (new_coordinator S db cfg) 0 0 0"
  by (simp add: ledger_def new_coordinator_def)

lemma ledger_try_acquire:
  assumes "semaphore_laws S" and "ledger S c m r g" and "try_acquire S c = Some (p, c')"
  shows "ledger S c' (Suc m) r g" and "\<not> is_reserve p"
proof -
  obtain c1 where t: "take_main S c = Some c1" and c': "c' = inc_total c1" "p = \<lparr>is_reserve = False\<rparr>"
    using assms(3) by (auto simp: try_acquire_def split: option.splits)
  note f = take_main_Some [OF assms(1) t]
  show "ledger S c' (Suc m) r g"
    using assms(2) f(1,2) unfolding c'(1)
    by (subst f(3)) (simp add: ledger_def inc_total_def algebra_simps)
  show "\<not> is_reserve p" using c' by simp
qed

lemma ledger_try_acquire_None:
  assumes "semaphore_laws S" and "ledger S c m r g"
  shows "try_acquire S c = None \<longleftrightarrow> m = max_db_connections (coord_config c)"
  using assms by (auto simp: try_acquire_def ledger_def take_None_iff split: option.splits)
    (metis not_None_eq take_None_iff(1))+

lemma ledger_drop_permit:
  assumes "semaphore_laws S"
  shows "\<not> is_reserve p \<Longrightarrow> ledger S c (Suc m) r g \<Longrightarrow> ledger S (drop_permit S p c) m r g"
    and "is_reserve p \<Longrightarrow> ledger S c m (Suc r) g \<Longrightarrow> ledger S (drop_permit S p c) m r g"
  using assms by (auto simp: drop_permit_def ledger_def atomics algebra_simps)

lemma ledger_grant:
  assumes "semaphore_laws S"
  shows "ledger S c m r g \<Longrightarrow> take_reserve S c = Some c' \<Longrightarrow> ledger S c' m r (Suc g)"
    and "ledger S c m r (Suc g) \<Longrightarrow> ledger S (drop_grant S (Some ()) c) m r g"
    and "ledger S c m r (Suc g) \<Longrightarrow> ledger S (snd (claim_grant (Some (Some ())) c)) m (Suc r) g"
proof -
  show "ledger S c' m r (Suc g)" if l: "ledger S c m r g" and t: "take_reserve S c = Some c'"
    using l take_reserve_Some(1,2) [OF assms t]
    by (subst take_reserve_Some(3) [OF assms t]) (simp add: ledger_def)
  show "ledger S c m r (Suc g) \<Longrightarrow> ledger S (drop_grant S (Some ()) c) m r g"
    using assms by (simp add: ledger_def drop_grant_def atomics)
  show "ledger S c m r (Suc g) \<Longrightarrow> ledger S (snd (claim_grant (Some (Some ())) c)) m (Suc r) g"
    using assms by (simp add: ledger_def claim_grant_def atomics algebra_simps)
qed

lemma ledger_upgrade:
  assumes "semaphore_laws S" and "ledger S c m (Suc r) g"
    and "try_upgrade_reserve_to_main S c = (True, c')"
  shows "ledger S c' (Suc m) r g"
proof -
  obtain c1 where t: "take_main S c = Some c1" and c': "c' = dec_reserve_in_use (release_reserve S c1)"
    using assms(3) by (auto simp: try_upgrade_reserve_to_main_def split: option.splits)
  show ?thesis
    using assms(1,2) take_main_Some(1,2) [OF assms(1) t] unfolding c'
    by (subst take_main_Some(3) [OF assms(1) t]) (simp add: ledger_def atomics algebra_simps)
qed

lemma ledger_counters [simp]:
  "ledger S (count_eviction c) m r g = ledger S c m r g"
  "ledger S (count_exhaustion c) m r g = ledger S c m r g"
  by (simp_all add: ledger_def atomics)

text \<open>The permits a finished acquisition hands out.\<close>

lemma attempt_ledger:
  assumes "semaphore_laws S" and "ledger S c m r g" and "attempt S c nx = (c', pc')"
  shows "(pc' = nx \<and> c' = c \<and> m = max_db_connections (coord_config c)) \<or>
         (pc' = Done (Inr \<lparr>is_reserve = False\<rparr>) \<and> ledger S c' (Suc m) r g)"
  using assms(3) ledger_try_acquire [OF assms(1,2)] ledger_try_acquire_None [OF assms(1,2)]
  by (auto simp: attempt_def try_acquire_def split: option.splits)

lemma await_grant_ledger:
  assumes "semaphore_laws S" and "in_answer i = Some (Some ()) \<Longrightarrow> ledger S c m r (Suc g)"
    and "in_answer i \<noteq> Some None" and "await_grant i c nx = (c', pc')"
  shows "(pc' = nx \<and> c' = c \<and> in_answer i = None) \<or>
         (pc' = Done (Inr \<lparr>is_reserve = True\<rparr>) \<and> ledger S c' m (Suc r) g)"
  using assms(2-4) ledger_grant(3) [OF assms(1), of c m r g]
  by (cases "in_answer i") (auto simp: await_grant_def claim_grant_def into_permit_def)

section \<open>Runs of acquire\<close>

lemma config_kept [simp]:
  "coord_config (count_eviction c) = coord_config c"
  "coord_config (count_exhaustion c) = coord_config c"
  "coord_config (snd (claim_grant a c)) = coord_config c"
  "try_acquire S c = Some (p, c') \<Longrightarrow> coord_config c' = coord_config c"
  by (auto simp: atomics claim_grant_def try_acquire_def take_main_def split: option.splits)

lemma acquire_step_config [simp]:
  "coord_config (fst (acquire_step S db user i c pc)) = coord_config c"
proof -
  have "coord_config (fst (attempt S c nx)) = coord_config c" for nx
    by (auto simp: attempt_def split: option.splits prod.splits)
  moreover have "coord_config (fst (await_grant i c nx)) = coord_config c" for nx
    using config_kept(3) [of "in_answer i" c]
    by (auto simp: await_grant_def simp del: config_kept split: option.splits prod.splits)
  ultimately show ?thesis
    by (cases pc) (simp_all add: evict_branch_def Let_def)
qed

definition keeps_config :: "'s schedule \<Rightarrow> bool" where
  "keeps_config es \<longleftrightarrow> (\<forall>e \<in> set es. \<forall>c. coord_config (fst e c) = coord_config c)"

lemma keeps_config_simps [simp]:
  "keeps_config []"
  "keeps_config (e # es) \<longleftrightarrow> (\<forall>c. coord_config (fst e c) = coord_config c) \<and> keeps_config es"
  "keeps_config (es @ fs) \<longleftrightarrow> keeps_config es \<and> keeps_config fs"
  by (auto simp: keeps_config_def)

lemma acquire_run_append:
  "acquire_run S db user (es @ fs) st = acquire_run S db user fs (acquire_run S db user es st)"
  by (induction S db user es st rule: acquire_run.induct) auto

text \<open>An assertion on program points that every step establishes from itself holds after a run.\<close>

lemma acquire_run_invariant:
  assumes "keeps_config es" and "coord_config c = cfg" and "P pc"
    and "\<And>e c pc. e \<in> set es \<Longrightarrow> coord_config c = cfg \<Longrightarrow> P pc
           \<Longrightarrow> P (snd (acquire_step S db user (snd e) c pc))"
  shows "P (snd (acquire_run S db user es (c, pc)))
    \<and> coord_config (fst (acquire_run S db user es (c, pc))) = cfg"
  using assms
proof (induction es arbitrary: c pc)
  case (Cons e es)
  obtain env i where e: "e = (env, i)" by fastforce
  obtain c' pc' where st: "acquire_step S db user i (env c) pc = (c', pc')" by fastforce
  have "coord_config (env c) = cfg"
    using Cons.prems(1,2) e by simp
  then have "P pc'" and "coord_config c' = cfg"
    using Cons.prems(3) Cons.prems(4) [of e "env c" pc] e st
      acquire_step_config [of S db user i "env c" pc] by auto
  then show ?case
    using Cons.IH [of c' pc'] Cons.prems e st by simp
qed simp

lemma snd_steps:
  "snd (attempt S c nx) = (case map_option fst (try_acquire S c) of None \<Rightarrow> nx | Some p \<Rightarrow> Done (Inr p))"
  "snd (await_grant i c nx) = (case fst (claim_grant (in_answer i) c) of None \<Rightarrow> nx | Some p \<Rightarrow> Done (Inr p))"
  "snd (evict_branch i c a b) = (if in_evicted i then a else b)"
  by (auto simp: attempt_def await_grant_def evict_branch_def split: option.splits prod.splits)

text \<open>How many steps a program point is from the end once the deadline has passed.\<close>

fun tail_rank :: "acquire_pc \<Rightarrow> nat" where
  "tail_rank (WaitTry _) = 8"
| "tail_rank (WaitEvict _) = 7"
| "tail_rank (WaitTake _) = 6"
| "tail_rank (WaitSelect _) = 5"
| "tail_rank (WaitCheck _) = 4"
| "tail_rank PhaseD = 3"
| "tail_rank AwaitPhaseD = 2"
| "tail_rank (PhaseE _) = 1"
| "tail_rank (Done _) = 0"
| "tail_rank _ = 9"

fun head_rank :: "acquire_pc \<Rightarrow> nat" where
  "head_rank PhaseA = 7"
| "head_rank Recheck = 6"
| "head_rank ReserveFirst = 5"
| "head_rank AwaitReserveFirst = 4"
| "head_rank PhaseB = 3"
| "head_rank PhaseBTake = 2"
| "head_rank WaitStart = 1"
| "head_rank _ = 0"

text \<open>Past the phases before the wait, with every deadline at most \<open>D\<close>.\<close>

fun deadline_by :: "nat \<Rightarrow> acquire_pc \<Rightarrow> bool" where
  "deadline_by D (WaitTry d) = (d \<le> D)"
| "deadline_by D (WaitEvict d) = (d \<le> D)"
| "deadline_by D (WaitTake d) = (d \<le> D)"
| "deadline_by D (WaitSelect d) = (d \<le> D)"
| "deadline_by D (WaitCheck d) = (d \<le> D)"
| "deadline_by D _ = True"

lemma head_progress:
  "head_rank (snd (acquire_step S db user i c pc)) \<le> head_rank pc - 1"
  by (cases pc) (simp_all add: snd_steps Let_def split: option.split)

lemma tail_progress:
  assumes "head_rank pc = 0"
  shows "head_rank (snd (acquire_step S db user i c pc)) = 0"
    and "deadline_by D pc \<Longrightarrow> deadline_by D (snd (acquire_step S db user i c pc))"
    and "deadline_by (in_now i) pc
           \<Longrightarrow> tail_rank (snd (acquire_step S db user i c pc)) \<le> tail_rank pc - 1"
  using assms by (cases pc; simp add: snd_steps Let_def split: option.split)+

lemma head_deadline:
  assumes "in_now i \<le> T" and "deadline_by (T + unat (reserve_pool_timeout_ms (coord_config c))) pc"
  shows "deadline_by (T + unat (reserve_pool_timeout_ms (coord_config c)))
           (snd (acquire_step S db user i c pc))"
  using assms by (cases pc) (simp_all add: snd_steps Let_def split: option.split)

lemma deadline_by_mono: "deadline_by D pc \<Longrightarrow> D \<le> D' \<Longrightarrow> deadline_by D' pc"
  by (cases pc) auto

lemma acquire_run_head:
  assumes "keeps_config es"
  shows "head_rank (snd (acquire_run S db user es (c, pc))) \<le> head_rank pc - length es"
  using assms
proof (induction es arbitrary: c pc)
  case (Cons e es)
  obtain env i where e: "e = (env, i)" by fastforce
  obtain c' pc' where "acquire_step S db user i (env c) pc = (c', pc')" by fastforce
  then show ?case
    using Cons.IH [of c' pc'] Cons.prems head_progress [of S db user i "env c" pc] e by simp
qed simp

lemma acquire_run_tail:
  assumes "head_rank pc = 0" and "deadline_by D pc" and "\<forall>e \<in> set es. D \<le> in_now (snd e)"
  shows "tail_rank (snd (acquire_run S db user es (c, pc))) \<le> tail_rank pc - length es"
  using assms
proof (induction es arbitrary: c pc)
  case (Cons e es)
  obtain env i where e: "e = (env, i)" by fastforce
  obtain c' pc' where st: "acquire_step S db user i (env c) pc = (c', pc')" by fastforce
  have "deadline_by (in_now i) pc"
    using Cons.prems(2,3) e by (auto intro: deadline_by_mono)
  then have "head_rank pc' = 0" "deadline_by D pc'" "tail_rank pc' \<le> tail_rank pc - 1"
    using tail_progress [OF Cons.prems(1), where S = S and db = db and user = user and i = i
        and c = "env c"] Cons.prems(2) st by auto
  moreover have "\<forall>e \<in> set es. D \<le> in_now (snd e)"
    using Cons.prems(3) by simp
  ultimately have "tail_rank (snd (acquire_run S db user es (c', pc'))) \<le> tail_rank pc' - length es"
    using Cons.IH by blast
  then show ?case
    using \<open>tail_rank pc' \<le> tail_rank pc - 1\<close> e st by simp
qed simp

lemma tail_rank_0: "tail_rank pc = 0 \<Longrightarrow> \<exists>r. pc = Done r"
  by (cases pc) auto

lemma tail_rank_bound: "head_rank pc = 0 \<Longrightarrow> tail_rank pc \<le> 8"
  by (cases pc) auto


text \<open>Concrete data for the examples below: one main and one reserve slot, the main one taken.\<close>

definition small_config :: coordinator_config where
  "small_config = \<lparr>max_db_connections = 1, min_connection_lifetime_ms = 5000,
     reserve_pool_size = 1, reserve_pool_timeout_ms = 3000\<rparr>"

definition full_coordinator :: "(nat \<times> bool) coordinator" where
  "full_coordinator =
     snd (the (try_acquire counting_semaphore
       (new_coordinator counting_semaphore ''db'' small_config)))"

definition quiet_input :: "nat \<Rightarrow> acquire_input" where
  "quiet_input t = \<lparr>in_now = t, in_evicted = False, in_answer = None, in_woken = True\<rparr>"

lemma full_coordinator_simps [simp]:
  "coord_config full_coordinator = small_config"
  "db_semaphore full_coordinator = (0, False)"
  "reserve_semaphore full_coordinator = (1, False)"
  "ledger counting_semaphore full_coordinator 1 0 0"
  by (simp_all add: full_coordinator_def try_acquire_def take_main_def new_coordinator_def
      small_config_def inc_total_def ledger_def)


text \<open>The deadline of every wait point is at least \<open>D\<close>, and the wait has not been given up.\<close>

fun waits_until :: "nat \<Rightarrow> acquire_pc \<Rightarrow> bool" where
  "waits_until D (WaitTry d) = (D \<le> d)"
| "waits_until D (WaitEvict d) = (D \<le> d)"
| "waits_until D (WaitTake d) = (D \<le> d)"
| "waits_until D (WaitSelect d) = (D \<le> d)"
| "waits_until D (WaitCheck d) = (D \<le> d)"
| "waits_until D PhaseD = False"
| "waits_until D AwaitPhaseD = False"
| "waits_until D (PhaseE _) = False"
| "waits_until D (Done (Inl _)) = False"
| "waits_until D _ = True"

lemma waits_until_step:
  assumes "in_woken i" and "T \<le> in_now i"
    and "in_now i < T + unat (reserve_pool_timeout_ms (coord_config c))"
    and "waits_until (T + unat (reserve_pool_timeout_ms (coord_config c))) pc"
  shows "waits_until (T + unat (reserve_pool_timeout_ms (coord_config c)))
           (snd (acquire_step S db user i c pc))"
  using assms by (cases pc) (auto simp: snd_steps Let_def split: option.split)



text \<open>What a program point already says about the error it may return.\<close>

fun error_ok :: "coordinator_config \<Rightarrow> string \<Rightarrow> string \<Rightarrow> acquire_pc \<Rightarrow> bool" where
  "error_ok cfg db user (PhaseE ph) = (ph = NoReserve \<longleftrightarrow> reserve_pool_size cfg = 0)"
| "error_ok cfg db user AwaitPhaseD = (reserve_pool_size cfg \<noteq> 0)"
| "error_ok cfg db user (Done (Inl (NoConnection info))) =
     (nci_database info = db \<and> nci_user info = user \<and>
      nci_max_db_connections info = max_db_connections cfg \<and>
      nci_reserve_size info = reserve_pool_size cfg \<and>
      (nci_phase info = NoReserve \<longleftrightarrow> reserve_pool_size cfg = 0))"
| "error_ok cfg db user _ = True"

lemma error_ok_step:
  "error_ok (coord_config c) db user pc
     \<Longrightarrow> error_ok (coord_config c) db user (snd (acquire_step S db user i c pc))"
  by (cases pc) (auto simp: snd_steps Let_def exhausted_info_def atomics split: option.split)

text \<open>
  The error a client sees names the right limits and the right cause: \<^verbatim>\<open>NoReserve\<close> exactly when
  no reserve pool is configured, \<^verbatim>\<open>ReserveExhausted\<close> otherwise.
\<close>

theorem acquire_error_sound:
  assumes "keeps_config es"
    and "snd (acquire_run S db user es (c, PhaseA)) = Done (Inl (NoConnection info))"
  shows "nci_database info = db \<and> nci_user info = user
    \<and> nci_max_db_connections info = max_db_connections (coord_config c)
    \<and> nci_reserve_size info = reserve_pool_size (coord_config c)
    \<and> (nci_phase info = NoReserve \<longleftrightarrow> reserve_pool_size (coord_config c) = 0)"
proof -
  have "error_ok (coord_config c) db user (snd (acquire_step S db user (snd e) c' pc))"
    if "e \<in> set es" "coord_config c' = coord_config c" "error_ok (coord_config c) db user pc"
    for e c' pc
    using error_ok_step [of c' db user pc S "snd e"] that by simp
  then have "error_ok (coord_config c) db user (snd (acquire_run S db user es (c, PhaseA)))"
    using acquire_run_invariant [of es c "coord_config c" "error_ok (coord_config c) db user"
        PhaseA S db user] assms(1) by simp
  then show ?thesis
    using assms(2) by simp
qed

theorem acquire_error_sound_witness:
  "\<exists>info. snd (acquire_run counting_semaphore ''db'' ''u''
       (replicate 6 (id, quiet_input 10) @ replicate 4 (id, quiet_input 3010))
       (full_coordinator, PhaseA)) = Done (Inl (NoConnection info))
     \<and> nci_phase info = ReserveExhausted \<and> nci_max_db_connections info = 1"
proof -
  let ?es = "replicate 6 (id, quiet_input 10) @ replicate 4 (id, quiet_input 3010)"
  let ?info = "exhausted_info ''db'' ''u'' (count_exhaustion full_coordinator) ReserveExhausted"
  have run: "snd (acquire_run counting_semaphore ''db'' ''u'' ?es (full_coordinator, PhaseA))
      = Done (Inl (NoConnection ?info))"
    by (simp add: numeral_eq_Suc attempt_def try_acquire_def take_main_def await_grant_def
        claim_grant_def evict_branch_def quiet_input_def small_config_def Let_def)
  show ?thesis
    using acquire_error_sound [OF _ run] run
    by (intro exI [of _ ?info]) (simp add: keeps_config_def small_config_def exhausted_info_def)
qed

text \<open>The books after a step of \<^verbatim>\<open>acquire\<close> that reached a given program point.\<close>

fun books_after ::
  "'s semaphore_ops \<Rightarrow> nat \<Rightarrow> nat \<Rightarrow> nat \<Rightarrow> 's coordinator \<times> acquire_pc \<Rightarrow> bool" where
  "books_after S m r g (c, Done (Inr p)) =
     (if is_reserve p then ledger S c m (Suc r) (g - 1) else ledger S c (Suc m) r g)"
| "books_after S m r g (c, pc) = ledger S c m r g"

lemma books_after_attempt:
  assumes "semaphore_laws S" and "ledger S c m r g" and "\<nexists>p. nx = Done (Inr p)"
  shows "books_after S m r g (attempt S c nx)"
proof -
  have "books_after S m r g (c, nx)"
    using assms(2,3) by (cases "(S, m, r, g, (c, nx))" rule: books_after.cases) auto
  then show ?thesis
    using attempt_ledger [OF assms(1,2), of nx "fst (attempt S c nx)" "snd (attempt S c nx)"]
    by (cases "attempt S c nx") auto
qed

lemma books_after_await:
  assumes "semaphore_laws S" and "ledger S c m r g" and "\<nexists>p. nx = Done (Inr p)"
    and "in_answer i \<noteq> Some None" and "in_answer i \<noteq> None \<Longrightarrow> 0 < g"
  shows "books_after S m r g (await_grant i c nx)"
proof -
  have "books_after S m r g (c, nx)"
    using assms(2,3) by (cases "(S, m, r, g, (c, nx))" rule: books_after.cases) auto
  then show ?thesis
    using await_grant_ledger [OF assms(1), of i c m r "g - 1" nx "fst (await_grant i c nx)"
        "snd (await_grant i c nx)"] assms(2,4,5)
    by (cases "await_grant i c nx") auto
qed

text \<open>
  C23. \<^verbatim>\<open>acquire\<close> keeps the books: a step that completes the call with a permit moves exactly one
  unit (a main slot, or a grant under way into a reserve permit), and no other step, the error exit
  included, moves any.
\<close>

theorem acquire_step_balanced:
  assumes "semaphore_laws S" and "ledger S c m r g" and "\<forall>res. pc \<noteq> Done res"
    and "in_answer i \<noteq> Some None" and "in_answer i \<noteq> None \<Longrightarrow> 0 < g"
  shows "books_after S m r g (acquire_step S db user i c pc)"
  using assms
  by (cases pc) (auto simp: evict_branch_def Let_def intro!: books_after_attempt books_after_await)

theorem acquire_step_balanced_witness:
  "ledger counting_semaphore (snd (the (try_acquire counting_semaphore
     (new_coordinator counting_semaphore ''db'' small_config)))) (Suc 0) 0 0"
proof -
  let ?c = "new_coordinator counting_semaphore ''db'' small_config"
  have "books_after counting_semaphore 0 0 0
      (acquire_step counting_semaphore ''db'' ''u'' (quiet_input 0) ?c PhaseA)"
    by (rule acquire_step_balanced [OF counting_semaphore_laws
          ledger_new [OF counting_semaphore_laws]]) (simp_all add: quiet_input_def)
  then show ?thesis
    by (simp add: attempt_def try_acquire_def take_main_def new_coordinator_def small_config_def)
qed

text \<open>
  Reserve before eviction: undisturbed, a caller that finds the database full but a reserve
  permit free, and whose request the arbiter grants, leaves with a reserve permit after four steps;
  no eviction is counted whatever the eviction source would have answered.
\<close>

theorem acquire_reserve_first:
  assumes "semaphore_laws S" and "ledger S c (max_db_connections (coord_config c)) r g"
    and "r + g < reserve_pool_size (coord_config c)"
    and "in_answer i4 = Some (Some ())"
  shows "acquire_run S db user [(id, i1), (id, i2), (id, i3), (id, i4)] (c, PhaseA) =
     (c\<lparr>total_connections := total_connections c + 1, reserve_in_use := reserve_in_use c + 1,
        reserve_acquisitions_total := reserve_acquisitions_total c + 1\<rparr>,
      Done (Inr \<lparr>is_reserve = True\<rparr>))"
proof -
  have "try_acquire S c = None"
    using ledger_try_acquire_None [OF assms(1,2)] by simp
  moreover have "0 < sem_available S (reserve_semaphore c)"
    using assms(2,3) by (simp add: ledger_def)
  ultimately show ?thesis
    using assms(3,4)
    by (simp add: attempt_def await_grant_def claim_grant_def into_permit_def atomics)
qed

theorem acquire_reserve_first_witness:
  "snd (acquire_run counting_semaphore ''db'' ''u''
     [(id, quiet_input 0), (id, quiet_input 0), (id, quiet_input 0),
      (id, (quiet_input 0)\<lparr>in_evicted := True, in_answer := Some (Some ())\<rparr>)]
     (full_coordinator, PhaseA)) = Done (Inr \<lparr>is_reserve = True\<rparr>)"
  by (subst acquire_reserve_first [where r = 0 and g = 0])
    (simp_all add: small_config_def flip: One_nat_def)

text \<open>
  C28. The reserve arbiter serves by priority and hands out exactly the permits it takes: every
  grant goes to a live request that scores at least as high as every request it leaves waiting, the
  reserve semaphore drops by the number of grants, nothing else in the coordinator changes, and
  requests are left waiting only when no reserve permit could be taken.
\<close>

theorem arbiter_round_priority:
  assumes "semaphore_laws S" and "arbiter_round S closed arrived c pending = (gs, c', left)"
  shows "(\<forall>g \<in> set gs. g \<in> set (pending @ arrived) \<and> \<not> closed (rq_id g)
            \<and> (\<forall>q \<in> set left. rq_score q \<le> rq_score g))
    \<and> sem_available S (reserve_semaphore c) = sem_available S (reserve_semaphore c') + length gs
    \<and> (\<exists>s. c' = c\<lparr>reserve_semaphore := s\<rparr>)
    \<and> (left \<noteq> [] \<longrightarrow> take_reserve S c' = None)"
proof -
  obtain rest where g: "arbiter_grant S closed (length (pending @ arrived)) c (pending @ arrived)
      = (gs, c', rest)" and left: "left = arbiter_prune closed (coord_config c') rest"
    using assms(2) by (auto simp: arbiter_round_def Let_def split: prod.splits)
  have post: "grant_post S closed c (pending @ arrived) gs c' rest"
    using arbiter_grant_post [OF assms(1) _ g] by simp
  have sub: "set left \<subseteq> set rest"
    using arbiter_prune_subset left by fastforce
  show ?thesis
    using post sub grant_post_sets(1) [OF post] unfolding grant_post_def by auto
qed

definition three_requests :: "reserve_request list" where
  "three_requests =
     [\<lparr>rq_id = 1, rq_user = ''a'', rq_score = request_score False 9\<rparr>,
      \<lparr>rq_id = 2, rq_user = ''b'', rq_score = request_score True 0\<rparr>,
      \<lparr>rq_id = 3, rq_user = ''c'', rq_score = request_score False 2\<rparr>]"

lemma three_requests_round:
  "arbiter_round counting_semaphore (\<lambda>n. n = 3) three_requests full_coordinator [] =
     ([three_requests ! 1], full_coordinator\<lparr>reserve_semaphore := (0, False)\<rparr>,
      [three_requests ! 0])"
  by (simp add: arbiter_round_def three_requests_def request_score_def numeral_eq_Suc
      take_reserve_def heap_pop_def arbiter_prune_def heap_cap_def)

theorem arbiter_round_priority_witness:
  "rq_score (three_requests ! 0) \<le> rq_score (three_requests ! 1)
   \<and> take_reserve counting_semaphore
       (full_coordinator\<lparr>reserve_semaphore := (0, False)\<rparr>) = None"
  using arbiter_round_priority [OF counting_semaphore_laws three_requests_round] by simp

text \<open>
  C37. The arbiter's queue is bounded and loses nothing that matters: after a round at most
  \<open>max reserve_pool_size 1 * 4\<close> requests wait, all of them live; a live request that was neither
  granted nor kept was dropped because the queue is full of requests that score at least as high.
\<close>

theorem arbiter_round_bounded:
  assumes "semaphore_laws S" and "arbiter_round S closed arrived c pending = (gs, c', left)"
  shows "length left \<le> max (reserve_pool_size (coord_config c)) 1 * 4
    \<and> (\<forall>q \<in> set left. q \<in> set (pending @ arrived) \<and> \<not> closed (rq_id q))
    \<and> (\<forall>q \<in> set (pending @ arrived). closed (rq_id q) \<or> q \<in> set gs \<or> q \<in> set left
         \<or> (length left = max (reserve_pool_size (coord_config c)) 1 * 4
             \<and> (\<forall>k \<in> set left. rq_score q \<le> rq_score k)))"
proof -
  obtain rest where g: "arbiter_grant S closed (length (pending @ arrived)) c (pending @ arrived)
      = (gs, c', rest)" and left: "left = arbiter_prune closed (coord_config c') rest"
    using assms(2) by (auto simp: arbiter_round_def Let_def split: prod.splits)
  have post: "grant_post S closed c (pending @ arrived) gs c' rest"
    using arbiter_grant_post [OF assms(1) _ g] by simp
  have cap: "heap_cap (coord_config c') = max (reserve_pool_size (coord_config c)) 1 * 4"
    by (simp add: heap_cap_def grant_post_sets(4) [OF post])
  have "closed (rq_id q) \<or> q \<in> set gs \<or> q \<in> set left
      \<or> (length left = max (reserve_pool_size (coord_config c)) 1 * 4
          \<and> (\<forall>k \<in> set left. rq_score q \<le> rq_score k))"
    if "q \<in> set (pending @ arrived)" for q
    using grant_post_sets(3) [OF post that] cap left
      arbiter_prune_keeps [of q rest closed "coord_config c'"] by auto
  then show ?thesis
    using arbiter_prune_bound [of closed "coord_config c'" rest] cap left
      arbiter_prune_subset [of closed "coord_config c'" rest] grant_post_sets(2) [OF post]
    by auto
qed

theorem arbiter_round_bounded_witness:
  "length [three_requests ! 0] \<le> 4"
  using arbiter_round_bounded [OF counting_semaphore_laws three_requests_round]
  by (simp add: small_config_def)

end
