(* ===== verification/Coordinator_Steps.thy ===== *)
theory Coordinator_Steps
  imports Coordinator
begin

text \<open>
  Interleavings of the coordinator's operations (\<^verbatim>\<open>src/src/pool/pool_coordinator.rs\<close>).

  Tasks of many clients run \<^verbatim>\<open>try_acquire\<close>, the permit destructor, the arbiter, the grant claim and
  the reserve upgrade at the same time; only the single semaphore operation or atomic addition is
  indivisible. \<open>coord_step\<close> is that interleaving: each rule is one atomic access of one task, taken
  from the definitions of theory \<open>Coordinator\<close>, and the counters of \<open>coord_sys\<close> say how many tasks
  stand between two accesses of which operation. The invariant relates the semaphores and gauges
  to those counters in every reachable state.
\<close>

record 's coord_sys =
  co :: "'s coordinator"
  taking :: nat
  n_main :: nat
  n_res :: nat
  drop_gauge :: nat
  drop_total :: nat
  grants :: nat
  claim1 :: nat
  claim2 :: nat
  up1 :: nat
  up2 :: nat

definition coord_init :: "'s semaphore_ops \<Rightarrow> string \<Rightarrow> coordinator_config \<Rightarrow> 's coord_sys" where
  "coord_init S db cfg = \<lparr>co = new_coordinator S db cfg, taking = 0, n_main = 0, n_res = 0,
     drop_gauge = 0, drop_total = 0, grants = 0, claim1 = 0, claim2 = 0, up1 = 0, up2 = 0\<rparr>"

inductive coord_step :: "'s semaphore_ops \<Rightarrow> 's coord_sys \<Rightarrow> 's coord_sys \<Rightarrow> bool"
  for S :: "'s semaphore_ops" where
  acquire_take:
    "take_main S (co s) = Some c \<Longrightarrow>
     coord_step S s (s\<lparr>co := c, taking := taking s + 1\<rparr>)"
| acquire_count:
    "taking s = Suc n \<Longrightarrow>
     coord_step S s (s\<lparr>co := inc_total (co s), taking := n, n_main := n_main s + 1\<rparr>)"
| drop_main_release:
    "n_main s = Suc n \<Longrightarrow>
     coord_step S s (s\<lparr>co := release_main S (co s), n_main := n, drop_total := drop_total s + 1\<rparr>)"
| drop_reserve_release:
    "n_res s = Suc n \<Longrightarrow>
     coord_step S s (s\<lparr>co := release_reserve S (co s), n_res := n, drop_gauge := drop_gauge s + 1\<rparr>)"
| drop_reserve_gauge:
    "drop_gauge s = Suc n \<Longrightarrow>
     coord_step S s (s\<lparr>co := dec_reserve_in_use (co s), drop_gauge := n,
       drop_total := drop_total s + 1\<rparr>)"
| drop_count:
    "drop_total s = Suc n \<Longrightarrow>
     coord_step S s (s\<lparr>co := dec_total (co s), drop_total := n\<rparr>)"
| arbiter_take:
    "take_reserve S (co s) = Some c \<Longrightarrow>
     coord_step S s (s\<lparr>co := c, grants := grants s + 1\<rparr>)"
| grant_dropped:
    "grants s = Suc n \<Longrightarrow>
     coord_step S s (s\<lparr>co := drop_grant S (Some ()) (co s), grants := n\<rparr>)"
| claim_total:
    "grants s = Suc n \<Longrightarrow>
     coord_step S s (s\<lparr>co := inc_total (co s), grants := n, claim1 := claim1 s + 1\<rparr>)"
| claim_gauge:
    "claim1 s = Suc n \<Longrightarrow>
     coord_step S s (s\<lparr>co := inc_reserve_in_use (co s), claim1 := n, claim2 := claim2 s + 1\<rparr>)"
| claim_count:
    "claim2 s = Suc n \<Longrightarrow>
     coord_step S s (s\<lparr>co := count_reserve_acquisition (co s), claim2 := n, n_res := n_res s + 1\<rparr>)"
| upgrade_take:
    "n_res s = Suc n \<Longrightarrow> take_main S (co s) = Some c \<Longrightarrow>
     coord_step S s (s\<lparr>co := c, n_res := n, up1 := up1 s + 1\<rparr>)"
| upgrade_release:
    "up1 s = Suc n \<Longrightarrow>
     coord_step S s (s\<lparr>co := release_reserve S (co s), up1 := n, up2 := up2 s + 1\<rparr>)"
| upgrade_gauge:
    "up2 s = Suc n \<Longrightarrow>
     coord_step S s (s\<lparr>co := dec_reserve_in_use (co s), up2 := n, n_main := n_main s + 1\<rparr>)"
| eviction_counted:
    "coord_step S s (s\<lparr>co := count_eviction (co s)\<rparr>)"
| exhaustion_counted:
    "coord_step S s (s\<lparr>co := count_exhaustion (co s)\<rparr>)"

abbreviation coord_steps :: "'s semaphore_ops \<Rightarrow> 's coord_sys \<Rightarrow> 's coord_sys \<Rightarrow> bool" where
  "coord_steps S \<equiv> (coord_step S)\<^sup>*\<^sup>*"

definition coord_inv :: "'s semaphore_ops \<Rightarrow> coordinator_config \<Rightarrow> 's coord_sys \<Rightarrow> bool" where
  "coord_inv S cfg s \<longleftrightarrow>
     coord_config (co s) = cfg \<and>
     \<not> sem_is_closed S (db_semaphore (co s)) \<and>
     \<not> sem_is_closed S (reserve_semaphore (co s)) \<and>
     sem_available S (db_semaphore (co s)) + taking s + n_main s + up1 s + up2 s
       = max_db_connections cfg \<and>
     sem_available S (reserve_semaphore (co s)) + grants s + claim1 s + claim2 s + n_res s + up1 s
       = reserve_pool_size cfg \<and>
     total_connections (co s) = of_nat (n_main s + n_res s + drop_gauge s + drop_total s
       + claim1 s + claim2 s + up1 s + up2 s) \<and>
     reserve_in_use (co s) = of_nat (n_res s + drop_gauge s + claim2 s + up1 s + up2 s)"

section \<open>The invariant\<close>

lemma coord_inv_init: "semaphore_laws S \<Longrightarrow> coord_inv S cfg (coord_init S db cfg)"
  by (simp add: coord_inv_def coord_init_def new_coordinator_def)

lemma coord_inv_take_main:
  assumes "semaphore_laws S" and "coord_inv S cfg s" and "take_main S (co s) = Some c"
  shows "coord_inv S cfg (s\<lparr>co := c, taking := taking s + 1\<rparr>)"
    and "n_res s = Suc n \<Longrightarrow> coord_inv S cfg (s\<lparr>co := c, n_res := n, up1 := up1 s + 1\<rparr>)"
proof -
  note f = take_main_Some [OF assms(1,3)]
  show "coord_inv S cfg (s\<lparr>co := c, taking := taking s + 1\<rparr>)"
    using assms(2) f(1,2) by (subst f(3)) (simp add: coord_inv_def)
  show "coord_inv S cfg (s\<lparr>co := c, n_res := n, up1 := up1 s + 1\<rparr>)" if "n_res s = Suc n"
    using assms(2) f(1,2) that by (subst f(3)) (simp add: coord_inv_def algebra_simps)
qed

lemma coord_inv_take_reserve:
  assumes "semaphore_laws S" and "coord_inv S cfg s" and "take_reserve S (co s) = Some c"
  shows "coord_inv S cfg (s\<lparr>co := c, grants := grants s + 1\<rparr>)"
proof -
  note f = take_reserve_Some [OF assms(1,3)]
  show ?thesis
    using assms(2) f(1,2) by (subst f(3)) (simp add: coord_inv_def)
qed

lemma coord_inv_step:
  assumes "coord_step S s s'" and "semaphore_laws S" and "coord_inv S cfg s"
  shows "coord_inv S cfg s'"
  using assms(1)
proof cases
  case (acquire_take c)
  then show ?thesis using coord_inv_take_main(1) [OF assms(2,3)] by simp
next
  case (upgrade_take n c)
  then show ?thesis using coord_inv_take_main(2) [OF assms(2,3)] by simp
next
  case (arbiter_take c)
  then show ?thesis using coord_inv_take_reserve [OF assms(2,3)] by simp
qed (use assms(2,3) in
    \<open>simp_all add: coord_inv_def atomics drop_grant_def algebra_simps\<close>)

lemma coord_inv_reachable:
  assumes "coord_steps S (coord_init S db cfg) s" and "semaphore_laws S"
  shows "coord_inv S cfg s"
  using assms(1)
  by induction (auto intro: coord_inv_init coord_inv_step assms(2))

section \<open>Properties\<close>

text \<open>
  C3. The database limit holds under every interleaving: the main permits in use, counting those
  an acquisition or an upgrade has already taken from the semaphore, never exceed
  \<^verbatim>\<open>max_db_connections\<close>, the reserve permits never exceed \<^verbatim>\<open>reserve_pool_size\<close>, and a main permit can
  be taken exactly while the limit is not reached.
\<close>

theorem coordinator_limits:
  assumes "semaphore_laws S" and "coord_steps S (coord_init S db cfg) s"
  shows "taking s + n_main s + up1 s + up2 s \<le> max_db_connections cfg
    \<and> grants s + claim1 s + claim2 s + n_res s + up1 s \<le> reserve_pool_size cfg
    \<and> n_main s + n_res s \<le> max_db_connections cfg + reserve_pool_size cfg
    \<and> (take_main S (co s) = None
         \<longleftrightarrow> taking s + n_main s + up1 s + up2 s = max_db_connections cfg)"
proof -
  note inv = coord_inv_reachable [OF assms(2,1), unfolded coord_inv_def]
  have "take_main S (co s) = None \<longleftrightarrow> sem_available S (db_semaphore (co s)) = 0"
    using take_None_iff(1) [OF assms(1), of "co s"] inv by blast
  then show ?thesis
    using inv by linarith
qed

text \<open>A run used in the examples: one client takes the only main permit.\<close>

definition one_taken :: "(nat \<times> bool) coord_sys" where
  "one_taken = (coord_init counting_semaphore ''db'' small_config)
     \<lparr>co := full_coordinator, n_main := 1\<rparr>"

lemma one_taken_reachable:
  "coord_steps counting_semaphore (coord_init counting_semaphore ''db'' small_config) one_taken"
proof -
  let ?s0 = "coord_init counting_semaphore ''db'' small_config"
  let ?c1 = "(co ?s0)\<lparr>db_semaphore := (0, False)\<rparr>"
  let ?s1 = "?s0\<lparr>co := ?c1, taking := taking ?s0 + 1\<rparr>"
  have "take_main counting_semaphore (co ?s0) = Some ?c1"
    by (simp add: take_main_def coord_init_def new_coordinator_def small_config_def)
  then have "coord_step counting_semaphore ?s0 ?s1"
    by (rule acquire_take)
  moreover have "coord_step counting_semaphore ?s1 one_taken"
    using acquire_count [of ?s1 0 counting_semaphore]
    by (simp add: coord_init_def one_taken_def full_coordinator_def try_acquire_def take_main_def
        new_coordinator_def small_config_def)
  ultimately show ?thesis by (blast intro: rtranclp.rtrancl_into_rtrancl)
qed

theorem coordinator_limits_witness:
  "take_main counting_semaphore (co one_taken) = None"
  using coordinator_limits [OF counting_semaphore_laws one_taken_reachable]
  by (simp add: one_taken_def coord_init_def small_config_def)

text \<open>
  C16. The gauges are exact when nothing is in flight, and never wrap: in a reachable state with no
  task between two accesses, \<^verbatim>\<open>total_connections\<close> is the number of permits held and
  \<^verbatim>\<open>reserve_in_use\<close> the number of reserve permits; and while fewer than \<open>2^64\<close> permits exist, a
  gauge about to be decremented is positive.
\<close>

theorem coordinator_gauges:
  assumes "semaphore_laws S" and "coord_steps S (coord_init S db cfg) s"
    and "n_main s + n_res s + drop_gauge s + drop_total s + claim1 s + claim2 s + up1 s + up2 s
           < 2 ^ 64"
  shows "(taking s + drop_gauge s + drop_total s + grants s + claim1 s + claim2 s + up1 s + up2 s = 0
           \<longrightarrow> unat (total_connections (co s)) = n_main s + n_res s
             \<and> unat (reserve_in_use (co s)) = n_res s)
    \<and> (0 < drop_total s \<longrightarrow> 0 < total_connections (co s))
    \<and> (0 < drop_gauge s + up2 s \<longrightarrow> 0 < reserve_in_use (co s))"
proof -
  note inv = coord_inv_reachable [OF assms(2,1), unfolded coord_inv_def]
  have "unat (total_connections (co s)) =
      n_main s + n_res s + drop_gauge s + drop_total s + claim1 s + claim2 s + up1 s + up2 s"
    using inv assms(3) by (intro unat_of_nat_small) linarith+
  moreover have "unat (reserve_in_use (co s)) = n_res s + drop_gauge s + claim2 s + up1 s + up2 s"
    using inv assms(3) by (intro unat_of_nat_small) linarith+
  ultimately show ?thesis
    by (auto simp: word_less_nat_alt)
qed

theorem coordinator_gauges_witness:
  "unat (total_connections (co one_taken)) = 1 \<and> unat (reserve_in_use (co one_taken)) = 0"
  using coordinator_gauges [OF counting_semaphore_laws one_taken_reachable]
  by (simp add: one_taken_def coord_init_def)

end
