(* ===== verification/Pool_Inner.thy ===== *)
theory Pool_Inner
  imports Coordinator
begin

text \<open>
  The server connection pool of one user, \<^verbatim>\<open>src/src/pool/inner.rs\<close>, with the types of
  \<^verbatim>\<open>src/src/pool/types.rs\<close> and \<^verbatim>\<open>src/src/pool/errors.rs\<close>: the operations that run under the slots
  lock. The theory \<open>Pool_Checkout\<close> adds the checkout program that calls them.

  Time is a number of milliseconds; the functions that read the clock take the current time.
  Sizes are natural numbers and \<^verbatim>\<open>-=\<close> on a \<^verbatim>\<open>usize\<close> wraps as in a release build (\<open>usub\<close>). A direct
  hand-off channel (\<^verbatim>\<open>oneshot\<close>) is a record with its message slot; it exists while its receiver does.
\<close>

section \<open>Data\<close>

datatype queue_mode = Fifo | Lifo

datatype timeout_type = WaitTimeout | CreateTimeout | RecycleTimeout

datatype pool_error =
    PoolTimeout timeout_type
  | PoolBackend
  | PoolClosed
  | PoolDbLimitExhausted no_connection_info

text \<open>What the pool sees of a \<^verbatim>\<open>Server\<close>; \<open>srv_id\<close> identifies the physical connection.\<close>

record server =
  srv_id :: nat
  srv_bad :: bool
  srv_pending_large_message :: bool
  srv_override_lifetime_ms :: "u64 option"

record metrics =
  created :: nat
  recycled :: "nat option"
  recycle_count :: nat
  lifetime_ms :: u64
  idle_timeout_ms :: u64
  epoch :: u32

record object_inner =
  obj :: server
  obj_metrics :: metrics
  obj_permit :: "coordinator_permit option"

record channel =
  ch_id :: nat
  ch_late :: bool
  ch_msg :: "object_inner option"

record slots =
  slots_vec :: "object_inner list"
  slots_waiters :: "nat list"
  slots_size :: nat
  slots_max_size :: nat

record pool_status =
  ps_max_size :: nat
  ps_size :: nat
  ps_available :: nat
  ps_waiting :: nat

abbreviation oid :: "object_inner \<Rightarrow> nat" where
  "oid o1 \<equiv> srv_id (obj o1)"

text \<open>Subtraction on \<^verbatim>\<open>usize\<close>, wrapping.\<close>

definition usub :: "nat \<Rightarrow> nat \<Rightarrow> nat" where
  "usub a b = (if b \<le> a then a - b else a + 2 ^ 64 - b)"

section \<open>Metrics\<close>

definition age :: "nat \<Rightarrow> metrics \<Rightarrow> nat" where
  "age now m = now - created m"

definition last_used :: "nat \<Rightarrow> metrics \<Rightarrow> nat" where
  "last_used now m = now - (case recycled m of Some t \<Rightarrow> t | None \<Rightarrow> created m)"

text \<open>
  \<^verbatim>\<open>apply_jitter\<close>: the random offset is an argument. The source draws it from plus or minus one fifth
  of the base (computed in floating point).
\<close>

definition apply_jitter :: "int \<Rightarrow> u64 \<Rightarrow> u64" where
  "apply_jitter offset base_ms =
     (if base_ms > 0 then word_of_int (max 1 (sint base_ms + offset)) else 0)"

definition new_metrics :: "nat \<Rightarrow> int \<Rightarrow> int \<Rightarrow> u64 \<Rightarrow> u64 \<Rightarrow> u32 \<Rightarrow> metrics" where
  "new_metrics now off1 off2 base_lifetime_ms base_idle_timeout_ms ep = \<lparr>
     created = now,
     recycled = None,
     recycle_count = 0,
     lifetime_ms = apply_jitter off1 base_lifetime_ms,
     idle_timeout_ms = apply_jitter off2 base_idle_timeout_ms,
     epoch = ep \<rparr>"

definition new_object_inner ::
  "nat \<Rightarrow> int \<Rightarrow> int \<Rightarrow> u64 \<Rightarrow> u64 \<Rightarrow> u32 \<Rightarrow> server \<Rightarrow> coordinator_permit option \<Rightarrow> object_inner" where
  "new_object_inner now off1 off2 pool_lifetime_ms pool_idle_ms current_epoch srv permit = \<lparr>
     obj = srv,
     obj_metrics = new_metrics now off1 off2
       (case srv_override_lifetime_ms srv of Some l \<Rightarrow> l | None \<Rightarrow> pool_lifetime_ms)
       pool_idle_ms current_epoch,
     obj_permit = permit \<rparr>"

section \<open>Waiting budgets\<close>

definition saturating_mul :: "u64 \<Rightarrow> nat \<Rightarrow> nat" where
  "saturating_mul w k = min (unat w * k) (2 ^ 64 - 1)"

definition anticipation_base_ms :: "u64 \<Rightarrow> nat" where
  "anticipation_base_ms xact_p99_us =
     (if xact_p99_us = 0 then 100 else saturating_mul xact_p99_us 2 div 1000)"

definition jitter_range :: "nat \<Rightarrow> nat" where
  "jitter_range base_ms = max (base_ms div 5) 1"

definition clamp :: "nat \<Rightarrow> nat \<Rightarrow> nat \<Rightarrow> nat" where
  "clamp lo hi x = (if x < lo then lo else if x > hi then hi else x)"

text \<open>\<open>jitter\<close> is the random draw from \<^verbatim>\<open>0..=jitter_range * 2\<close>.\<close>

definition burst_gate_budget :: "nat \<Rightarrow> u64 \<Rightarrow> nat" where
  "burst_gate_budget jitter xact_p99_us =
     (let base_ms = anticipation_base_ms xact_p99_us
      in clamp 20 500 (base_ms - jitter_range base_ms + jitter))"

text \<open>The total and the effective anticipation budget of \<^verbatim>\<open>try_anticipate\<close>.\<close>

definition anticipation_total_ms :: "nat option \<Rightarrow> nat \<Rightarrow> nat" where
  "anticipation_total_ms wait elapsed =
     (case wait of Some w \<Rightarrow> w - elapsed - 500 | None \<Rightarrow> 100)"

definition anticipation_budget :: "nat option \<Rightarrow> nat \<Rightarrow> nat \<Rightarrow> u64 \<Rightarrow> nat" where
  "anticipation_budget wait elapsed jitter xact_p99_us =
     (let base_ms = anticipation_base_ms xact_p99_us;
          cap_ms = clamp 5 500 (base_ms - jitter_range base_ms + jitter)
      in min (anticipation_total_ms wait elapsed) cap_ms)"

section \<open>The slots\<close>

definition push_idle :: "queue_mode \<Rightarrow> object_inner list \<Rightarrow> object_inner \<Rightarrow> object_inner list" where
  "push_idle mode vec inner = (case mode of Fifo \<Rightarrow> vec @ [inner] | Lifo \<Rightarrow> inner # vec)"

text \<open>A \<^verbatim>\<open>send\<close> succeeds while the receiver exists and nothing was sent before.\<close>

definition receiver_open :: "nat \<Rightarrow> channel list \<Rightarrow> bool" where
  "receiver_open w chs \<longleftrightarrow> (\<exists>c \<in> set chs. ch_id c = w \<and> ch_msg c = None)"

definition deliver :: "nat \<Rightarrow> object_inner \<Rightarrow> channel list \<Rightarrow> channel list" where
  "deliver w inner = map (\<lambda>c. if ch_id c = w then c\<lparr>ch_msg := Some inner\<rparr> else c)"

text \<open>
  The hand-off loop of \<^verbatim>\<open>return_object\<close>: waiters are popped until one accepts the connection.
  Result: whether it was handed off, the remaining waiters, the channels.
\<close>

fun handoff ::
  "nat list \<Rightarrow> object_inner \<Rightarrow> channel list \<Rightarrow> bool \<times> nat list \<times> channel list" where
  "handoff [] inner chs = (False, [], chs)"
| "handoff (w # ws) inner chs =
     (if receiver_open w chs then (True, ws, deliver w inner chs) else handoff ws inner chs)"

definition return_object ::
  "queue_mode \<Rightarrow> object_inner \<Rightarrow> slots \<Rightarrow> channel list \<Rightarrow> slots \<times> channel list" where
  "return_object mode inner sl chs =
     (case handoff (slots_waiters sl) inner chs of
        (True, ws, chs') \<Rightarrow> (sl\<lparr>slots_waiters := ws\<rparr>, chs')
      | (False, ws, chs') \<Rightarrow>
          (sl\<lparr>slots_waiters := ws, slots_vec := push_idle mode (slots_vec sl) inner\<rparr>, chs'))"

definition must_evict :: "server \<Rightarrow> bool" where
  "must_evict s \<longleftrightarrow> srv_bad s \<or> srv_pending_large_message s"

text \<open>
  \<^verbatim>\<open>impl Drop for Object\<close>: a broken connection is destroyed and its slot freed, any other is returned.
  Either way the semaphore gets the client's permit back; the last component is the destroyed
  connection.
\<close>

definition drop_object ::
  "'s semaphore_ops \<Rightarrow> queue_mode \<Rightarrow> nat \<Rightarrow> object_inner \<Rightarrow> slots \<Rightarrow> channel list \<Rightarrow> 's
     \<Rightarrow> slots \<times> channel list \<times> 's \<times> object_inner option" where
  "drop_object S mode now inner sl chs sem =
     (if must_evict (obj inner)
      then (sl\<lparr>slots_size := slots_size sl - 1\<rparr>, chs, sem_add_permits S 1 sem, Some inner)
      else (let m = obj_metrics inner;
                inner' = inner\<lparr>obj_metrics :=
                  m\<lparr>recycled := Some now, recycle_count := recycle_count m + 1\<rparr>\<rparr>;
                (sl', chs') = return_object mode inner' sl chs
            in (sl', chs', sem_add_permits S 1 sem, None)))"

text \<open>Destroying connections releases the coordinator permits they hold.\<close>

definition drop_permit_opt ::
  "'s semaphore_ops \<Rightarrow> coordinator_permit option \<Rightarrow> 's coordinator option \<Rightarrow> 's coordinator option" where
  "drop_permit_opt S p c =
     (case p of None \<Rightarrow> c | Some q \<Rightarrow> map_option (drop_permit S q) c)"

definition drop_objects ::
  "'s semaphore_ops \<Rightarrow> object_inner list \<Rightarrow> 's coordinator option \<Rightarrow> 's coordinator option" where
  "drop_objects S objs c = fold (\<lambda>inner. drop_permit_opt S (obj_permit inner)) objs c"

section \<open>Maintenance\<close>

text \<open>
  \<^verbatim>\<open>retain\<close> and the unlimited branch of \<^verbatim>\<open>retain_oldest_first\<close> split the idle connections by a
  predicate. Every function below returns the destroyed connections and the new slots.
\<close>

definition evict_where ::
  "(object_inner \<Rightarrow> bool) \<Rightarrow> slots \<Rightarrow> object_inner list \<times> slots" where
  "evict_where close sl =
     (if \<forall>x \<in> set (slots_vec sl). \<not> close x then ([], sl)
      else (let evicted = filter close (slots_vec sl);
                keep = filter (\<lambda>x. \<not> close x) (slots_vec sl)
            in (evicted, sl\<lparr>slots_vec := keep,
                            slots_size := usub (slots_size sl) (length evicted)\<rparr>)))"

definition retain :: "(server \<Rightarrow> metrics \<Rightarrow> bool) \<Rightarrow> slots \<Rightarrow> object_inner list \<times> slots" where
  "retain f sl = evict_where (\<lambda>x. \<not> f (obj x) (obj_metrics x)) sl"

text \<open>The indices to close: the candidates sorted by decreasing age (stable), the first \<open>n\<close> of them.\<close>

definition oldest_indices ::
  "(object_inner \<Rightarrow> bool) \<Rightarrow> nat \<Rightarrow> nat \<Rightarrow> object_inner list \<Rightarrow> nat list" where
  "oldest_indices close now n vec =
     (let candidates = map (\<lambda>(idx, x). (idx, age now (obj_metrics x)))
            (filter (\<lambda>(_, x). close x) (enumerate 0 vec))
      in map fst (take n (sort_key (\<lambda>(_, a). - int a) candidates)))"

definition retain_oldest_first ::
  "(server \<Rightarrow> metrics \<Rightarrow> bool) \<Rightarrow> nat \<Rightarrow> nat \<Rightarrow> slots \<Rightarrow> object_inner list \<times> slots" where
  "retain_oldest_first should_close now max_to_close sl =
     (let close = (\<lambda>x. should_close (obj x) (obj_metrics x))
      in if max_to_close = 0 then evict_where close sl
         else if \<forall>x \<in> set (slots_vec sl). \<not> close x then ([], sl)
         else (let to_close = oldest_indices close now max_to_close (slots_vec sl);
                   evicted = map snd (filter (\<lambda>(idx, _). idx \<in> set to_close)
                     (enumerate 0 (slots_vec sl)));
                   keep = map snd (filter (\<lambda>(idx, _). idx \<notin> set to_close)
                     (enumerate 0 (slots_vec sl)))
               in (evicted, sl\<lparr>slots_vec := keep,
                     slots_size := usub (slots_size sl) (length evicted)\<rparr>)))"

definition evict_one_idle :: "nat \<Rightarrow> u64 \<Rightarrow> slots \<Rightarrow> object_inner list \<times> slots" where
  "evict_one_idle now min_lifetime_ms sl =
     retain_oldest_first (\<lambda>_ m. unat min_lifetime_ms \<le> age now m) now 1 sl"

definition holds_reserve :: "object_inner \<Rightarrow> bool" where
  "holds_reserve inner = (case obj_permit inner of Some p \<Rightarrow> is_reserve p | None \<Rightarrow> False)"

definition close_idle_reserve_connections ::
  "nat \<Rightarrow> u64 \<Rightarrow> slots \<Rightarrow> object_inner list \<times> slots" where
  "close_idle_reserve_connections now min_lifetime_ms sl =
     evict_where (\<lambda>x. holds_reserve x \<and> unat min_lifetime_ms \<le> last_used now (obj_metrics x)) sl"

text \<open>The loop of \<^verbatim>\<open>upgrade_reserve_to_main\<close>: it stops at the first refusal of the coordinator.\<close>

fun upgrade_loop ::
  "'s semaphore_ops \<Rightarrow> object_inner list \<Rightarrow> 's coordinator \<Rightarrow> nat \<times> object_inner list \<times> 's coordinator" where
  "upgrade_loop S [] c = (0, [], c)"
| "upgrade_loop S (x # xs) c =
     (if \<not> holds_reserve x
      then (let (n, ys, c') = upgrade_loop S xs c in (n, x # ys, c'))
      else (case try_upgrade_reserve_to_main S c of
          (True, c1) \<Rightarrow>
            (let (n, ys, c') = upgrade_loop S xs c1
             in (Suc n, x\<lparr>obj_permit := Some \<lparr>is_reserve = False\<rparr>\<rparr> # ys, c'))
        | (False, c1) \<Rightarrow> (0, x # xs, c1)))"

definition upgrade_reserve_to_main ::
  "'s semaphore_ops \<Rightarrow> slots \<Rightarrow> 's coordinator option \<Rightarrow> nat \<times> slots \<times> 's coordinator option" where
  "upgrade_reserve_to_main S sl c =
     (case c of
        None \<Rightarrow> (0, sl, None)
      | Some c1 \<Rightarrow>
          (let (n, vec, c2) = upgrade_loop S (slots_vec sl) c1
           in (n, sl\<lparr>slots_vec := vec\<rparr>, Some c2)))"

text \<open>
  \<^verbatim>\<open>resize\<close>. When shrinking, the permits obtained by \<^verbatim>\<open>try_acquire_many\<close> are bound to \<^verbatim>\<open>_\<close>, so the guard
  is dropped on the spot and returns them: the semaphore is left as it was.
\<close>

definition shrink_vec :: "nat \<Rightarrow> slots \<Rightarrow> object_inner list \<times> slots" where
  "shrink_vec max_size sl =
     (drop max_size (slots_vec sl),
      sl\<lparr>slots_vec := take max_size (slots_vec sl),
         slots_size := slots_size sl - (length (slots_vec sl) - max_size)\<rparr>)"

definition resize ::
  "'s semaphore_ops \<Rightarrow> nat \<Rightarrow> slots \<Rightarrow> 's \<Rightarrow> object_inner list \<times> slots \<times> 's" where
  "resize S max_size sl sem =
     (let old = slots_max_size sl;
          sl1 = sl\<lparr>slots_max_size := max_size\<rparr>;
          (gone, sl2) = (if max_size < old then shrink_vec max_size sl1 else ([], sl1));
          sem' = (if max_size > old then sem_add_permits S (max_size - old) sem else sem)
      in (gone, sl2, sem'))"

definition close_pool :: "'s semaphore_ops \<Rightarrow> slots \<Rightarrow> 's \<Rightarrow> object_inner list \<times> slots \<times> 's" where
  "close_pool S sl sem =
     (let (gone, sl', sem') = resize S 0 sl sem in (gone, sl', sem_close S sem'))"

definition status_of :: "nat \<Rightarrow> slots \<Rightarrow> pool_status" where
  "status_of users sl =
     (let (available, waiting) =
        (if users < slots_size sl then (slots_size sl - users, 0) else (0, users - slots_size sl))
      in \<lparr>ps_max_size = slots_max_size sl, ps_size = slots_size sl,
          ps_available = available, ps_waiting = waiting\<rparr>)"

section \<open>Bounded bursts and pre-replacement\<close>

text \<open>\<^verbatim>\<open>try_take_burst_slot\<close>: optimistic increment, rolled back when the cap was reached.\<close>

definition try_take_burst_slot :: "nat \<Rightarrow> nat \<Rightarrow> bool \<times> nat" where
  "try_take_burst_slot counter max_slots =
     (let prev = counter; counter' = counter + 1
      in if prev < max_slots then (True, counter') else (False, counter' - 1))"

text \<open>The checks of \<^verbatim>\<open>maybe_trigger_pre_replacement\<close>, up to the bounded counter.\<close>

definition pre_replacement_due :: "nat \<Rightarrow> metrics \<Rightarrow> bool" where
  "pre_replacement_due now m =
     (let age_ms = (of_nat (age now m) :: u64);
          threshold = lifetime_ms m * 95 div 100
      in \<not> lifetime_ms m < 60000 \<and> \<not> (age_ms < threshold \<or> age_ms \<ge> lifetime_ms m))"

definition pre_replacement_room :: "nat \<Rightarrow> slots \<Rightarrow> bool" where
  "pre_replacement_room in_flight sl =
     (let idle_pct = (if slots_size sl > 0
            then length (slots_vec sl) * 100 div slots_size sl else 100)
      in \<not> slots_size sl + in_flight > slots_max_size sl + 3 \<and> \<not> idle_pct \<ge> 25)"

definition maybe_trigger_pre_replacement ::
  "'s semaphore_ops \<Rightarrow> nat \<Rightarrow> bool \<Rightarrow> metrics \<Rightarrow> slots \<Rightarrow> 's \<Rightarrow> nat \<Rightarrow> bool \<times> nat" where
  "maybe_trigger_pre_replacement S now paused m sl sem in_flight =
     (if pre_replacement_due now m \<and> \<not> sem_available S sem = 0 \<and> \<not> paused
         \<and> pre_replacement_room in_flight sl
      then try_take_burst_slot in_flight 3
      else (False, in_flight))"

section \<open>Oldest connections first\<close>

lemma enumerate_nths: "map snd (filter (\<lambda>(k, _). k \<in> A) (enumerate 0 xs)) = nths xs A"
  by (induction xs rule: rev_induct) (simp_all add: enumerate_append_eq nths_append)

lemma enumerate_filter_index:
  "(i, x) \<in> set (filter (\<lambda>(_, x). close x) (enumerate 0 vec))
     \<longleftrightarrow> i < length vec \<and> vec ! i = x \<and> close x"
  by (auto simp: in_set_enumerate_eq)

lemma sorted_take_drop_le:
  assumes "x \<in> set (take n (sort_key f xs))" and "y \<in> set (drop n (sort_key f xs))"
  shows "f x \<le> f y"
proof -
  have "sorted (map f (take n (sort_key f xs) @ drop n (sort_key f xs)))"
    by simp
  then show ?thesis
    using assms unfolding map_append sorted_append by auto
qed

lemma length_filter_enumerate:
  "length (filter (\<lambda>(_, x). close x) (enumerate k vec)) = length (filter close vec)"
  by (induction vec arbitrary: k) auto

lemma mset_nths_Compl: "mset xs = mset (nths xs A) + mset (nths xs (- A))"
  by (induction xs rule: rev_induct) (auto simp: nths_append)

text \<open>The chosen indices: distinct, eligible, as many as allowed, and none older is left out.\<close>

lemma oldest_indices_spec:
  fixes vec close now n
  defines "idxs \<equiv> oldest_indices close now n vec"
  shows "distinct idxs"
    and "i \<in> set idxs \<Longrightarrow> i < length vec \<and> close (vec ! i)"
    and "length idxs = min n (length (filter close vec))"
    and "i \<in> set idxs \<Longrightarrow> j < length vec \<Longrightarrow> close (vec ! j) \<Longrightarrow> j \<notin> set idxs
           \<Longrightarrow> age now (obj_metrics (vec ! j)) \<le> age now (obj_metrics (vec ! i))"
proof -
  let ?el = "filter (\<lambda>(_, x). close x) (enumerate 0 vec)"
  let ?c = "map (\<lambda>(i, x). (i, age now (obj_metrics x))) ?el"
  let ?key = "\<lambda>(_ :: nat, a). - int a"
  let ?s = "sort_key ?key ?c"
  have idxs: "idxs = map fst (take n ?s)"
    by (simp add: idxs_def oldest_indices_def)
  have fst_c: "map fst ?c = map fst ?el"
    by (simp add: case_prod_unfold comp_def)
  have "distinct (map fst ?el)"
    by (rule distinct_map_filter) simp
  moreover have "mset (map fst ?s) = mset (map fst ?c)"
    by (simp only: mset_map mset_sort)
  ultimately have "distinct (map fst ?s)"
    using fst_c mset_eq_imp_distinct_iff by metis
  then show "distinct idxs"
    unfolding idxs by (metis distinct_take take_map)
  have elem: "i < length vec \<and> close (vec ! i) \<and> a = age now (obj_metrics (vec ! i))"
    if "(i, a) \<in> set ?s" for i a
    using that by (auto simp: in_set_enumerate_eq)
  have elem': "(i, age now (obj_metrics (vec ! i))) \<in> set ?s"
    if "i < length vec" "close (vec ! i)" for i
    using that by (force simp: in_set_enumerate_eq)
  show "i < length vec \<and> close (vec ! i)" if "i \<in> set idxs"
    using that elem unfolding idxs by (auto dest!: in_set_takeD)
  have "length ?el = length (filter close vec)"
    by (rule length_filter_enumerate)
  then show "length idxs = min n (length (filter close vec))"
    unfolding idxs by simp
  show "age now (obj_metrics (vec ! j)) \<le> age now (obj_metrics (vec ! i))"
    if i: "i \<in> set idxs" and j: "j < length vec" "close (vec ! j)" "j \<notin> set idxs"
  proof -
    obtain a where a: "(i, a) \<in> set (take n ?s)"
      using i unfolding idxs by auto
    have "(j, age now (obj_metrics (vec ! j))) \<in> set (take n ?s) \<union> set (drop n ?s)"
      using elem' [OF j(1,2)] by (metis append_take_drop_id set_append)
    moreover have "(j, age now (obj_metrics (vec ! j))) \<notin> set (take n ?s)"
      using j(3) unfolding idxs by force
    ultimately have "?key (i, a) \<le> ?key (j, age now (obj_metrics (vec ! j)))"
      using sorted_take_drop_le [OF a] by blast
    then show ?thesis
      using elem [of i a] in_set_takeD [OF a] by simp
  qed
qed

lemma retain_oldest_facts:
  assumes "0 < n" and "retain_oldest_first f now n sl = (evicted, sl')"
  shows "length evicted = min n (length (filter (\<lambda>x. f (obj x) (obj_metrics x)) (slots_vec sl)))
    \<and> (\<forall>e \<in> set evicted. f (obj e) (obj_metrics e))
    \<and> (\<forall>e \<in> set evicted. \<forall>k \<in> set (slots_vec sl'). f (obj k) (obj_metrics k)
         \<longrightarrow> age now (obj_metrics k) \<le> age now (obj_metrics e))
    \<and> mset (slots_vec sl) = mset evicted + mset (slots_vec sl')
    \<and> (\<exists>A. evicted = nths (slots_vec sl) A \<and> slots_vec sl' = nths (slots_vec sl) (- A))"
proof -
  let ?vec = "slots_vec sl"
  let ?close = "\<lambda>x. f (obj x) (obj_metrics x)"
  let ?A = "set (oldest_indices ?close now n ?vec)"
  note sp = oldest_indices_spec [where vec = ?vec and close = ?close and now = now and n = n]
  have ev: "evicted = nths ?vec ?A" and keep: "slots_vec sl' = nths ?vec (- ?A)"
  proof -
    have none: "?A = {}" if "\<forall>x \<in> set ?vec. \<not> ?close x"
    proof (rule equals0I)
      fix i assume "i \<in> ?A"
      from sp(2) [OF this] that show False by (meson nth_mem)
    qed
    have "map snd (filter (\<lambda>(k, _). k \<notin> ?A) (enumerate 0 ?vec)) = nths ?vec (- ?A)"
      using enumerate_nths [of "- ?A" ?vec] by simp
    then show "evicted = nths ?vec ?A" and "slots_vec sl' = nths ?vec (- ?A)"
      using assms enumerate_nths [of ?A ?vec] none
      by (auto simp: retain_oldest_first_def Let_def split: if_splits)
  qed
  have "{i. i < length ?vec \<and> i \<in> ?A} = ?A"
    using sp(2) by auto
  then have "length evicted = card ?A"
    by (simp add: ev length_nths)
  then have len: "length evicted = min n (length (filter ?close ?vec))"
    using distinct_card [OF sp(1)] sp(3) by simp
  have part: "mset ?vec = mset evicted + mset (slots_vec sl')"
    unfolding ev keep by (simp add: mset_nths_Compl)
  have all: "?close e" if "e \<in> set evicted" for e
    using that sp(2) unfolding ev by (auto simp: set_nths)
  have "age now (obj_metrics k) \<le> age now (obj_metrics e)"
    if "e \<in> set evicted" "k \<in> set (slots_vec sl')" "?close k" for e k
    using that sp(4) unfolding ev keep by (auto simp: set_nths)
  then show ?thesis
    using len all part ev keep by blast
qed

text \<open>
  C29. Idle trimming closes the oldest eligible connections first and no more than it may: with a
  limit, exactly \<open>min limit (number of eligible)\<close> connections are closed, all of them eligible,
  every eligible one that is kept is no older than any that is closed, nothing is lost, and the
  order of the idle queue is kept.
\<close>

theorem retain_oldest_first_spec:
  assumes "0 < n" and "retain_oldest_first f now n sl = (evicted, sl')"
  shows "length evicted = min n (length (filter (\<lambda>x. f (obj x) (obj_metrics x)) (slots_vec sl)))
    \<and> (\<forall>e \<in> set evicted. f (obj e) (obj_metrics e))
    \<and> (\<forall>e \<in> set evicted. \<forall>k \<in> set (slots_vec sl'). f (obj k) (obj_metrics k)
         \<longrightarrow> age now (obj_metrics k) \<le> age now (obj_metrics e))
    \<and> mset (slots_vec sl) = mset evicted + mset (slots_vec sl')
    \<and> (\<exists>A. evicted = nths (slots_vec sl) A \<and> slots_vec sl' = nths (slots_vec sl) (- A))"
  using retain_oldest_facts [OF assms] .

text \<open>Example data: three idle connections created at times 30, 10 and 20.\<close>

definition idle_at :: "nat \<Rightarrow> nat \<Rightarrow> bool option \<Rightarrow> object_inner" where
  "idle_at n t res = \<lparr>obj = \<lparr>srv_id = n, srv_bad = False, srv_pending_large_message = False,
       srv_override_lifetime_ms = None\<rparr>,
     obj_metrics = new_metrics t 0 0 0 0 0,
     obj_permit = map_option (\<lambda>b. \<lparr>is_reserve = b\<rparr>) res\<rparr>"

definition three_idle :: slots where
  "three_idle = \<lparr>slots_vec = [idle_at 1 30 None, idle_at 2 10 (Some True), idle_at 3 20 (Some True)],
     slots_waiters = [], slots_size = 3, slots_max_size = 5\<rparr>"

theorem retain_oldest_first_spec_witness:
  "fst (retain_oldest_first (\<lambda>_ _. True) 100 1 three_idle) = [idle_at 2 10 (Some True)]
   \<and> list_all (\<lambda>k. age 100 (obj_metrics k) \<le> 90)
        (slots_vec (snd (retain_oldest_first (\<lambda>_ _. True) 100 1 three_idle)))"
proof -
  let ?r = "retain_oldest_first (\<lambda>_ _. True) 100 1 three_idle"
  have e: "fst ?r = [idle_at 2 10 (Some True)]" by code_simp
  have "age 100 (obj_metrics (idle_at 2 10 (Some True))) = 90" by code_simp
  moreover have r: "?r = (fst ?r, snd ?r)" by simp
  ultimately show ?thesis
    using retain_oldest_first_spec [OF zero_less_one r] e
    unfolding list_all_iff by (metis list.set_intros(1))
qed

section \<open>Coordinator permits of idle connections\<close>

definition mains :: "object_inner list \<Rightarrow> nat" where
  "mains xs = length (filter (\<lambda>x. obj_permit x \<noteq> None \<and> \<not> holds_reserve x) xs)"

definition reserves :: "object_inner list \<Rightarrow> nat" where
  "reserves xs = length (filter holds_reserve xs)"

lemma drop_objects_ledger:
  assumes "semaphore_laws S" and "ledger S c (m + mains xs) (r + reserves xs) g"
  shows "\<exists>c'. drop_objects S xs (Some c) = Some c' \<and> ledger S c' m r g"
  using assms(2)
proof (induction xs arbitrary: c)
  case Nil
  then show ?case by (simp add: drop_objects_def mains_def reserves_def)
next
  case (Cons x xs)
  have "\<exists>c1. drop_permit_opt S (obj_permit x) (Some c) = Some c1
      \<and> ledger S c1 (m + mains xs) (r + reserves xs) g"
    using Cons.prems ledger_drop_permit [OF assms(1), of "the (obj_permit x)" c]
    by (auto simp: drop_permit_opt_def mains_def reserves_def holds_reserve_def
        split: option.splits if_splits)
  then show ?case
    using Cons.IH by (auto simp: drop_objects_def)
qed

lemma upgrade_Some_iff:
  assumes "semaphore_laws S" and "ledger S c m r g"
  shows "fst (try_upgrade_reserve_to_main S c) \<longleftrightarrow> m < max_db_connections (coord_config c)"
    and "\<not> fst (try_upgrade_reserve_to_main S c) \<Longrightarrow> snd (try_upgrade_reserve_to_main S c) = c"
  using assms take_None_iff(1) [OF assms(1), of c]
  by (auto simp: try_upgrade_reserve_to_main_def ledger_def split: option.splits)

lemma upgrade_config:
  "coord_config (snd (try_upgrade_reserve_to_main S c)) = coord_config c"
  by (auto simp: try_upgrade_reserve_to_main_def take_main_def atomics split: option.splits)

lemma min_Suc_diff: "m < k \<Longrightarrow> Suc (min a (k - Suc m)) = min (Suc a) (k - m)"
  by (auto simp: min_def)

lemma upgrade_loop_books:
  assumes "semaphore_laws S" and "ledger S c m r g" and "reserves vec \<le> r"
    and "upgrade_loop S vec c = (n, vec', c')"
  shows "n = min (reserves vec) (max_db_connections (coord_config c) - m)
    \<and> ledger S c' (m + n) (r - n) g
    \<and> reserves vec' = reserves vec - n \<and> map obj vec' = map obj vec"
  using assms(2-4)
proof (induction vec arbitrary: c m r n vec')
  case Nil
  then show ?case by (simp add: reserves_def)
next
  case (Cons x xs)
  show ?case
  proof (cases "holds_reserve x")
    case False
    then show ?thesis
      using Cons.prems Cons.IH [of c m r] by (auto simp: reserves_def Let_def split: prod.splits)
  next
    case True
    note up = upgrade_Some_iff [OF assms(1) Cons.prems(1)]
    show ?thesis
    proof (cases "fst (try_upgrade_reserve_to_main S c)")
      case False
      then show ?thesis
        using up Cons.prems True by (auto simp: Let_def split: prod.splits bool.splits)
    next
      case ok: True
      obtain c1 where c1: "try_upgrade_reserve_to_main S c = (True, c1)"
        using ok by (cases "try_upgrade_reserve_to_main S c") auto
      obtain r' where r': "r = Suc r'"
        using Cons.prems(2) True by (cases r) (auto simp: reserves_def)
      have l1: "ledger S c1 (Suc m) r' g"
        using ledger_upgrade [OF assms(1) _ c1] Cons.prems(1) r' by simp
      obtain n1 ys where rec: "upgrade_loop S xs c1 = (n1, ys, c')" and n: "n = Suc n1"
        and vec': "vec' = x\<lparr>obj_permit := Some \<lparr>is_reserve = False\<rparr>\<rparr> # ys"
        using Cons.prems(3) True c1 by (auto simp: Let_def split: prod.splits)
      have cfg: "coord_config c1 = coord_config c" and m: "m < max_db_connections (coord_config c)"
        using upgrade_config [of S c] c1 ok up(1) by simp_all
      have ih: "n1 = min (reserves xs) (max_db_connections (coord_config c) - Suc m)
          \<and> ledger S c' (Suc m + n1) (r' - n1) g \<and> reserves ys = reserves xs - n1
          \<and> map obj ys = map obj xs"
      proof -
        have "reserves xs \<le> r'"
          using Cons.prems(2) r' True by (simp add: reserves_def)
        from Cons.IH [OF l1 this rec] show ?thesis
          unfolding cfg .
      qed
      then have eq: "n = min (reserves (x # xs)) (max_db_connections (coord_config c) - m)"
        using min_Suc_diff [OF m, of "reserves xs"] n True by (simp add: reserves_def)
      have "ledger S c' (m + n) (r - n) g"
        using conjunct1 [OF conjunct2 [OF ih]] n r' by simp
      moreover have "reserves vec' = reserves (x # xs) - n \<and> map obj vec' = map obj (x # xs)"
        using conjunct2 [OF conjunct2 [OF ih]] n vec' True
        by (simp add: reserves_def holds_reserve_def)
      ultimately show ?thesis
        using eq by blast
    qed
  qed
qed

text \<open>
  Upgrading idle reserve connections to main permits moves as many as possible and keeps the
  books: the number moved is the smaller of the idle reserve connections and the free main permits,
  each moves one unit from the reserve to the main side, and no connection is closed.
\<close>

theorem upgrade_loop_ledger:
  assumes "semaphore_laws S" and "ledger S c m r g" and "reserves vec \<le> r"
    and "upgrade_loop S vec c = (n, vec', c')"
  shows "n = min (reserves vec) (max_db_connections (coord_config c) - m)
    \<and> ledger S c' (m + n) (r - n) g
    \<and> reserves vec' = reserves vec - n \<and> map obj vec' = map obj vec"
  using upgrade_loop_books [OF assms] .

theorem upgrade_loop_ledger_witness:
  "fst (upgrade_loop counting_semaphore (slots_vec three_idle)
     (snd (claim_grant (Some (Some ())) (snd (claim_grant (Some (Some ()))
       \<lparr>coord_database = ''db'', db_semaphore = (1, False), reserve_semaphore = (0, False),
        total_connections = 0, reserve_in_use = 0,
        coord_config = \<lparr>max_db_connections = 1, min_connection_lifetime_ms = 0,
          reserve_pool_size = 2, reserve_pool_timeout_ms = 0\<rparr>,
        evictions_total = 0, reserve_acquisitions_total = 0, exhaustions_total = 0\<rparr>))))) = 1"
proof -
  let ?c = "snd (claim_grant (Some (Some ())) (snd (claim_grant (Some (Some ()))
       \<lparr>coord_database = ''db'', db_semaphore = (1, False), reserve_semaphore = (0, False),
        total_connections = 0, reserve_in_use = 0,
        coord_config = \<lparr>max_db_connections = 1, min_connection_lifetime_ms = 0,
          reserve_pool_size = 2, reserve_pool_timeout_ms = 0\<rparr>,
        evictions_total = 0, reserve_acquisitions_total = 0, exhaustions_total = 0\<rparr>)))"
  have l: "ledger counting_semaphore ?c 0 2 0"
    by (simp add: ledger_def claim_grant_def atomics)
  have r: "reserves (slots_vec three_idle) = 2" by code_simp
  obtain n v c' where u: "upgrade_loop counting_semaphore (slots_vec three_idle) ?c = (n, v, c')"
    using prod_cases3 by blast
  have "n = 1"
    using upgrade_loop_ledger [OF counting_semaphore_laws l _ u] r
    by (simp add: claim_grant_def atomics)
  then show ?thesis
    using u by simp
qed

section \<open>Budgets, resizing and status\<close>

text \<open>
  The waiting budgets are bounded whatever the statistics and the random draw: the burst gate
  waits between 20 and 500 ms, the anticipation at most 500 ms and never longer than the caller's
  wait timeout leaves after the 500 ms kept for creating a connection.
\<close>

theorem wait_budgets_bounded:
  "20 \<le> burst_gate_budget jitter p99 \<and> burst_gate_budget jitter p99 \<le> 500
   \<and> anticipation_budget wait elapsed jitter p99 \<le> 500
   \<and> anticipation_budget (Some w) elapsed jitter p99 + 500 \<le> max w 500"
proof -
  have clamp: "lo \<le> clamp lo hi x \<and> clamp lo hi x \<le> hi" if "lo \<le> hi" for lo hi x
    using that by (simp add: clamp_def)
  have "anticipation_budget wt elapsed jitter p99 \<le> 500"
    and "anticipation_budget wt elapsed jitter p99 \<le> anticipation_total_ms wt elapsed" for wt
    using clamp [of 5 500] by (auto simp: anticipation_budget_def Let_def min.coboundedI2)
  from this(1) [of wait] this [of "Some w"] show ?thesis
    using clamp [of 20 500] by (auto simp: burst_gate_budget_def Let_def anticipation_total_ms_def)
qed



end
