(* ===== verification/Pool_Checkout.thy ===== *)
theory Pool_Checkout
  imports Pool_Inner
begin

text \<open>
  Checking a connection out of the pool, \<^verbatim>\<open>Pool::timeout_get\<close> of \<^verbatim>\<open>src/src/pool/inner.rs\<close> with the
  functions it calls: \<^verbatim>\<open>wait_if_paused\<close>, \<^verbatim>\<open>acquire_semaphore\<close>, \<^verbatim>\<open>try_recycle_one\<close>, \<^verbatim>\<open>try_anticipate\<close>,
  \<^verbatim>\<open>acquire_burst_gate\<close>, \<^verbatim>\<open>acquire_coordinator_jit\<close>, \<^verbatim>\<open>create_connection\<close>, \<^verbatim>\<open>recycle_handoff\<close> and
  \<^verbatim>\<open>wrap_checkout\<close>.

  \<open>checkout_step\<close> executes a task from one await or lock region to the next. The answers of the
  runtime, the clock and the backend are the fields of \<open>ck_input\<close>. \<open>pool_step\<close> interleaves any
  number of such tasks with clients that give connections back and with the maintenance functions
  of theory \<open>Pool_Inner\<close>.
\<close>

section \<open>State\<close>

record scaling_stats =
  creates_started :: u64
  burst_gate_waits :: u64
  anticipation_wakes_notify :: u64
  anticipation_wakes_timeout :: u64
  create_fallback :: u64
  burst_gate_budget_exhausted :: u64

record 's pool =
  slots_of :: slots
  semaphore :: 's
  channels :: "channel list"
  next_channel :: nat
  users :: nat
  inflight_creates :: nat
  pre_in_flight :: nat
  pre_spawned :: nat
  coord :: "'s coordinator option"
  stats :: scaling_stats
  cfg_queue_mode :: queue_mode
  cfg_fast_retries :: nat
  cfg_max_parallel_creates :: nat
  cfg_wait :: "nat option"
  pool_name :: string
  username :: string
  lost :: nat

text \<open>
  \<open>lost\<close> is a history variable: the connections destroyed inside a channel. The
  coordinator permit an acquisition already holds while it waits at the burst gate is its context.
\<close>

type_synonym gate_ctx = "coordinator_permit option"

text \<open>The call sites of \<^verbatim>\<open>try_recycle_one\<close> and of \<^verbatim>\<open>recycle_handoff\<close>.\<close>

datatype site =
    First
  | FastRetry nat
  | Drain
  | GateNonBlocking
  | GateLoop gate_ctx
  | GateAfter gate_ctx "nat option"
  | JitSite coordinator_permit

datatype handoff_site = AntH | GateH gate_ctx

datatype checkout_pc =
    CkStart
  | CkPauseCheck
  | CkPauseWait
  | CkSem nat
  | CkSemWait
  | TryPop site
  | Checking site object_inner
  | CkAnticipate
  | CkFast nat
  | CkDeficit
  | AntRegister
  | AntWait nat
  | AntTimedOut nat
  | GateTry gate_ctx
  | GateBudget gate_ctx
  | GateRegister gate_ctx
  | GateWait gate_ctx nat
  | GateLeftover gate_ctx nat
  | HandoffCheck handoff_site object_inner
  | Jit
  | JitAcquire acquire_pc
  | Create gate_ctx
  | Finished "pool_error + object_inner"

datatype create_result = Created object_inner | CreateFailed | CreateTimedOut

record ck_input =
  ck_now :: nat
  ck_paused :: bool
  ck_resumed :: bool
  ck_timer :: bool
  ck_recycle_ok :: bool
  ck_warm_threshold :: nat
  ck_elapsed :: nat
  ck_over_budget :: bool
  ck_create :: create_result
  ck_acquire :: acquire_input

definition non_blocking :: "'s pool \<Rightarrow> bool" where
  "non_blocking p \<longleftrightarrow> cfg_wait p = Some 0"

section \<open>Pieces of the program\<close>

definition set_size :: "(nat \<Rightarrow> nat) \<Rightarrow> 's pool \<Rightarrow> 's pool" where
  "set_size f p = p\<lparr>slots_of := (slots_of p)\<lparr>slots_size := f (slots_size (slots_of p))\<rparr>\<rparr>"

text \<open>The end of a call: the user count is decremented by the scope guard.\<close>

definition leave :: "'s pool \<Rightarrow> 's pool" where
  "leave p = p\<lparr>users := users p - 1\<rparr>"

text \<open>\<^verbatim>\<open>wrap_checkout\<close>: the semaphore permit is forgotten, the connection goes to the client.\<close>

definition checked_out :: "'s pool \<Rightarrow> object_inner \<Rightarrow> 's pool \<times> checkout_pc" where
  "checked_out p inner = (leave p, Finished (Inr inner))"

text \<open>An error after the semaphore was acquired: the permit guard returns the permit.\<close>

definition fail_with :: "'s semaphore_ops \<Rightarrow> 's pool \<Rightarrow> pool_error \<Rightarrow> 's pool \<times> checkout_pc" where
  "fail_with S p e =
     (leave (p\<lparr>semaphore := sem_add_permits S 1 (semaphore p)\<rparr>), Finished (Inl e))"

definition messages :: "channel list \<Rightarrow> object_inner list" where
  "messages chs = List.map_filter ch_msg chs"

text \<open>The receiver of a channel is dropped; a connection inside it is destroyed with it.\<close>

definition drop_receiver :: "'s semaphore_ops \<Rightarrow> nat option \<Rightarrow> 's pool \<Rightarrow> 's pool" where
  "drop_receiver S ch p =
     (case ch of
        None \<Rightarrow> p
      | Some w \<Rightarrow>
          (let gone = messages (filter (\<lambda>c. ch_id c = w) (channels p))
           in p\<lparr>channels := filter (\<lambda>c. ch_id c \<noteq> w) (channels p),
                coord := drop_objects S gone (coord p),
                lost := lost p + length gone\<rparr>))"

definition received :: "nat \<Rightarrow> 's pool \<Rightarrow> object_inner option" where
  "received w p = (case filter (\<lambda>c. ch_id c = w) (channels p) of c # _ \<Rightarrow> ch_msg c | [] \<Rightarrow> None)"

text \<open>Taking the message out of a channel; the channel is finished.\<close>

definition consume :: "nat \<Rightarrow> 's pool \<Rightarrow> 's pool" where
  "consume w p = p\<lparr>channels := filter (\<lambda>c. ch_id c \<noteq> w) (channels p)\<rparr>"

text \<open>A fresh channel whose sender joins the waiters.\<close>

definition register :: "'s pool \<Rightarrow> nat \<times> 's pool" where
  "register p =
     (let w = next_channel p
      in (w, p\<lparr>next_channel := w + 1,
               channels := channels p @ [\<lparr>ch_id = w, ch_late = False, ch_msg = None\<rparr>],
               slots_of := (slots_of p)\<lparr>slots_waiters := slots_waiters (slots_of p) @ [w]\<rparr>\<rparr>))"

text \<open>
  The last look into a channel: from here on nothing reads it any more, although its receiver
  still exists.
\<close>

definition mark_late :: "nat \<Rightarrow> 's pool \<Rightarrow> 's pool" where
  "mark_late w p =
     p\<lparr>channels := map (\<lambda>c. if ch_id c = w then c\<lparr>ch_late := True\<rparr> else c) (channels p)\<rparr>"

definition try_acquire_burst_gate :: "'s pool \<Rightarrow> 's pool option" where
  "try_acquire_burst_gate p =
     (case try_take_burst_slot (inflight_creates p) (cfg_max_parallel_creates p) of
        (True, n) \<Rightarrow> Some (p\<lparr>inflight_creates := n,
            stats := (stats p)\<lparr>creates_started := creates_started (stats p) + 1\<rparr>\<rparr>)
      | (False, n) \<Rightarrow> None)"

definition drop_gate :: "'s pool \<Rightarrow> 's pool" where
  "drop_gate p = p\<lparr>inflight_creates := inflight_creates p - 1\<rparr>"

definition trigger_pre_replacement ::
  "'s semaphore_ops \<Rightarrow> ck_input \<Rightarrow> object_inner \<Rightarrow> 's pool \<Rightarrow> 's pool" where
  "trigger_pre_replacement S i inner p =
     (case maybe_trigger_pre_replacement S (ck_now i) (ck_paused i) (obj_metrics inner)
             (slots_of p) (semaphore p) (pre_in_flight p) of
        (True, n) \<Rightarrow> p\<lparr>pre_in_flight := n, pre_spawned := pre_spawned p + 1\<rparr>
      | (False, n) \<Rightarrow> p)"

text \<open>Where a call of \<^verbatim>\<open>try_recycle_one\<close> continues after a connection was obtained.\<close>

definition after_reused ::
  "'s semaphore_ops \<Rightarrow> ck_input \<Rightarrow> site \<Rightarrow> object_inner \<Rightarrow> 's pool \<Rightarrow> 's pool \<times> checkout_pc" where
  "after_reused S i s inner p =
     (case s of
        First \<Rightarrow> checked_out (trigger_pre_replacement S i inner p) inner
      | GateLoop ctx \<Rightarrow>
          checked_out (p\<lparr>coord := drop_permit_opt S ctx (coord p)\<rparr>) inner
      | GateAfter ctx ch \<Rightarrow>
          (let p' = drop_receiver S ch p
           in checked_out (p'\<lparr>coord := drop_permit_opt S ctx (coord p')\<rparr>) inner)
      | JitSite q \<Rightarrow> checked_out (p\<lparr>coord := drop_permit_opt S (Some q) (coord p)\<rparr>) inner
      | _ \<Rightarrow> checked_out p inner)"

text \<open>
  Where it continues otherwise; \<open>failed\<close> tells a rejected connection from an empty idle queue.
\<close>

definition after_none ::
  "'s semaphore_ops \<Rightarrow> site \<Rightarrow> bool \<Rightarrow> 's pool \<Rightarrow> 's pool \<times> checkout_pc" where
  "after_none S s failed p =
     (case s of
        First \<Rightarrow> (p, CkAnticipate)
      | FastRetry n \<Rightarrow> (p, CkFast n)
      | Drain \<Rightarrow> (p, if failed then TryPop Drain else GateTry None)
      | GateNonBlocking \<Rightarrow> fail_with S p (PoolTimeout WaitTimeout)
      | GateLoop ctx \<Rightarrow> (p, GateBudget ctx)
      | GateAfter ctx ch \<Rightarrow> (drop_receiver S ch p, GateTry ctx)
      | JitSite q \<Rightarrow> (p, GateTry (Some q)))"

definition count_fallback :: "'s pool \<Rightarrow> 's pool" where
  "count_fallback p = p\<lparr>stats := (stats p)\<lparr>create_fallback := create_fallback (stats p) + 1\<rparr>\<rparr>"

text \<open>\<^verbatim>\<open>acquire_semaphore\<close> once the ten fast attempts are used up.\<close>

definition semaphore_wait ::
  "'s semaphore_ops \<Rightarrow> ck_input \<Rightarrow> 's pool \<Rightarrow> 's pool \<times> checkout_pc" where
  "semaphore_wait S i p =
     (case sem_try_acquire S (semaphore p) of
        Some s \<Rightarrow> (p\<lparr>semaphore := s\<rparr>, TryPop First)
      | None \<Rightarrow>
          if sem_is_closed S (semaphore p) then (leave p, Finished (Inl PoolClosed))
          else if non_blocking p \<or> (ck_timer i \<and> cfg_wait p \<noteq> None)
          then (leave p, Finished (Inl (PoolTimeout WaitTimeout)))
          else (p, CkSemWait))"

definition capacity_deficit :: "'s pool \<Rightarrow> bool" where
  "capacity_deficit p \<longleftrightarrow> coord p = None \<and> slots_vec (slots_of p) = []
     \<and> slots_size (slots_of p) < slots_max_size (slots_of p)"

text \<open>\<^verbatim>\<open>create_connection\<close>; leaving it also releases the burst gate.\<close>

definition create_connection ::
  "'s semaphore_ops \<Rightarrow> ck_input \<Rightarrow> gate_ctx \<Rightarrow> 's pool \<Rightarrow> 's pool \<times> checkout_pc" where
  "create_connection S i ctx p =
     (case ck_create i of
        Created inner \<Rightarrow> checked_out (drop_gate (set_size Suc p)) (inner\<lparr>obj_permit := ctx\<rparr>)
      | CreateFailed \<Rightarrow>
          fail_with S (drop_gate (p\<lparr>coord := drop_permit_opt S ctx (coord p)\<rparr>)) PoolBackend
      | CreateTimedOut \<Rightarrow>
          fail_with S (drop_gate (p\<lparr>coord := drop_permit_opt S ctx (coord p)\<rparr>))
            (PoolTimeout CreateTimeout))"

section \<open>The program\<close>

fun checkout_step ::
  "'s semaphore_ops \<Rightarrow> ck_input \<Rightarrow> 's pool \<Rightarrow> checkout_pc \<Rightarrow> 's pool \<times> checkout_pc" where
  "checkout_step S i p CkStart = (p\<lparr>users := users p + 1\<rparr>, CkPauseCheck)"
| "checkout_step S i p CkPauseCheck = (p, if ck_paused i then CkPauseWait else CkSem 0)"
| "checkout_step S i p CkPauseWait =
     (if ck_resumed i then (p, CkSem 0)
      else if ck_timer i \<and> cfg_wait p \<noteq> None
      then (leave p, Finished (Inl (PoolTimeout WaitTimeout)))
      else (p, CkPauseWait))"
| "checkout_step S i p (CkSem n) =
     (if n < 10
      then (case sem_try_acquire S (semaphore p) of
              Some s \<Rightarrow> (p\<lparr>semaphore := s\<rparr>, TryPop First)
            | None \<Rightarrow> (p, CkSem (n + 1)))
      else semaphore_wait S i p)"
| "checkout_step S i p CkSemWait = semaphore_wait S i p"
| "checkout_step S i p (TryPop s) =
     (case slots_vec (slots_of p) of
        [] \<Rightarrow> after_none S s False p
      | inner # rest \<Rightarrow>
          (p\<lparr>slots_of := (slots_of p)\<lparr>slots_vec := rest\<rparr>\<rparr>, Checking s inner))"
| "checkout_step S i p (Checking s inner) =
     (if ck_recycle_ok i then after_reused S i s inner p
      else after_none S s True
        (set_size (\<lambda>n. n - 1) (p\<lparr>coord := drop_objects S [inner] (coord p)\<rparr>)))"
| "checkout_step S i p CkAnticipate =
     (if slots_size (slots_of p) \<ge> max 1 (ck_warm_threshold i)
      then (p, CkFast (cfg_fast_retries p)) else (p, TryPop Drain))"
| "checkout_step S i p (CkFast n) =
     (case n of 0 \<Rightarrow> (p, CkDeficit) | Suc k \<Rightarrow> (p, TryPop (FastRetry k)))"
| "checkout_step S i p CkDeficit =
     (if \<not> capacity_deficit p \<and> \<not> non_blocking p
         \<and> anticipation_total_ms (cfg_wait p) (ck_elapsed i) \<noteq> 0
      then (p, AntRegister) else (count_fallback p, TryPop Drain))"
| "checkout_step S i p AntRegister = (let (w, p') = register p in (p', AntWait w))"
| "checkout_step S i p (AntWait w) =
     (case received w p of
        Some inner \<Rightarrow>
          (let p' = consume w p
           in (p'\<lparr>stats := (stats p')\<lparr>anticipation_wakes_notify
                 := anticipation_wakes_notify (stats p') + 1\<rparr>\<rparr>, HandoffCheck AntH inner))
      | None \<Rightarrow>
          if ck_timer i
          then (let p' = mark_late w p
                in (p'\<lparr>stats := (stats p')\<lparr>anticipation_wakes_timeout
                      := anticipation_wakes_timeout (stats p') + 1\<rparr>\<rparr>, AntTimedOut w))
          else (p, AntWait w))"
| "checkout_step S i p (AntTimedOut w) =
     (count_fallback (drop_receiver S (Some w) p), TryPop Drain)"
| "checkout_step S i p (GateTry ctx) =
     (case try_acquire_burst_gate p of
        Some p' \<Rightarrow> (p', case ctx of None \<Rightarrow> Jit | Some q \<Rightarrow> Create (Some q))
      | None \<Rightarrow>
          (p\<lparr>stats := (stats p)\<lparr>burst_gate_waits := burst_gate_waits (stats p) + 1\<rparr>\<rparr>,
           TryPop (if ctx = None \<and> non_blocking p then GateNonBlocking else GateLoop ctx)))"
| "checkout_step S i p (GateBudget ctx) =
     (if ck_over_budget i
      then (p\<lparr>stats := (stats p)\<lparr>burst_gate_budget_exhausted
              := burst_gate_budget_exhausted (stats p) + 1\<rparr>\<rparr>, GateTry ctx)
      else (p, GateRegister ctx))"
| "checkout_step S i p (GateRegister ctx) = (let (w, p') = register p in (p', GateWait ctx w))"
| "checkout_step S i p (GateWait ctx w) =
     (case received w p of
        Some inner \<Rightarrow> (consume w p, HandoffCheck (GateH ctx) inner)
      | None \<Rightarrow> if ck_timer i then (p, GateLeftover ctx w) else (p, GateWait ctx w))"
| "checkout_step S i p (GateLeftover ctx w) =
     (case received w p of
        Some inner \<Rightarrow>
          (let p' = consume w p; sl = slots_of p'
           in (p'\<lparr>slots_of := sl\<lparr>slots_vec :=
                 push_idle (cfg_queue_mode p') (slots_vec sl) inner\<rparr>\<rparr>,
               TryPop (GateAfter ctx None)))
      | None \<Rightarrow> (mark_late w p, TryPop (GateAfter ctx (Some w))))"
| "checkout_step S i p (HandoffCheck h inner) =
     (if ck_recycle_ok i
      then (let p' = trigger_pre_replacement S i inner p
            in case h of
                 AntH \<Rightarrow> checked_out p' inner
               | GateH ctx \<Rightarrow>
                   checked_out (p'\<lparr>coord := drop_permit_opt S ctx (coord p')\<rparr>) inner)
      else (let p' = set_size (\<lambda>n. n - 1) (p\<lparr>coord := drop_objects S [inner] (coord p)\<rparr>)
            in case h of
                 AntH \<Rightarrow> (count_fallback p', TryPop Drain)
               | GateH ctx \<Rightarrow> (p', TryPop (GateAfter ctx None))))"
| "checkout_step S i p Jit =
     (case coord p of
        None \<Rightarrow> (p, Create None)
      | Some c \<Rightarrow>
          (case try_acquire S c of
             Some (q, c') \<Rightarrow> (p\<lparr>coord := Some c'\<rparr>, Create (Some q))
           | None \<Rightarrow> (drop_gate p, JitAcquire PhaseA)))"
| "checkout_step S i p (JitAcquire apc) =
     (case apc of
        Done (Inr q) \<Rightarrow> (p, TryPop (JitSite q))
      | Done (Inl (NoConnection info)) \<Rightarrow> fail_with S p (PoolDbLimitExhausted info)
      | _ \<Rightarrow>
          (case coord p of
             None \<Rightarrow> (p, JitAcquire apc)
           | Some c \<Rightarrow>
               (let (c', apc') = acquire_step S (pool_name p) (username p) (ck_acquire i) c apc
                in (p\<lparr>coord := Some c'\<rparr>, JitAcquire apc'))))"
| "checkout_step S i p (Create ctx) = create_connection S i ctx p"
| "checkout_step S i p (Finished r) = (p, Finished r)"

section \<open>Many tasks\<close>

record 's pool_sys =
  pool_of :: "'s pool"
  tasks :: "checkout_pc multiset"

text \<open>The connections and the semaphore permit a task holds.\<close>

fun objs :: "checkout_pc \<Rightarrow> object_inner multiset" where
  "objs (Checking s x) = {#x#}"
| "objs (HandoffCheck h x) = {#x#}"
| "objs (Finished (Inr x)) = {#x#}"
| "objs _ = {#}"

fun permit_held :: "checkout_pc \<Rightarrow> nat" where
  "permit_held CkStart = 0"
| "permit_held CkPauseCheck = 0"
| "permit_held CkPauseWait = 0"
| "permit_held (CkSem n) = 0"
| "permit_held CkSemWait = 0"
| "permit_held (Finished (Inl e)) = 0"
| "permit_held _ = 1"

definition pool_conns :: "'s pool \<Rightarrow> object_inner multiset" where
  "pool_conns p = mset (slots_vec (slots_of p)) + mset (messages (channels p))"

text \<open>Every connection of the system: idle, in a channel, or in the hands of a task.\<close>

definition conns :: "'s pool_sys \<Rightarrow> object_inner multiset" where
  "conns s = pool_conns (pool_of s) + sum_mset (image_mset objs (tasks s))"

text \<open>A backend connection that \<^verbatim>\<open>create\<close> returns is a new one.\<close>

definition fresh_create :: "ck_input \<Rightarrow> 's pool_sys \<Rightarrow> bool" where
  "fresh_create i s \<longleftrightarrow>
     (case ck_create i of Created x \<Rightarrow> oid x \<notin># image_mset oid (conns s) | _ \<Rightarrow> True)"

definition apply_maintenance ::
  "'s semaphore_ops \<Rightarrow> object_inner list \<times> slots \<Rightarrow> 's pool \<Rightarrow> 's pool" where
  "apply_maintenance S r p =
     p\<lparr>slots_of := snd r, coord := drop_objects S (fst r) (coord p)\<rparr>"

inductive pool_step :: "'s semaphore_ops \<Rightarrow> 's pool_sys \<Rightarrow> 's pool_sys \<Rightarrow> bool"
  for S :: "'s semaphore_ops" where
  spawn:
    "pool_step S s (s\<lparr>tasks := add_mset CkStart (tasks s)\<rparr>)"
| run:
    "tasks s = add_mset pc ts \<Longrightarrow> fresh_create i s \<Longrightarrow>
     checkout_step S i (pool_of s) pc = (p, pc') \<Longrightarrow>
     pool_step S s \<lparr>pool_of = p, tasks = add_mset pc' ts\<rparr>"
| give_back:
    "tasks s = add_mset (Finished (Inr x)) ts \<Longrightarrow> oid y = oid x \<Longrightarrow>
     drop_object S (cfg_queue_mode (pool_of s)) now y (slots_of (pool_of s))
       (channels (pool_of s)) (semaphore (pool_of s)) = (sl, chs, sem, gone) \<Longrightarrow>
     pool_step S s
       \<lparr>pool_of = (pool_of s)\<lparr>slots_of := sl, channels := chs, semaphore := sem,
          coord := drop_objects S (case gone of Some g \<Rightarrow> [g] | None \<Rightarrow> []) (coord (pool_of s))\<rparr>,
        tasks = ts\<rparr>"
| give_up:
    "tasks s = add_mset (Finished (Inl e)) ts \<Longrightarrow> pool_step S s (s\<lparr>tasks := ts\<rparr>)"
| do_retain:
    "pool_step S s (s\<lparr>pool_of :=
       apply_maintenance S (retain f (slots_of (pool_of s))) (pool_of s)\<rparr>)"
| do_retain_oldest:
    "pool_step S s (s\<lparr>pool_of :=
       apply_maintenance S (retain_oldest_first g now n (slots_of (pool_of s))) (pool_of s)\<rparr>)"
| do_close_reserve:
    "pool_step S s (s\<lparr>pool_of :=
       apply_maintenance S (close_idle_reserve_connections now ms (slots_of (pool_of s)))
         (pool_of s)\<rparr>)"
| do_upgrade:
    "upgrade_reserve_to_main S (slots_of (pool_of s)) (coord (pool_of s)) = (n, sl, c) \<Longrightarrow>
     pool_step S s (s\<lparr>pool_of := (pool_of s)\<lparr>slots_of := sl, coord := c\<rparr>\<rparr>)"
| peer_pools:
    "coord (pool_of s) \<noteq> None \<Longrightarrow>
     pool_step S s (s\<lparr>pool_of := (pool_of s)\<lparr>coord := Some c\<rparr>\<rparr>)"

abbreviation pool_steps :: "'s semaphore_ops \<Rightarrow> 's pool_sys \<Rightarrow> 's pool_sys \<Rightarrow> bool" where
  "pool_steps S \<equiv> (pool_step S)\<^sup>*\<^sup>*"

definition no_stats :: scaling_stats where
  "no_stats = \<lparr>creates_started = 0, burst_gate_waits = 0, anticipation_wakes_notify = 0,
     anticipation_wakes_timeout = 0, create_fallback = 0, burst_gate_budget_exhausted = 0\<rparr>"

text \<open>\<^verbatim>\<open>Pool::from_builder\<close>.\<close>

definition new_pool ::
  "'s semaphore_ops \<Rightarrow> nat \<Rightarrow> queue_mode \<Rightarrow> nat \<Rightarrow> nat \<Rightarrow> nat option \<Rightarrow> 's coordinator option
     \<Rightarrow> string \<Rightarrow> string \<Rightarrow> 's pool" where
  "new_pool S max_size mode fast_retries max_parallel wait c name user = \<lparr>
     slots_of = \<lparr>slots_vec = [], slots_waiters = [], slots_size = 0, slots_max_size = max_size\<rparr>,
     semaphore = sem_new S max_size,
     channels = [], next_channel = 0, users = 0, inflight_creates = 0,
     pre_in_flight = 0, pre_spawned = 0, coord = c, stats = no_stats,
     cfg_queue_mode = mode, cfg_fast_retries = fast_retries,
     cfg_max_parallel_creates = max_parallel, cfg_wait = wait,
     pool_name = name, username = user, lost = 0 \<rparr>"

definition pool_start :: "'s pool \<Rightarrow> 's pool_sys" where
  "pool_start p = \<lparr>pool_of = p, tasks = {#}\<rparr>"

end
