(* ===== verification/Pool_Invariants.thy ===== *)
theory Pool_Invariants
  imports Pool_Checkout
begin

text \<open>
  Invariants of the pool under concurrent checkouts (\<^verbatim>\<open>src/src/pool/inner.rs\<close>).

  For every reachable state of \<open>pool_step\<close>: semaphore permits are conserved, every physical
  connection is in exactly one place, the size counter counts the connections plus those lost in a
  channel, channels belong to exactly one task, and the connections that can still be used together
  with those about to be created stay within the pool size.
\<close>

section \<open>What a task owns\<close>

text \<open>The channel whose receiver a task holds, with whether it may still read it.\<close>

fun owned_site :: "site \<Rightarrow> (nat \<times> bool) multiset" where
  "owned_site (GateAfter ctx (Some w)) = {#(w, True)#}"
| "owned_site _ = {#}"

fun owned :: "checkout_pc \<Rightarrow> (nat \<times> bool) multiset" where
  "owned (AntWait w) = {#(w, False)#}"
| "owned (AntTimedOut w) = {#(w, True)#}"
| "owned (GateWait ctx w) = {#(w, False)#}"
| "owned (GateLeftover ctx w) = {#(w, False)#}"
| "owned (TryPop s) = owned_site s"
| "owned (Checking s x) = owned_site s"
| "owned _ = {#}"

text \<open>Program points from which a new connection may be created without looking at the idle queue again.\<close>

fun commits :: "checkout_pc \<Rightarrow> nat" where
  "commits (GateTry ctx) = 1"
| "commits (GateBudget ctx) = 1"
| "commits Jit = 1"
| "commits (JitAcquire apc) = 1"
| "commits (Create ctx) = 1"
| "commits _ = 0"

fun gate_held :: "checkout_pc \<Rightarrow> nat" where
  "gate_held Jit = 1"
| "gate_held (Create ctx) = 1"
| "gate_held _ = 0"

definition keys :: "channel list \<Rightarrow> (nat \<times> bool) multiset" where
  "keys chs = mset (map (\<lambda>c. (ch_id c, ch_late c)) chs)"

text \<open>Connections that a task can still obtain from the pool.\<close>

definition usable :: "'s pool \<Rightarrow> nat" where
  "usable p = length (slots_vec (slots_of p))
     + length (messages (filter (\<lambda>c. \<not> ch_late c) (channels p)))"

section \<open>One task's step\<close>

lemma trigger_frame [simp]:
  "slots_of (trigger_pre_replacement S i x p) = slots_of p"
  "semaphore (trigger_pre_replacement S i x p) = semaphore p"
  "channels (trigger_pre_replacement S i x p) = channels p"
  "next_channel (trigger_pre_replacement S i x p) = next_channel p"
  "inflight_creates (trigger_pre_replacement S i x p) = inflight_creates p"
  "lost (trigger_pre_replacement S i x p) = lost p"
  by (simp_all add: trigger_pre_replacement_def split: prod.splits bool.splits)

lemma burst_gate_Some:
  assumes "try_acquire_burst_gate p = Some p'"
  shows "slots_of p' = slots_of p" and "semaphore p' = semaphore p" and "channels p' = channels p"
    and "next_channel p' = next_channel p" and "lost p' = lost p"
    and "inflight_creates p' = Suc (inflight_creates p)"
    and "inflight_creates p < cfg_max_parallel_creates p"
  using assms
  by (auto simp: try_acquire_burst_gate_def try_take_burst_slot_def Let_def split: if_splits)

lemma drop_receiver_frame [simp]:
  "slots_of (drop_receiver S ch p) = slots_of p"
  "semaphore (drop_receiver S ch p) = semaphore p"
  "next_channel (drop_receiver S ch p) = next_channel p"
  "inflight_creates (drop_receiver S ch p) = inflight_creates p"
  by (simp_all add: drop_receiver_def Let_def split: option.splits)

lemma drop_receiver_channels:
  "drop_receiver S None p = p"
  "channels (drop_receiver S (Some w) p) = filter (\<lambda>c. ch_id c \<noteq> w) (channels p)"
  "lost (drop_receiver S (Some w) p)
     = lost p + length (messages (filter (\<lambda>c. ch_id c = w) (channels p)))"
  by (simp_all add: drop_receiver_def Let_def)

text \<open>All the branches of a step, with the functions that only touch other fields unfolded.\<close>

lemmas step_simps = leave_def checked_out_def fail_with_def consume_def register_def
  mark_late_def drop_gate_def count_fallback_def set_size_def create_connection_def
  semaphore_wait_def after_none_def after_reused_def Let_def drop_receiver_channels

lemmas step_splits = option.splits prod.splits if_splits list.splits site.splits
  handoff_site.splits create_result.splits nat.splits acquire_pc.splits sum.splits
  acquire_error.splits

lemma run_semaphore:
  assumes "semaphore_laws S" and "checkout_step S i p pc = (p', pc')"
  shows "sem_available S (semaphore p') + permit_held pc'
    = sem_available S (semaphore p) + permit_held pc"
  using assms(2)
  by (cases pc)
    (auto simp: step_simps assms(1) dest: sem_try_SomeD [OF assms(1)] burst_gate_Some
      split: step_splits)

lemma run_max_size:
  assumes "checkout_step S i p pc = (p', pc')"
  shows "slots_max_size (slots_of p') = slots_max_size (slots_of p)"
  using assms
  by (cases pc) (auto simp: step_simps dest: burst_gate_Some split: step_splits)

lemma run_gate:
  assumes "checkout_step S i p pc = (p', pc')" and "gate_held pc \<le> inflight_creates p"
  shows "inflight_creates p' + gate_held pc = inflight_creates p + gate_held pc'"
  using assms
  by (cases pc) (auto simp: step_simps dest: burst_gate_Some split: step_splits)

text \<open>Channels are opened, marked and closed by their owner only.\<close>

lemma channel_split:
  assumes "distinct (map ch_id chs)" and "(w, l) \<in># keys chs"
  obtains xs c ys where "chs = xs @ c # ys" and "ch_id c = w" and "ch_late c = l"
    and "\<forall>x \<in> set xs \<union> set ys. ch_id x \<noteq> w"
proof -
  from assms(2) obtain c where c: "c \<in> set chs" "ch_id c = w" "ch_late c = l"
    by (auto simp: keys_def)
  then obtain xs ys where "chs = xs @ c # ys"
    by (meson split_list)
  then show thesis
    using that [of xs c ys] c assms(1) by (metis (no_types, lifting) Un_iff distinct.simps(2)
        distinct_append distinct_map in_set_conv_decomp list.simps(9) map_append not_distinct_conv_prefix)
qed

lemma split_channels_simps:
  assumes "\<forall>x \<in> set xs \<union> set ys. ch_id x \<noteq> w" and "ch_id c = w"
  shows "filter (\<lambda>c. ch_id c \<noteq> w) (xs @ c # ys) = xs @ ys"
    and "filter (\<lambda>c. ch_id c = w) (xs @ c # ys) = [c]"
    and "map (\<lambda>c. if ch_id c = w then f c else c) (xs @ c # ys) = xs @ f c # ys"
    and "deliver w o1 (xs @ c # ys) = xs @ c\<lparr>ch_msg := Some o1\<rparr> # ys"
  using assms by (auto simp: filter_id_conv deliver_def intro!: map_idI)

lemma close_channel:
  assumes "distinct (map ch_id chs)" and "(w, l) \<in># keys chs"
  shows "keys chs = add_mset (w, l) (keys (filter (\<lambda>c. ch_id c \<noteq> w) chs))"
proof -
  obtain xs c ys where sp: "chs = xs @ c # ys" "ch_id c = w" "ch_late c = l"
    "\<forall>x \<in> set xs \<union> set ys. ch_id x \<noteq> w"
    by (rule channel_split [OF assms])
  show ?thesis
    unfolding sp(1) split_channels_simps(1) [OF sp(4,2)] using sp(2,3) by (simp add: keys_def)
qed

lemma mark_channel:
  assumes "distinct (map ch_id chs)" and "(w, False) \<in># keys chs"
  shows "add_mset (w, False) (keys (map (\<lambda>c. if ch_id c = w then c\<lparr>ch_late := True\<rparr> else c) chs))
    = add_mset (w, True) (keys chs)"
proof -
  obtain xs c ys where sp: "chs = xs @ c # ys" "ch_id c = w" "\<not> ch_late c"
    "\<forall>x \<in> set xs \<union> set ys. ch_id x \<noteq> w"
    using channel_split [OF assms] by metis
  show ?thesis
    unfolding sp(1) split_channels_simps(3) [OF sp(4,2)] using sp(2,3) by (simp add: keys_def)
qed

definition channels_ok :: "'s pool \<Rightarrow> bool" where
  "channels_ok p \<longleftrightarrow> distinct (map ch_id (channels p))
     \<and> (\<forall>c \<in> set (channels p). ch_id c < next_channel p)"

lemma channels_ok_frame [simp]:
  "channels_ok (p\<lparr>slots_of := a\<rparr>) = channels_ok p"
  "channels_ok (p\<lparr>semaphore := b\<rparr>) = channels_ok p"
  "channels_ok (p\<lparr>users := c\<rparr>) = channels_ok p"
  "channels_ok (p\<lparr>inflight_creates := d\<rparr>) = channels_ok p"
  "channels_ok (p\<lparr>coord := e\<rparr>) = channels_ok p"
  "channels_ok (p\<lparr>stats := f\<rparr>) = channels_ok p"
  "channels_ok (trigger_pre_replacement S i x p) = channels_ok p"
  by (simp_all add: channels_ok_def)

lemma channels_ok_ops:
  assumes "channels_ok p"
  shows "channels_ok (drop_receiver S ch p)" and "channels_ok (consume w p)"
    and "channels_ok (mark_late w p)"
  using assms
  by (auto simp: channels_ok_def drop_receiver_def consume_def mark_late_def
      Let_def distinct_map_filter o_def if_distrib [of ch_id] cong: if_cong split: option.splits)

lemma channels_ok_register:
  assumes "channels_ok p" and "register p = (w, q)"
  shows "channels_ok q"
proof -
  have "next_channel p \<notin> ch_id ` set (channels p)"
    using assms(1) by (force simp: channels_ok_def)
  then show ?thesis
    using assms by (auto simp: channels_ok_def register_def Let_def less_Suc_eq)
qed

lemma channels_ok_burst:
  "try_acquire_burst_gate p = Some q \<Longrightarrow> channels_ok q = channels_ok p"
  by (simp add: channels_ok_def burst_gate_Some)

lemma run_channels_ok:
  assumes "checkout_step S i p pc = (p', pc')" and "channels_ok p"
  shows "channels_ok p'"
  using assms
  by (cases pc)
    (auto simp: leave_def checked_out_def fail_with_def drop_gate_def count_fallback_def
      set_size_def create_connection_def semaphore_wait_def after_none_def after_reused_def Let_def
      channels_ok_ops channels_ok_burst channels_ok_register split: step_splits)

lemma run_keys_owner:
  assumes "checkout_step S i p pc = (p', pc')" and "channels_ok p"
    and "owned pc = {#(w, l)#}" and "(w, l) \<in># keys (channels p)"
  shows "keys (channels p') + owned pc = keys (channels p) + owned pc'"
proof -
  have d: "distinct (map ch_id (channels p))"
    using assms(2) by (simp add: channels_ok_def)
  note cl = close_channel [OF d assms(4)]
  have mk: "\<not> l \<Longrightarrow> add_mset (w, False)
      (keys (map (\<lambda>c. if ch_id c = w then c\<lparr>ch_late := True\<rparr> else c) (channels p)))
      = add_mset (w, True) (keys (channels p))"
    using mark_channel [OF d] assms(4) by simp
  show ?thesis
    using assms(1,3) mk cl
    by (cases pc)
      (auto simp: step_simps add_mset_commute elim!: owned_site.elims split: step_splits)
qed

lemma owned_cases:
  obtains "owned pc = {#}" | w l where "owned pc = {#(w, l)#}"
proof -
  have "owned_site s = {#} \<or> (\<exists>w l. owned_site s = {#(w, l)#})" for s
    by (cases s rule: owned_site.cases) auto
  then have "owned pc = {#} \<or> (\<exists>w l. owned pc = {#(w, l)#})"
    by (cases pc) auto
  then show thesis
    using that by blast
qed

lemma run_keys_unowned:
  assumes "checkout_step S i p pc = (p', pc')" and "owned pc = {#}"
  shows "keys (channels p') = keys (channels p) + owned pc'"
  using assms
  by (cases pc)
    (auto simp: step_simps keys_def elim!: owned_site.elims dest: burst_gate_Some split: step_splits)

lemma run_keys:
  assumes "checkout_step S i p pc = (p', pc')" and "channels_ok p"
    and "owned pc \<subseteq># keys (channels p)"
  shows "keys (channels p') + owned pc = keys (channels p) + owned pc'"
proof (cases pc rule: owned_cases)
  case 1
  then show ?thesis
    using run_keys_unowned [OF assms(1)] by simp
next
  case (2 w l)
  then show ?thesis
    using run_keys_owner [OF assms(1,2)] assms(3) by simp
qed

section \<open>Connections are neither duplicated nor forgotten\<close>

text \<open>The connections a task and the pool hold together.\<close>

definition held :: "'s pool \<Rightarrow> checkout_pc \<Rightarrow> object_inner multiset" where
  "held p pc = pool_conns p + objs pc"

definition created_ids :: "ck_input \<Rightarrow> checkout_pc \<Rightarrow> nat multiset" where
  "created_ids i pc = (case (pc, ck_create i) of (Create _, Created x) \<Rightarrow> {#oid x#} | _ \<Rightarrow> {#})"

lemma messages_simps [simp]:
  "messages [] = []"
  "messages (c # cs) = (case ch_msg c of None \<Rightarrow> messages cs | Some x \<Rightarrow> x # messages cs)"
  "messages (xs @ ys) = messages xs @ messages ys"
  by (auto simp: messages_def List.map_filter_def split: option.splits)

lemma messages_mark [simp]:
  "messages (map (\<lambda>c. if ch_id c = w then c\<lparr>ch_late := True\<rparr> else c) chs) = messages chs"
  by (induction chs) (auto split: option.splits)

lemma messages_filter_split:
  "mset (messages chs) = mset (messages (filter P chs)) + mset (messages (filter (\<lambda>c. \<not> P c) chs))"
  by (induction chs) (auto split: option.splits)

lemma received_in:
  assumes "distinct (map ch_id (channels p))"
  shows "mset (messages (filter (\<lambda>c. ch_id c = w) (channels p)))
    = (case received w p of Some x \<Rightarrow> {#x#} | None \<Rightarrow> {#})"
proof -
  have "length (filter (\<lambda>c. ch_id c = w) chs) \<le> 1" if "distinct (map ch_id chs)" for chs :: "channel list"
    using that by (induction chs) (auto simp: filter_empty_conv image_iff)
  from this [OF assms] show ?thesis
    by (cases "filter (\<lambda>c. ch_id c = w) (channels p)")
      (auto simp: received_def split: option.splits)
qed

lemma consume_conns:
  assumes "channels_ok p" and "received w p = Some x"
  shows "mset (messages (channels p)) = add_mset x (mset (messages (filter (\<lambda>c. ch_id c \<noteq> w) (channels p))))"
  using messages_filter_split [of "channels p" "\<lambda>c. ch_id c = w"] received_in [of p w] assms
  by (simp add: channels_ok_def)

text \<open>The channels after their receiver (if any) is dropped, and the connections destroyed by it.\<close>

definition close_opt :: "nat option \<Rightarrow> channel list \<Rightarrow> channel list" where
  "close_opt ch chs = (case ch of None \<Rightarrow> chs | Some w \<Rightarrow> filter (\<lambda>c. ch_id c \<noteq> w) chs)"

definition lost_in :: "nat option \<Rightarrow> channel list \<Rightarrow> object_inner list" where
  "lost_in ch chs =
     (case ch of None \<Rightarrow> [] | Some w \<Rightarrow> messages (filter (\<lambda>c. ch_id c = w) chs))"

lemma drop_receiver_eq [simp]:
  "channels (drop_receiver S ch p) = close_opt ch (channels p)"
  "lost (drop_receiver S ch p) = lost p + length (lost_in ch (channels p))"
  by (simp_all add: drop_receiver_def close_opt_def lost_in_def Let_def split: option.splits)

lemma close_opt_messages:
  "mset (messages chs) = mset (messages (close_opt ch chs)) + mset (lost_in ch chs)"
  using messages_filter_split [of chs "\<lambda>c. ch_id c \<noteq> the ch"]
  by (simp add: close_opt_def lost_in_def split: option.splits)

lemma close_opt_messages_simps [simp]:
  "length (messages (close_opt ch chs)) + length (lost_in ch chs) = length (messages chs)"
  "image_mset f (mset (messages (close_opt ch chs))) \<subseteq># image_mset f (mset (messages chs))"
  "image_mset f (mset (messages (close_opt ch chs)))
     \<subseteq># add_mset y (image_mset f (mset (messages chs)))"
proof -
  note eq = close_opt_messages [of chs ch]
  show "length (messages (close_opt ch chs)) + length (lost_in ch chs) = length (messages chs)"
    using arg_cong [OF eq, of size] by (simp only: size_mset size_union)
  show sub: "image_mset f (mset (messages (close_opt ch chs))) \<subseteq># image_mset f (mset (messages chs))"
    unfolding eq by simp
  show "image_mset f (mset (messages (close_opt ch chs)))
     \<subseteq># add_mset y (image_mset f (mset (messages chs)))"
    unfolding eq by (metis image_mset_union mset_subset_eq_add_left union_mset_add_mset_right)
qed

lemma burst_gate_iff:
  "try_acquire_burst_gate p = Some p' \<longleftrightarrow>
     inflight_creates p < cfg_max_parallel_creates p \<and>
     p' = p\<lparr>inflight_creates := Suc (inflight_creates p),
            stats := (stats p)\<lparr>creates_started := creates_started (stats p) + 1\<rparr>\<rparr>"
  by (auto simp: try_acquire_burst_gate_def try_take_burst_slot_def Let_def split: if_splits)

lemmas run_simps = leave_def checked_out_def fail_with_def consume_def register_def
  mark_late_def drop_gate_def count_fallback_def set_size_def create_connection_def
  semaphore_wait_def after_none_def after_reused_def Let_def burst_gate_iff

lemma push_idle_mset [simp]: "mset (push_idle m xs x) = add_mset x (mset xs)"
  by (cases m) (simp_all add: push_idle_def)

lemma length_push_idle [simp]: "length (push_idle m xs x) = Suc (length xs)"
  by (cases m) (simp_all add: push_idle_def)

text \<open>The connections after a step: none new except one that was created.\<close>

lemma run_ids:
  assumes "checkout_step S i p pc = (p', pc')" and "channels_ok p"
  shows "image_mset oid (held p' pc') \<subseteq># image_mset oid (held p pc) + created_ids i pc"
  using assms
  by (cases pc)
    (auto simp: held_def pool_conns_def created_ids_def consume_conns run_simps
      split: step_splits)

text \<open>The size counter follows the connections, and a connection lost in a channel stays counted.\<close>

lemma run_size:
  assumes "checkout_step S i p pc = (p', pc')" and "channels_ok p"
    and "size (objs pc) \<le> slots_size (slots_of p)"
  shows "slots_size (slots_of p') + (size (held p pc) + lost p)
    = slots_size (slots_of p) + (size (held p' pc') + lost p')"
  using assms
  by (cases pc)
    (auto simp: held_def pool_conns_def run_simps dest: arg_cong [OF consume_conns, of _ _ _ size]
      split: step_splits)

section \<open>The pool stays within its size\<close>

abbreviation open_msgs :: "channel list \<Rightarrow> nat" where
  "open_msgs chs \<equiv> length (messages (filter (\<lambda>c. \<not> ch_late c) chs))"

lemma open_msgs_close [simp]: "open_msgs (close_opt ch chs) \<le> open_msgs chs"
  by (induction chs) (auto simp: close_opt_def split: option.splits)

lemma open_msgs_mark [simp]:
  "open_msgs (map (\<lambda>c. if ch_id c = w then c\<lparr>ch_late := True\<rparr> else c) chs) \<le> open_msgs chs"
  by (induction chs) (auto split: option.splits)

lemma open_msgs_consume:
  assumes "channels_ok p" and "(w, False) \<in># keys (channels p)" and "received w p = Some x"
  shows "open_msgs (channels p) = Suc (open_msgs (filter (\<lambda>c. ch_id c \<noteq> w) (channels p)))"
proof -
  have d: "distinct (map ch_id (channels p))"
    using assms(1) by (simp add: channels_ok_def)
  obtain xs c ys where sp: "channels p = xs @ c # ys" "ch_id c = w" "\<not> ch_late c"
    "\<forall>x \<in> set xs \<union> set ys. ch_id x \<noteq> w"
    using channel_split [OF d assms(2)] by metis
  note f = split_channels_simps(1,2) [OF sp(4,2)]
  have "ch_msg c = Some x"
    using assms(3) f(2) by (simp add: received_def sp(1))
  then show ?thesis
    using sp(3) f(1) by (simp add: sp(1))
qed

lemma run_usable:
  assumes "checkout_step S i p pc = (p', pc')" and "channels_ok p"
    and "owned pc \<subseteq># keys (channels p)"
  shows "usable p' + size (objs pc') + commits pc'
    \<le> usable p + size (objs pc) + commits pc
      + of_bool ((\<exists>s. pc = TryPop s) \<and> slots_vec (slots_of p) = [])"
proof -
  have c: "open_msgs (channels p) = Suc (open_msgs (filter (\<lambda>c. ch_id c \<noteq> w) (channels p)))"
    if "owned pc = {#(w, False)#}" "received w p = Some x" for w x
    using open_msgs_consume [OF assms(2) _ that(2)] assms(3) that(1) by simp
  have le: "a + open_msgs (close_opt ch chs) \<le> a + open_msgs chs"
    "open_msgs (close_opt ch chs) \<le> Suc (open_msgs chs)"
    for a ch chs
    using open_msgs_close [of ch chs] by (simp_all add: le_SucI)
  show ?thesis
    using assms(1) c
    by (cases pc) (auto simp: usable_def run_simps le le_SucI split: step_splits)
qed

text \<open>Every task covers what it owns by its semaphore permit.\<close>

lemma covered_by_permit:
  "size (filter_mset (\<lambda>k. \<not> snd k) (owned pc)) + size (objs pc) + commits pc \<le> permit_held pc"
proof -
  have *: "filter_mset (\<lambda>k. \<not> snd k) (owned_site s) = {#}" for s
    by (cases s rule: owned_site.cases) auto
  show ?thesis
    by (cases pc rule: objs.cases) (simp_all add: *)
qed

lemma covered_sum:
  "size (filter_mset (\<lambda>k. \<not> snd k) (sum_mset (image_mset owned ts)))
     + sum_mset (image_mset (\<lambda>pc. size (objs pc) + commits pc) ts)
   \<le> sum_mset (image_mset permit_held ts)"
proof (induction ts)
  case (add pc ts)
  then show ?case
    using covered_by_permit [of pc] by simp
qed simp

lemma open_msgs_le_keys: "open_msgs chs \<le> size (filter_mset (\<lambda>k. \<not> snd k) (keys chs))"
  by (induction chs) (auto simp: keys_def split: option.splits)

text \<open>Handing a connection to a waiter.\<close>

lemma deliver_open:
  assumes "distinct (map ch_id chs)" and "receiver_open w chs"
  shows "keys (deliver w x chs) = keys chs" and "map ch_id (deliver w x chs) = map ch_id chs"
    and "mset (messages (deliver w x chs)) = add_mset x (mset (messages chs))"
    and "open_msgs (deliver w x chs) \<le> Suc (open_msgs chs)"
proof -
  obtain c0 where c0: "c0 \<in> set chs" "ch_id c0 = w" "ch_msg c0 = None"
    using assms(2) by (auto simp: receiver_open_def)
  then have "(w, ch_late c0) \<in># keys chs"
    by (auto simp: keys_def)
  then obtain xs c ys where sp: "chs = xs @ c # ys" "ch_id c = w"
    "\<forall>x \<in> set xs \<union> set ys. ch_id x \<noteq> w"
    using channel_split [OF assms(1)] by metis
  with c0 have c: "ch_msg c = None"
    by auto
  note d = split_channels_simps(4) [OF sp(3,2), of x, folded sp(1)]
  show "keys (deliver w x chs) = keys chs" and "map ch_id (deliver w x chs) = map ch_id chs"
    and "mset (messages (deliver w x chs)) = add_mset x (mset (messages chs))"
    and "open_msgs (deliver w x chs) \<le> Suc (open_msgs chs)"
    unfolding d using sp(1) c by (simp_all add: keys_def)
qed

lemma handoff_spec:
  assumes "handoff ws x chs = (b, ws', chs')" and "distinct (map ch_id chs)"
  shows "keys chs' = keys chs" and "map ch_id chs' = map ch_id chs"
    and "b \<Longrightarrow> mset (messages chs') = add_mset x (mset (messages chs))"
    and "b \<Longrightarrow> open_msgs chs' \<le> Suc (open_msgs chs)"
    and "\<not> b \<Longrightarrow> chs' = chs"
  using assms by (induction ws arbitrary: ws') (auto simp: deliver_open split: if_splits)

lemma drop_object_spec:
  assumes "drop_object S mode now y sl chs sem = (sl', chs', sem', gone)"
    and "distinct (map ch_id chs)" and "semaphore_laws S"
  shows "keys chs' = keys chs" and "map ch_id chs' = map ch_id chs"
    and "slots_max_size sl' = slots_max_size sl"
    and "sem_available S sem' = Suc (sem_available S sem)"
    and "length (slots_vec sl') + open_msgs chs' \<le> Suc (length (slots_vec sl) + open_msgs chs)"
    and "gone \<noteq> None \<Longrightarrow> slots_vec sl' = slots_vec sl \<and> chs' = chs
           \<and> slots_size sl' = slots_size sl - 1"
    and "gone = None \<Longrightarrow> slots_size sl' = slots_size sl
           \<and> image_mset oid (mset (slots_vec sl') + mset (messages chs'))
             = add_mset (oid y) (image_mset oid (mset (slots_vec sl) + mset (messages chs)))"
  using assms
  by (auto simp: drop_object_def return_object_def Let_def dest: handoff_spec split: if_splits prod.splits bool.splits)

section \<open>Maintenance keeps the books\<close>

lemma enumerate_partition:
  "mset (map snd (filter (\<lambda>(k, _). k \<in> A) (enumerate n xs)))
     + mset (map snd (filter (\<lambda>(k, _). k \<notin> A) (enumerate n xs))) = mset xs"
  by (induction xs arbitrary: n) auto

text \<open>What every maintenance function does to the slots.\<close>

definition evicts :: "slots \<Rightarrow> object_inner list \<times> slots \<Rightarrow> bool" where
  "evicts sl r \<longleftrightarrow>
     mset (slots_vec sl) = mset (fst r) + mset (slots_vec (snd r))
     \<and> slots_size (snd r) = usub (slots_size sl) (length (fst r))
     \<and> slots_max_size (snd r) = slots_max_size sl
     \<and> slots_waiters (snd r) = slots_waiters sl"

lemma evict_where_evicts: "evicts sl (evict_where f sl)"
  using mset_filter_split [of f "slots_vec sl"]
  by (simp add: evicts_def evict_where_def Let_def usub_def del: mset_filter)

lemma retain_oldest_evicts: "evicts sl (retain_oldest_first f now n sl)"
  using evict_where_evicts [of sl]
    enumerate_partition [of _ 0 "slots_vec sl"]
  by (simp add: retain_oldest_first_def Let_def) (simp add: evicts_def usub_def)

lemma maintenance_evicts:
  "evicts sl (retain f sl)" "evicts sl (close_idle_reserve_connections now ms sl)"
  "evicts sl (evict_one_idle now ms sl)"
  by (simp_all add: retain_def close_idle_reserve_connections_def evict_one_idle_def
      evict_where_evicts retain_oldest_evicts)

lemma upgrade_loop_spec:
  assumes "upgrade_loop S xs c = (n, ys, c')"
  shows "map oid ys = map oid xs" and "map obj ys = map obj xs"
    and "map obj_metrics ys = map obj_metrics xs"
  using assms
  by (induction xs arbitrary: n ys c) (auto simp: Let_def split: if_splits prod.splits bool.splits)

definition pool_inv :: "'s semaphore_ops \<Rightarrow> 's pool_sys \<Rightarrow> bool" where
  "pool_inv S s \<longleftrightarrow>
     sem_available S (semaphore (pool_of s)) + sum_mset (image_mset permit_held (tasks s))
       = slots_max_size (slots_of (pool_of s))
     \<and> slots_size (slots_of (pool_of s)) = size (conns s) + lost (pool_of s)
     \<and> (\<forall>n. count (image_mset oid (conns s)) n \<le> 1)
     \<and> keys (channels (pool_of s)) = sum_mset (image_mset owned (tasks s))
     \<and> channels_ok (pool_of s)
     \<and> inflight_creates (pool_of s) = sum_mset (image_mset gate_held (tasks s))
     \<and> usable (pool_of s) + sum_mset (image_mset (\<lambda>pc. size (objs pc) + commits pc) (tasks s))
         \<le> slots_max_size (slots_of (pool_of s))"

section \<open>The invariant\<close>

lemma pool_inv_start:
  assumes "semaphore_laws S"
  shows "pool_inv S (pool_start (new_pool S n mode fr mp wt c name user))"
  using assms
  by (simp add: pool_inv_def pool_start_def new_pool_def conns_def pool_conns_def keys_def
      channels_ok_def usable_def)

lemma inv_run_usable:
  assumes inv: "pool_inv S s" and t: "tasks s = add_mset pc ts"
    and st: "checkout_step S i (pool_of s) pc = (p, pc')"
  shows "usable p + sum_mset (image_mset (\<lambda>pc. size (objs pc) + commits pc) (add_mset pc' ts))
    \<le> slots_max_size (slots_of p)"
proof -
  let ?P = "pool_of s"
  let ?O = "sum_mset (image_mset (\<lambda>pc. size (objs pc) + commits pc) ts)"
  have ok: "channels_ok ?P" and keys: "keys (channels ?P) = owned pc + sum_mset (image_mset owned ts)"
    and bound: "usable ?P + (size (objs pc) + commits pc + ?O) \<le> slots_max_size (slots_of ?P)"
    and perm: "permit_held pc + sum_mset (image_mset permit_held ts) \<le> slots_max_size (slots_of ?P)"
    using inv t by (auto simp: pool_inv_def)
  note step = run_usable [OF st ok, unfolded keys, OF mset_subset_eq_add_left]
  note max = run_max_size [OF st]
  show ?thesis
  proof (cases "(\<exists>s. pc = TryPop s) \<and> slots_vec (slots_of ?P) = []")
    case True
    then obtain s' where pc: "pc = TryPop s'" and empty: "slots_vec (slots_of ?P) = []"
      by blast
    have "usable ?P \<le> size (filter_mset (\<lambda>k. \<not> snd k) (keys (channels ?P)))"
      using open_msgs_le_keys [of "channels ?P"] empty by (simp add: usable_def)
    also have "\<dots> \<le> permit_held pc - 1 + size (filter_mset (\<lambda>k. \<not> snd k) (sum_mset (image_mset owned ts)))"
      using keys covered_by_permit [of pc] pc by (cases s' rule: owned_site.cases) simp_all
    finally have "usable ?P + ?O + 1 \<le> permit_held pc + sum_mset (image_mset permit_held ts)"
      using covered_sum [of ts] pc by simp
    then show ?thesis
      using step perm max pc empty by simp
  next
    case False
    then show ?thesis
      using step bound max by auto
  qed
qed

lemma inv_run:
  assumes laws: "semaphore_laws S" and inv: "pool_inv S s" and t: "tasks s = add_mset pc ts"
    and fresh: "fresh_create i s" and st: "checkout_step S i (pool_of s) pc = (p, pc')"
  shows "pool_inv S \<lparr>pool_of = p, tasks = add_mset pc' ts\<rparr>"
proof -
  let ?P = "pool_of s"
  let ?s' = "\<lparr>pool_of = p, tasks = add_mset pc' ts\<rparr>"
  let ?others = "sum_mset (image_mset objs ts)"
  have ok: "channels_ok ?P" and keys: "keys (channels ?P) = owned pc + sum_mset (image_mset owned ts)"
    using inv t by (auto simp: pool_inv_def)
  have conns: "conns s = held ?P pc + ?others" and conns': "conns ?s' = held p pc' + ?others"
    using t by (simp_all add: conns_def held_def)
  have sz: "slots_size (slots_of ?P) = size (held ?P pc) + size ?others + lost ?P"
    using inv by (simp add: pool_inv_def conns)
  have "size (objs pc) \<le> slots_size (slots_of ?P)"
    using sz by (simp add: held_def)
  from run_size [OF st ok this] have size': "slots_size (slots_of p) = size (conns ?s') + lost p"
    unfolding conns' using sz by simp
  have keys': "keys (channels p) = owned pc' + sum_mset (image_mset owned ts)"
    using run_keys [OF st ok, unfolded keys, OF mset_subset_eq_add_left]
    by (simp add: add.commute add.left_commute)
  have "count (image_mset oid (conns ?s')) n \<le> 1" for n
  proof -
    have "count (image_mset oid (conns ?s')) n
        \<le> count (image_mset oid (conns s)) n + count (created_ids i pc) n"
      using mset_subset_eq_count [OF run_ids [OF st ok], of n] unfolding conns conns' by simp
    moreover have "count (image_mset oid (conns s)) n = 0" if "count (created_ids i pc) n \<noteq> 0"
      using that fresh
      by (auto simp: created_ids_def fresh_create_def count_eq_zero_iff split: checkout_pc.splits create_result.splits if_splits)
    moreover have "count (created_ids i pc) n \<le> 1"
      by (auto simp: created_ids_def split: checkout_pc.splits create_result.splits)
    moreover have "count (image_mset oid (conns s)) n \<le> 1"
      using inv unfolding pool_inv_def by blast
    ultimately show ?thesis
      by (cases "count (created_ids i pc) n = 0") auto
  qed
  moreover have "inflight_creates p = gate_held pc' + sum_mset (image_mset gate_held ts)"
    using run_gate [OF st] inv t by (simp add: pool_inv_def)
  ultimately show ?thesis
    using inv t size' keys' run_channels_ok [OF st ok] run_semaphore [OF laws st] run_max_size [OF st]
      inv_run_usable [OF inv t st] by (simp add: pool_inv_def)
qed

lemma inv_give_back:
  assumes laws: "semaphore_laws S" and inv: "pool_inv S s"
    and t: "tasks s = add_mset (Finished (Inr x)) ts" and y: "oid y = oid x"
    and d: "drop_object S (cfg_queue_mode (pool_of s)) now y (slots_of (pool_of s))
      (channels (pool_of s)) (semaphore (pool_of s)) = (sl, chs, sem, gone)"
  shows "pool_inv S \<lparr>pool_of = (pool_of s)\<lparr>slots_of := sl, channels := chs, semaphore := sem,
      coord := c\<rparr>, tasks = ts\<rparr>" (is "pool_inv S ?s'")
proof -
  let ?P = "pool_of s"
  let ?others = "sum_mset (image_mset objs ts)"
  have ok: "distinct (map ch_id (channels ?P))"
    using inv by (simp add: pool_inv_def channels_ok_def)
  note sp = drop_object_spec [OF d ok laws]
  have conns: "conns s = add_mset x (pool_conns ?P + ?others)"
    using t by (simp add: conns_def)
  have sz: "slots_size (slots_of ?P) = Suc (size (pool_conns ?P + ?others)) + lost ?P"
    using inv by (simp add: pool_inv_def conns)
  have chs: "channels_ok (pool_of ?s')"
    using inv sp(2) unfolding pool_inv_def channels_ok_def
    by (simp flip: map_eq_conv) (metis (no_types, lifting) image_iff list.set_map)
  have ids: "image_mset oid (conns ?s') \<subseteq># image_mset oid (conns s)"
    and size': "slots_size sl = size (conns ?s') + lost ?P"
  proof -
    consider (evicted) "gone \<noteq> None" | (returned) "gone = None" by blast
    then show "image_mset oid (conns ?s') \<subseteq># image_mset oid (conns s)"
      by cases (use sp(6,7) y in \<open>auto simp: t conns_def pool_conns_def\<close>)
    show "slots_size sl = size (conns ?s') + lost ?P"
    proof (cases gone)
      case None
      then have "image_mset oid (conns ?s') = image_mset oid (conns s)"
        using sp(7) y by (simp add: t conns_def pool_conns_def)
      then have "size (conns ?s') = size (conns s)"
        by (metis size_image_mset)
      then show ?thesis
        using sp(7) None sz conns by simp
    qed (use sp(6) sz in \<open>simp add: conns_def pool_conns_def\<close>)
  qed
  have "count (image_mset oid (conns ?s')) n \<le> 1" for n
    using mset_subset_eq_count [OF ids, of n] inv le_trans unfolding pool_inv_def by blast
  then show ?thesis
    using inv t sp(1,3,4,5) size' chs by (simp add: pool_inv_def usable_def)
qed

lemma inv_evict:
  assumes inv: "pool_inv S s" and e: "evicts (slots_of (pool_of s)) r"
  shows "pool_inv S (s\<lparr>pool_of := apply_maintenance S r (pool_of s)\<rparr>)" (is "pool_inv S ?s'")
proof -
  have vec: "mset (slots_vec (slots_of (pool_of s))) = mset (fst r) + mset (slots_vec (snd r))"
    using e by (simp add: evicts_def)
  then have conns: "conns s = mset (fst r) + conns ?s'"
    by (simp add: conns_def pool_conns_def apply_maintenance_def)
  have len: "length (slots_vec (slots_of (pool_of s))) = length (fst r) + length (slots_vec (snd r))"
    using arg_cong [OF vec, of size] by simp
  have "size (conns s) = length (fst r) + size (conns ?s')"
    using conns by simp
  then have size': "slots_size (snd r) = size (conns ?s') + lost (pool_of s)"
    using inv e by (simp add: pool_inv_def evicts_def usub_def)
  have "count (image_mset oid (conns ?s')) n \<le> 1" for n
  proof -
    have "count (image_mset oid (conns s)) n
        = count (image_mset oid (mset (fst r))) n + count (image_mset oid (conns ?s')) n"
      unfolding conns by simp
    moreover have "count (image_mset oid (conns s)) n \<le> 1"
      using inv unfolding pool_inv_def by blast
    ultimately show ?thesis by linarith
  qed
  moreover have "channels_ok (apply_maintenance S r (pool_of s))"
    using inv by (simp add: pool_inv_def apply_maintenance_def)
  ultimately show ?thesis
    using inv e size' len
    by (simp add: pool_inv_def evicts_def usable_def apply_maintenance_def)
qed

lemma inv_upgrade:
  assumes inv: "pool_inv S s"
    and u: "upgrade_reserve_to_main S (slots_of (pool_of s)) (coord (pool_of s)) = (n, sl, c)"
  shows "pool_inv S (s\<lparr>pool_of := (pool_of s)\<lparr>slots_of := sl, coord := c\<rparr>\<rparr>)" (is "pool_inv S ?s'")
proof -
  obtain ys where sl: "sl = (slots_of (pool_of s))\<lparr>slots_vec := ys\<rparr>"
    and ids: "map oid ys = map oid (slots_vec (slots_of (pool_of s)))"
  proof (cases "coord (pool_of s)")
    case None
    with u that [of "slots_vec (slots_of (pool_of s))"] show thesis
      by (simp add: upgrade_reserve_to_main_def)
  next
    case (Some c1)
    with u that show thesis
      by (auto simp: upgrade_reserve_to_main_def Let_def dest: upgrade_loop_spec(1)
          split: prod.splits)
  qed
  have eq: "image_mset oid (conns ?s') = image_mset oid (conns s)"
    using arg_cong [OF ids, of mset] sl by (simp add: conns_def pool_conns_def)
  then have "size (conns ?s') = size (conns s)"
    by (metis size_image_mset)
  moreover have "length ys = length (slots_vec (slots_of (pool_of s)))"
    using arg_cong [OF ids, of length] by simp
  ultimately show ?thesis
    using inv eq sl by (simp add: pool_inv_def usable_def)
qed

lemma pool_inv_step:
  assumes "pool_step S s s'" and "semaphore_laws S" and "pool_inv S s"
  shows "pool_inv S s'"
  using assms(1)
proof cases
  case spawn
  then show ?thesis
    using assms(3) by (simp add: pool_inv_def conns_def)
next
  case (run pc ts i p pc')
  then show ?thesis
    using inv_run [OF assms(2,3)] by simp
next
  case (give_back x ts y now sl chs sem gone)
  then show ?thesis
    using inv_give_back [OF assms(2,3)] by simp
next
  case (give_up e ts)
  then show ?thesis
    using assms(3) by (simp add: pool_inv_def conns_def)
next
  case (do_upgrade n sl c)
  then show ?thesis
    using inv_upgrade [OF assms(3)] by simp
next
  case (peer_pools c)
  then show ?thesis
    using assms(3) by (simp add: pool_inv_def conns_def pool_conns_def usable_def)
qed (simp_all add: inv_evict [OF assms(3)] maintenance_evicts retain_oldest_evicts)

lemma pool_inv_reachable:
  assumes "pool_steps S (pool_start (new_pool S n mode fr mp wt c name user)) s"
    and "semaphore_laws S"
  shows "pool_inv S s"
  using assms(1)
  by induction (auto intro: pool_inv_start pool_inv_step assms(2))

section \<open>Executing schedules\<close>

text \<open>
  A schedule names the task that moves and the answers it gets. Executing it yields a run of
  \<open>pool_step\<close>; the examples below are obtained that way.
\<close>

datatype action = Spawn | Run nat ck_input | GiveBack nat nat

definition obj_ids :: "'s pool \<Rightarrow> checkout_pc list \<Rightarrow> nat list" where
  "obj_ids p pcs = map oid (slots_vec (slots_of p) @ messages (channels p))
     @ concat (map (\<lambda>pc. case pc of Checking _ x \<Rightarrow> [oid x] | HandoffCheck _ x \<Rightarrow> [oid x]
         | Finished (Inr x) \<Rightarrow> [oid x] | _ \<Rightarrow> []) pcs)"

definition is_fresh :: "ck_input \<Rightarrow> 's pool \<Rightarrow> checkout_pc list \<Rightarrow> bool" where
  "is_fresh i p pcs = (case ck_create i of Created x \<Rightarrow> oid x \<notin> set (obj_ids p pcs) | _ \<Rightarrow> True)"

fun act :: "'s semaphore_ops \<Rightarrow> action \<Rightarrow> 's pool \<times> checkout_pc list
    \<Rightarrow> ('s pool \<times> checkout_pc list) option" where
  "act S Spawn (p, pcs) = Some (p, pcs @ [CkStart])"
| "act S (Run k i) (p, pcs) =
     (if k < length pcs \<and> is_fresh i p pcs
      then (let (p', pc') = checkout_step S i p (pcs ! k) in Some (p', pcs[k := pc']))
      else None)"
| "act S (GiveBack k now) (p, pcs) =
     (if k < length pcs
      then (case pcs ! k of
          Finished (Inr x) \<Rightarrow>
            (case drop_object S (cfg_queue_mode p) now x (slots_of p) (channels p) (semaphore p) of
               (sl, chs, sem, gone) \<Rightarrow>
                 Some (p\<lparr>slots_of := sl, channels := chs, semaphore := sem,
                   coord := drop_objects S (case gone of Some g \<Rightarrow> [g] | None \<Rightarrow> []) (coord p)\<rparr>,
                   take k pcs @ drop (Suc k) pcs))
        | _ \<Rightarrow> None)
      else None)"

fun exec :: "'s semaphore_ops \<Rightarrow> action list \<Rightarrow> 's pool \<times> checkout_pc list
    \<Rightarrow> ('s pool \<times> checkout_pc list) option" where
  "exec S [] st = Some st"
| "exec S (a # as) st = (case act S a st of None \<Rightarrow> None | Some st' \<Rightarrow> exec S as st')"

definition sys_of :: "'s pool \<times> checkout_pc list \<Rightarrow> 's pool_sys" where
  "sys_of st = \<lparr>pool_of = fst st, tasks = mset (snd st)\<rparr>"

lemma obj_ids_conns: "mset (obj_ids p pcs) = image_mset oid (conns (sys_of (p, pcs)))"
proof -
  have "mset (concat (map (\<lambda>pc. case pc of Checking _ x \<Rightarrow> [oid x] | HandoffCheck _ x \<Rightarrow> [oid x]
         | Finished (Inr x) \<Rightarrow> [oid x] | _ \<Rightarrow> []) pcs))
      = image_mset oid (sum_mset (image_mset objs (mset pcs)))"
    by (induction pcs) (auto split: checkout_pc.splits sum.splits)
  then show ?thesis
    by (simp add: obj_ids_def conns_def pool_conns_def sys_of_def)
qed

lemma is_fresh_iff: "is_fresh i p pcs = fresh_create i (sys_of (p, pcs))"
  by (auto simp: is_fresh_def fresh_create_def split: create_result.splits
      simp flip: obj_ids_conns set_mset_mset)

lemma act_step:
  assumes "act S a st = Some st'"
  shows "pool_step S (sys_of st) (sys_of st')"
  using assms
proof (induction S a st rule: act.induct)
  case (1 S p pcs)
  then show ?case
    using spawn [of S "sys_of (p, pcs)"] by (auto simp: sys_of_def)
next
  case (2 S k i p pcs)
  then have k: "k < length pcs" and f: "fresh_create i (sys_of (p, pcs))"
    by (auto simp: is_fresh_iff split: if_splits)
  obtain p' pc' where st: "checkout_step S i p (pcs ! k) = (p', pc')" by fastforce
  have "tasks (sys_of (p, pcs)) = add_mset (pcs ! k) (mset pcs - {#pcs ! k#})"
    using k by (simp add: sys_of_def)
  from run [OF this f, of S p' pc'] st
  have "pool_step S (sys_of (p, pcs)) (sys_of (p', pcs[k := pc']))"
    using k by (simp add: sys_of_def mset_update)
  moreover have "st' = (p', pcs[k := pc'])"
    using 2 k f st by (simp add: is_fresh_iff)
  ultimately show ?case by simp
next
  case (3 S k now p pcs)
  then have k: "k < length pcs" and "\<exists>x. pcs ! k = Finished (Inr x)"
    by (auto split: if_splits checkout_pc.splits sum.splits)
  then obtain x where x: "pcs ! k = Finished (Inr x)" by blast
  have "mset pcs = add_mset (pcs ! k) (mset (take k pcs @ drop (Suc k) pcs))"
    using id_take_nth_drop [OF k] by (metis mset_append mset.simps(2) union_mset_add_mset_right)
  then have t: "tasks (sys_of (p, pcs)) = add_mset (Finished (Inr x)) (mset (take k pcs @ drop (Suc k) pcs))"
    using x by (simp add: sys_of_def)
  obtain sl chs sem gone where d: "drop_object S (cfg_queue_mode p) now x (slots_of p) (channels p)
      (semaphore p) = (sl, chs, sem, gone)"
    by (metis prod_cases4)
  show ?case
    using give_back [OF t, of x S now sl chs sem gone] d 3 k x by (auto simp: sys_of_def)
qed

lemma exec_steps:
  assumes "exec S as st = Some st'"
  shows "pool_steps S (sys_of st) (sys_of st')"
  using assms
proof (induction S as st rule: exec.induct)
  case (2 S a as st)
  then show ?case
    by (auto split: option.splits intro: converse_rtranclp_into_rtranclp act_step)
qed simp

definition tick :: ck_input where
  "tick = \<lparr>ck_now = 0, ck_paused = False, ck_resumed = False, ck_timer = False,
     ck_recycle_ok = True, ck_warm_threshold = 3, ck_elapsed = 0, ck_over_budget = False,
     ck_create = CreateFailed, ck_acquire = quiet_input 0\<rparr>"

definition conn :: "nat \<Rightarrow> object_inner" where
  "conn n = \<lparr>obj = \<lparr>srv_id = n, srv_bad = False, srv_pending_large_message = False,
       srv_override_lifetime_ms = None\<rparr>,
     obj_metrics = new_metrics 0 0 0 0 0 0, obj_permit = None\<rparr>"

definition pool3 :: "(nat \<times> bool) pool" where
  "pool3 = new_pool counting_semaphore 3 Fifo 0 1 None None ''db'' ''u''"

text \<open>Two clients check out one new connection each.\<close>

definition two_clients :: "action list" where
  "two_clients = Spawn # replicate 8 (Run 0 tick) @ [Run 0 (tick\<lparr>ck_create := Created (conn 1)\<rparr>)]
     @ Spawn # replicate 8 (Run 1 tick) @ [Run 1 (tick\<lparr>ck_create := Created (conn 2)\<rparr>)]"

lemma two_clients_exec:
  "map_option snd (exec counting_semaphore two_clients (pool3, []))
     = Some [Finished (Inr (conn 1)), Finished (Inr (conn 2))]"
  by code_simp

text \<open>
  One client holds a connection, a second is creating one and keeps the burst gate, a third waits
  at the gate, is woken by its timer and looks into its channel for the last time; then the first
  gives its connection back and the third retries the idle queue.
\<close>

definition late_handoff :: "action list" where
  "late_handoff = Spawn # replicate 8 (Run 0 tick) @ [Run 0 (tick\<lparr>ck_create := Created (conn 1)\<rparr>)]
     @ Spawn # replicate 8 (Run 1 tick)
     @ Spawn # replicate 10 (Run 2 tick) @ [Run 2 (tick\<lparr>ck_timer := True\<rparr>), Run 2 tick]
     @ [GiveBack 0 0, Run 1 tick]"

lemma late_handoff_exec:
  "map_option (\<lambda>(p, pcs). (lost p, slots_size (slots_of p), slots_vec (slots_of p),
       channels p, pcs)) (exec counting_semaphore late_handoff (pool3, []))
     = Some (1, 1, [], [], [Create None, GateTry None])"
  by code_simp

lemma exec_reachable:
  assumes "exec counting_semaphore as (pool3, []) = Some st"
  shows "pool_steps counting_semaphore (pool_start pool3) (sys_of st)"
  using exec_steps [OF assms] by (simp add: sys_of_def pool_start_def)

lemma two_clients_reachable:
  obtains s where "pool_steps counting_semaphore (pool_start pool3) s"
    and "tasks s = {#Finished (Inr (conn 1)), Finished (Inr (conn 2))#}"
proof -
  obtain p where "exec counting_semaphore two_clients (pool3, [])
      = Some (p, [Finished (Inr (conn 1)), Finished (Inr (conn 2))])"
    using two_clients_exec by auto
  from exec_reachable [OF this] show thesis
    using that by (simp add: sys_of_def)
qed

section \<open>Properties\<close>

text \<open>
  C1. No connection is shared: in every reachable state of the pool, with any number of clients
  and any interleaving, a physical connection is in exactly one place. Two clients never hold the
  same one, and what a client holds is neither idle nor on its way to another client.
\<close>

theorem pool_exclusive:
  assumes "semaphore_laws S"
    and "pool_steps S (pool_start (new_pool S n mode fr mp wt c name user)) s"
  shows "(\<forall>k. count (image_mset oid (conns s)) k \<le> 1)
    \<and> (\<forall>x y ts. tasks s = {#Finished (Inr x), Finished (Inr y)#} + ts \<longrightarrow> oid x \<noteq> oid y)
    \<and> (\<forall>x. Finished (Inr x) \<in># tasks s \<longrightarrow>
         oid x \<notin> oid ` (set (slots_vec (slots_of (pool_of s)))
           \<union> set (messages (channels (pool_of s)))))"
proof (intro conjI allI impI)
  have one: "count (image_mset oid (conns s)) k \<le> 1" for k
    using pool_inv_reachable [OF assms(2,1)] unfolding pool_inv_def by blast
  then show "count (image_mset oid (conns s)) k \<le> 1" for k .
  show "oid x \<noteq> oid y" if "tasks s = {#Finished (Inr x), Finished (Inr y)#} + ts" for x y ts
    using one [of "oid x"] that by (auto simp: conns_def)
  show "oid x \<notin> oid ` (set (slots_vec (slots_of (pool_of s)))
      \<union> set (messages (channels (pool_of s))))" if x: "Finished (Inr x) \<in># tasks s" for x
  proof -
    obtain ts where "tasks s = add_mset (Finished (Inr x)) ts"
      using x by (meson multi_member_split)
    then have "count (image_mset oid (pool_conns (pool_of s))) (oid x) = 0"
      using one [of "oid x"] by (simp add: conns_def)
    then show ?thesis
      by (simp add: count_eq_zero_iff pool_conns_def image_Un)
  qed
qed

theorem pool_exclusive_witness: "oid (conn 1) \<noteq> oid (conn 2)"
proof -
  obtain s where r: "pool_steps counting_semaphore (pool_start pool3) s"
    and t: "tasks s = {#Finished (Inr (conn 1)), Finished (Inr (conn 2))#}"
    by (rule two_clients_reachable)
  from pool_exclusive [OF counting_semaphore_laws r [unfolded pool3_def]] t show ?thesis
    by force
qed

text \<open>
  C10. Permits are conserved: the free permits of the pool's semaphore plus those held by tasks and
  clients always equal \<^verbatim>\<open>max_size\<close>, so at most \<^verbatim>\<open>max_size\<close> clients hold a connection at any time and
  no permit leaks on any path, error and hand-off paths included.
\<close>

theorem pool_permits_conserved:
  assumes "semaphore_laws S"
    and "pool_steps S (pool_start (new_pool S n mode fr mp wt c name user)) s"
  shows "sem_available S (semaphore (pool_of s)) + sum_mset (image_mset permit_held (tasks s))
      = slots_max_size (slots_of (pool_of s))
    \<and> size (filter_mset (\<lambda>pc. \<exists>x. pc = Finished (Inr x)) (tasks s))
      \<le> slots_max_size (slots_of (pool_of s))"
proof -
  have inv: "sem_available S (semaphore (pool_of s)) + sum_mset (image_mset permit_held (tasks s))
      = slots_max_size (slots_of (pool_of s))"
    using pool_inv_reachable [OF assms(2,1)] unfolding pool_inv_def by blast
  have "size (filter_mset (\<lambda>pc. \<exists>x. pc = Finished (Inr x)) ts)
      \<le> sum_mset (image_mset permit_held ts)" for ts
    by (induction ts) auto
  then show ?thesis
    using inv le_trans le_add2 by metis
qed

theorem pool_permits_conserved_witness:
  "\<exists>s :: (nat \<times> bool) pool_sys. tasks s = {#Finished (Inr (conn 1)), Finished (Inr (conn 2))#}
     \<and> sem_available counting_semaphore (semaphore (pool_of s)) + 2
       = slots_max_size (slots_of (pool_of s))"
proof -
  obtain s where r: "pool_steps counting_semaphore (pool_start pool3) s"
    and t: "tasks s = {#Finished (Inr (conn 1)), Finished (Inr (conn 2))#}"
    by (rule two_clients_reachable)
  from pool_permits_conserved [OF counting_semaphore_laws r [unfolded pool3_def]] t
  show ?thesis by (intro exI [of _ s]) simp
qed



text \<open>
  C24. The size counter is the number of connections of the pool plus those that were destroyed
  inside a hand-off channel, on every path; without such losses it is exact.
\<close>

theorem pool_size_counter:
  assumes "semaphore_laws S"
    and "pool_steps S (pool_start (new_pool S n mode fr mp wt c name user)) s"
  shows "slots_size (slots_of (pool_of s)) = size (conns s) + lost (pool_of s)"
  using pool_inv_reachable [OF assms(2,1)] unfolding pool_inv_def by blast

theorem pool_size_counter_witness:
  "\<exists>s :: (nat \<times> bool) pool_sys. tasks s = {#Finished (Inr (conn 1)), Finished (Inr (conn 2))#}
     \<and> slots_size (slots_of (pool_of s)) \<ge> 2"
proof -
  obtain s where r: "pool_steps counting_semaphore (pool_start pool3) s"
    and t: "tasks s = {#Finished (Inr (conn 1)), Finished (Inr (conn 2))#}"
    by (rule two_clients_reachable)
  from pool_size_counter [OF counting_semaphore_laws r [unfolded pool3_def]] t
  show ?thesis by (intro exI [of _ s]) (simp add: conns_def)
qed

text \<open>
  C33. Such losses happen: a waiter at the burst gate keeps its receiver alive after its last look
  into it, while it retries the idle queue. A connection returned in that window is handed to the
  receiver and destroyed with it, and the size counter keeps counting it: the pool reports size 1
  and owns no connection.
\<close>

theorem late_handoff_loses_connection:
  "\<exists>s. pool_steps counting_semaphore (pool_start pool3) s
     \<and> conns s = {#} \<and> lost (pool_of s) = 1 \<and> slots_size (slots_of (pool_of s)) = 1"
proof -
  obtain p where e: "exec counting_semaphore late_handoff (pool3, [])
      = Some (p, [Create None, GateTry None])"
    and p: "lost p = 1" "slots_size (slots_of p) = 1" "slots_vec (slots_of p) = []"
      "channels p = []"
    using late_handoff_exec by auto
  show ?thesis
    using exec_reachable [OF e] p
    by (intro exI [of _ "sys_of (p, [Create None, GateTry None])"])
      (simp add: sys_of_def conns_def pool_conns_def)
qed

text \<open>A pool of one connection; a client holds it and a second one waits for the semaphore.\<close>

definition pool1 :: "(nat \<times> bool) pool" where
  "pool1 = new_pool counting_semaphore 1 Fifo 0 1 None None ''db'' ''u''"

definition one_waiting :: "action list" where
  "one_waiting = Spawn # replicate 8 (Run 0 tick) @ [Run 0 (tick\<lparr>ck_create := Created (conn 1)\<rparr>)]
     @ Spawn # replicate 13 (Run 1 tick)"

lemma one_waiting_exec:
  "map_option (\<lambda>(p, pcs). (status_of (users p) (slots_of p), slots_vec (slots_of p), pcs))
     (exec counting_semaphore one_waiting (pool1, []))
   = Some (\<lparr>ps_max_size = 1, ps_size = 1, ps_available = 0, ps_waiting = 0\<rparr>, [],
       [Finished (Inr (conn 1)), CkSemWait])"
  by code_simp

text \<open>
  The reported number of waiting clients is not the number of waiting clients: the user count is
  decremented when a checkout returns, so connections in use are not among the users. With the only
  connection in use and one client waiting for it, the status reports that nobody waits.
\<close>

theorem status_misses_waiting_client:
  "\<exists>s. pool_steps counting_semaphore (pool_start pool1) s
     \<and> tasks s = {#Finished (Inr (conn 1)), CkSemWait#}
     \<and> slots_vec (slots_of (pool_of s)) = []
     \<and> ps_waiting (status_of (users (pool_of s)) (slots_of (pool_of s))) = 0"
proof -
  obtain p where e: "exec counting_semaphore one_waiting (pool1, [])
      = Some (p, [Finished (Inr (conn 1)), CkSemWait])"
    and p: "status_of (users p) (slots_of p)
        = \<lparr>ps_max_size = 1, ps_size = 1, ps_available = 0, ps_waiting = 0\<rparr>"
      "slots_vec (slots_of p) = []"
    using one_waiting_exec by auto
  have "pool_steps counting_semaphore (pool_start pool1)
      (sys_of (p, [Finished (Inr (conn 1)), CkSemWait]))"
    using exec_steps [OF e] by (simp add: sys_of_def pool_start_def)
  then show ?thesis
    using p by (intro exI [of _ "sys_of (p, [Finished (Inr (conn 1)), CkSemWait])"])
      (simp add: sys_of_def)
qed

end
