(* ===== verification/Pool_Maintenance.thy ===== *)
theory Pool_Maintenance
  imports Pool_Inner
begin

text \<open>
  Work across the pools of a database: eviction for the coordinator
  (\<^verbatim>\<open>src/src/pool/eviction.rs\<close>, with \<^verbatim>\<open>compute_spare\<close> of \<^verbatim>\<open>src/src/pool/mod.rs\<close>), the periodic retain task
  (\<^verbatim>\<open>src/src/pool/retain.rs\<close>) and the removal of idle dynamic pools (\<^verbatim>\<open>src/src/pool/gc.rs\<close>).

  The global pool table \<^verbatim>\<open>POOLS\<close> is a list of identified pools in iteration order; the order is
  arbitrary, as it is for the hash map of the code. Destroyed connections are returned so that the
  coordinator permits they hold can be released.
\<close>

section \<open>The pool table\<close>

record pool_identifier =
  id_db :: string
  id_user :: string

record connection_pool =
  cp_slots :: slots
  cp_users :: nat
  cp_free_permits :: nat
  cp_paused :: bool
  cp_init_complete :: bool
  cp_min_pool_size :: "nat option"
  cp_min_guaranteed :: nat
  cp_p95_xact_time_us :: u64
  cp_coordinator_lifetime_ms :: "u64 option"

type_synonym pools = "(pool_identifier \<times> connection_pool) list"

definition compute_spare :: "nat \<Rightarrow> nat option \<Rightarrow> nat \<Rightarrow> nat" where
  "compute_spare current_pool_size user_min_pool_size pool_min_guaranteed =
     (let user_min = (case user_min_pool_size of Some n \<Rightarrow> n | None \<Rightarrow> 0);
          effective_min = max user_min pool_min_guaranteed
      in current_pool_size - effective_min)"

definition spare_above_min :: "connection_pool \<Rightarrow> nat" where
  "spare_above_min p =
     compute_spare (slots_size (cp_slots p)) (cp_min_pool_size p) (cp_min_guaranteed p)"

definition update_pool ::
  "pool_identifier \<Rightarrow> slots \<Rightarrow> pools \<Rightarrow> pools" where
  "update_pool pid sl =
     map (\<lambda>(i, p). (i, if i = pid then p\<lparr>cp_slots := sl\<rparr> else p))"

section \<open>Eviction\<close>

text \<open>The candidates in the order they are tried: slowest pool first, then largest surplus.\<close>

definition eviction_candidates :: "string \<Rightarrow> string \<Rightarrow> pools \<Rightarrow> pools" where
  "eviction_candidates database requesting_user ps =
     sort_key (\<lambda>(_, p). (- uint (cp_p95_xact_time_us p), - int (spare_above_min p)))
       (filter (\<lambda>(i, p). id_db i = database \<and> id_user i \<noteq> requesting_user
           \<and> spare_above_min p > 0) ps)"

definition eviction_min_lifetime :: "pools \<Rightarrow> u64" where
  "eviction_min_lifetime candidates =
     (case candidates of
        [] \<Rightarrow> 5000
      | (_, p) # _ \<Rightarrow> (case cp_coordinator_lifetime_ms p of Some l \<Rightarrow> l | None \<Rightarrow> 5000))"

fun evict_from :: "nat \<Rightarrow> u64 \<Rightarrow> pools \<Rightarrow> pools \<Rightarrow> object_inner list \<times> pools" where
  "evict_from now min_lifetime_ms [] ps = ([], ps)"
| "evict_from now min_lifetime_ms ((i, p) # cs) ps =
     (if spare_above_min p = 0 then evict_from now min_lifetime_ms cs ps
      else (case evict_one_idle now min_lifetime_ms (cp_slots p) of
          ([], _) \<Rightarrow> evict_from now min_lifetime_ms cs ps
        | (gone, sl) \<Rightarrow> (gone, update_pool i sl ps)))"

definition try_evict_one ::
  "nat \<Rightarrow> string \<Rightarrow> string \<Rightarrow> pools \<Rightarrow> bool \<times> object_inner list \<times> pools" where
  "try_evict_one now database requesting_user ps =
     (let candidates = eviction_candidates database requesting_user ps
      in if candidates = [] then (False, [], ps)
         else (let (gone, ps') = evict_from now (eviction_min_lifetime candidates) candidates ps
               in (gone \<noteq> [], gone, ps')))"

definition queued_clients :: "string \<Rightarrow> string \<Rightarrow> pools \<Rightarrow> nat" where
  "queued_clients database user ps =
     (case map_of ps \<lparr>id_db = database, id_user = user\<rparr> of
        Some p \<Rightarrow> ps_waiting (status_of (cp_users p) (cp_slots p))
      | None \<Rightarrow> 0)"

definition is_starving :: "string \<Rightarrow> string \<Rightarrow> pools \<Rightarrow> bool" where
  "is_starving database user ps =
     (case map_of ps \<lparr>id_db = database, id_user = user\<rparr> of
        Some p \<Rightarrow>
          (let user_min = (case cp_min_pool_size p of Some n \<Rightarrow> n | None \<Rightarrow> 0);
               effective_min = max user_min (cp_min_guaranteed p)
           in slots_size (cp_slots p) < effective_min)
      | None \<Rightarrow> False)"

section \<open>The retain task\<close>

definition should_close :: "nat \<Rightarrow> metrics \<Rightarrow> bool" where
  "should_close now m =
     ((idle_timeout_ms m > 0 \<and> (case recycled m of
          Some v \<Rightarrow> (of_nat (now - v) :: u64) > idle_timeout_ms m | None \<Rightarrow> False))
      \<or> (lifetime_ms m > 0 \<and> (of_nat (age now m) :: u64) > lifetime_ms m))"

definition under_pressure :: "connection_pool \<Rightarrow> bool" where
  "under_pressure p \<longleftrightarrow> cp_free_permits p = 0"

text \<open>\<open>closed_so_far\<close> is what the cycle has closed so far, \<open>limit\<close> is \<^verbatim>\<open>retain_connections_max\<close> (0: unlimited).\<close>

definition retain_pool_connections ::
  "nat \<Rightarrow> nat \<Rightarrow> nat \<Rightarrow> connection_pool \<Rightarrow> object_inner list \<times> connection_pool" where
  "retain_pool_connections now limit closed_so_far p =
     (if under_pressure p then ([], p)
      else if limit > 0 \<and> closed_so_far \<ge> limit then ([], p)
      else (let max_to_close = (if limit > 0 then limit - closed_so_far else 0);
                (gone, sl) = retain_oldest_first (\<lambda>_. should_close now) now max_to_close (cp_slots p)
            in (gone, p\<lparr>cp_slots := sl\<rparr>)))"

fun retain_cycle ::
  "nat \<Rightarrow> nat \<Rightarrow> nat \<Rightarrow> connection_pool list \<Rightarrow> object_inner list \<times> connection_pool list" where
  "retain_cycle now limit closed_so_far [] = ([], [])"
| "retain_cycle now limit closed_so_far (p # ps) =
     (let (gone, p') = retain_pool_connections now limit closed_so_far p;
          (gone', ps') = retain_cycle now limit (closed_so_far + length gone) ps
      in (gone @ gone', p' # ps'))"

text \<open>Reserve relief for one pool: upgrade what the coordinator allows, close what has gone stale.\<close>

definition relieve_reserve ::
  "'s semaphore_ops \<Rightarrow> nat \<Rightarrow> connection_pool \<Rightarrow> 's coordinator \<Rightarrow> connection_pool \<times> 's coordinator" where
  "relieve_reserve S now p c =
     (if under_pressure p then (p, c)
      else (let (_, sl1, c1) = upgrade_reserve_to_main S (cp_slots p) (Some c);
                (gone, sl2) = close_idle_reserve_connections now
                  (min_connection_lifetime_ms (coord_config c)) sl1
            in (p\<lparr>cp_slots := sl2\<rparr>,
                case drop_objects S gone c1 of Some c2 \<Rightarrow> c2 | None \<Rightarrow> c)))"

text \<open>How many connections the replenish phase asks for.\<close>

definition replenish_deficit :: "connection_pool \<Rightarrow> nat" where
  "replenish_deficit p =
     (if cp_paused p then 0
      else (case cp_min_pool_size p of
          Some m \<Rightarrow> if slots_size (cp_slots p) < m then m - slots_size (cp_slots p) else 0
        | None \<Rightarrow> 0))"

definition drain_idle_connections :: "connection_pool \<Rightarrow> nat \<times> object_inner list \<times> connection_pool" where
  "drain_idle_connections p =
     (let idle_before = ps_available (status_of (cp_users p) (cp_slots p));
          (gone, sl) = retain (\<lambda>_ _. False) (cp_slots p);
          closed = idle_before - ps_available (status_of (cp_users p) sl)
      in (closed, gone, p\<lparr>cp_slots := sl\<rparr>))"

section \<open>Removal of idle dynamic pools\<close>

definition should_gc_idle_pool :: "connection_pool \<Rightarrow> bool" where
  "should_gc_idle_pool p =
     (if cp_paused p then False
      else if (case cp_min_pool_size p of Some n \<Rightarrow> n | None \<Rightarrow> 0) > 0 then False
      else if \<not> cp_init_complete p then False
      else True)"

definition gc_removes :: "pools \<Rightarrow> pool_identifier \<Rightarrow> bool" where
  "gc_removes ps i =
     (case map_of ps i of
        Some p \<Rightarrow> slots_size (cp_slots p) = 0 \<and> should_gc_idle_pool p
      | None \<Rightarrow> True)"

definition gc_idle_dynamic_pools ::
  "pools \<Rightarrow> pool_identifier list \<Rightarrow> pools \<times> pool_identifier list" where
  "gc_idle_dynamic_pools ps dynamic =
     (let to_remove = filter (gc_removes ps) dynamic
      in (filter (\<lambda>(i, _). i \<notin> set to_remove) ps,
          filter (\<lambda>i. i \<notin> set to_remove) dynamic))"

section \<open>What eviction promises the coordinator\<close>

text \<open>
  The contract of \<^verbatim>\<open>EvictionSource::try_evict_one\<close> as the coordinator uses it: an answer
  \<^verbatim>\<open>true\<close> means that one connection was destroyed, \<^verbatim>\<open>false\<close> that nothing changed. Repeated eviction
  therefore succeeds at most as often as there are connections.
\<close>

fun evict_times :: "('w \<Rightarrow> bool \<times> 'w) \<Rightarrow> nat \<Rightarrow> 'w \<Rightarrow> nat \<times> 'w" where
  "evict_times evict 0 w = (0, w)"
| "evict_times evict (Suc n) w =
     (case evict w of
        (True, w') \<Rightarrow> (let (k, w'') = evict_times evict n w' in (Suc k, w''))
      | (False, w') \<Rightarrow> evict_times evict n w')"

locale eviction_source =
  fixes evict :: "'w \<Rightarrow> bool \<times> 'w"
    and valid :: "'w \<Rightarrow> bool"
    and connections :: "'w \<Rightarrow> nat"
  assumes evict_valid: "valid w \<Longrightarrow> evict w = (b, w') \<Longrightarrow> valid w'"
    and evict_true: "valid w \<Longrightarrow> evict w = (True, w') \<Longrightarrow> connections w = Suc (connections w')"
    and evict_false: "valid w \<Longrightarrow> evict w = (False, w') \<Longrightarrow> w' = w"
begin

lemma evict_times_count:
  assumes "valid w" and "evict_times evict n w = (k, w')"
  shows "connections w = k + connections w' \<and> valid w'"
  using assms
proof (induction n arbitrary: w k)
  case (Suc n)
  obtain b w1 where e: "evict w = (b, w1)" by fastforce
  show ?case
  proof (cases b)
    case True
    then obtain k' where "evict_times evict n w1 = (k', w')" and "k = Suc k'"
      using Suc.prems(2) e by (auto split: prod.splits)
    then show ?thesis
      using Suc.IH [OF evict_valid [OF Suc.prems(1) e]] evict_true [OF Suc.prems(1)] e True by simp
  next
    case False
    then show ?thesis
      using Suc.IH [of w] Suc.prems e evict_false [OF Suc.prems(1)] by simp
  qed
qed simp

end

lemma evict_one_idle_cases:
  assumes "evict_one_idle now ms sl = (gone, sl')"
  shows "(gone = [] \<and> sl' = sl \<and> (\<forall>x \<in> set (slots_vec sl). age now (obj_metrics x) < unat ms))
    \<or> (\<exists>x v. gone = [x] \<and> unat ms \<le> age now (obj_metrics x)
         \<and> mset (slots_vec sl) = add_mset x (mset v)
         \<and> sl' = sl\<lparr>slots_vec := v, slots_size := usub (slots_size sl) 1\<rparr>)"
proof -
  let ?close = "\<lambda>x. unat ms \<le> age now (obj_metrics x)"
  have r: "retain_oldest_first (\<lambda>_ m. unat ms \<le> age now m) now 1 sl = (gone, sl')"
    using assms by (simp add: evict_one_idle_def)
  note f = retain_oldest_facts [OF zero_less_one r]
  show ?thesis
  proof (cases "\<forall>x \<in> set (slots_vec sl). \<not> ?close x")
    case True
    then show ?thesis
      using r by (auto simp: retain_oldest_first_def Let_def not_le)
  next
    case False
    then have "filter ?close (slots_vec sl) \<noteq> []"
      by (auto simp: filter_empty_conv)
    then have "length gone = 1"
      using f by (cases "filter ?close (slots_vec sl)") auto
    then obtain x where x: "gone = [x]"
      by (auto simp: length_Suc_conv)
    moreover obtain v where "sl' = sl\<lparr>slots_vec := v, slots_size := usub (slots_size sl) 1\<rparr>"
      using r False x by (auto simp: retain_oldest_first_def Let_def)
    ultimately show ?thesis
      using f by auto
  qed
qed

text \<open>The first candidate with an old enough idle connection gives it up.\<close>

definition evictable :: "nat \<Rightarrow> u64 \<Rightarrow> connection_pool \<Rightarrow> bool" where
  "evictable now ms p \<longleftrightarrow> (\<exists>x \<in> set (slots_vec (cp_slots p)). unat ms \<le> age now (obj_metrics x))"

text \<open>Pool \<open>p\<close> gave up connection \<open>x\<close> and keeps \<open>v\<close>.\<close>

definition gives_up :: "nat \<Rightarrow> u64 \<Rightarrow> connection_pool \<Rightarrow> object_inner \<Rightarrow> object_inner list \<Rightarrow> bool" where
  "gives_up now ms p x v \<longleftrightarrow> unat ms \<le> age now (obj_metrics x)
     \<and> mset (slots_vec (cp_slots p)) = add_mset x (mset v)"

abbreviation shrunk :: "connection_pool \<Rightarrow> object_inner list \<Rightarrow> slots" where
  "shrunk p v \<equiv> (cp_slots p)\<lparr>slots_vec := v, slots_size := usub (slots_size (cp_slots p)) 1\<rparr>"

text \<open>The first evictable pool of the list gave up \<open>x\<close>, leaving the table \<open>ps'\<close>.\<close>

definition first_gives_up ::
  "nat \<Rightarrow> u64 \<Rightarrow> pools \<Rightarrow> pools \<Rightarrow> object_inner \<Rightarrow> pools \<Rightarrow> bool" where
  "first_gives_up now ms cs ps x ps' \<longleftrightarrow>
     (\<exists>pre i p post v. cs = pre @ (i, p) # post \<and> (\<forall>c \<in> set pre. \<not> evictable now ms (snd c))
        \<and> gives_up now ms p x v \<and> ps' = update_pool i (shrunk p v) ps)"

lemma first_gives_upE:
  assumes "first_gives_up now ms cs ps x ps'"
  obtains pre i p post v where "cs = pre @ (i, p) # post" and "(i, p) \<in> set cs"
    and "\<forall>c \<in> set pre. \<not> evictable now ms (snd c)" and "gives_up now ms p x v"
    and "ps' = update_pool i (shrunk p v) ps"
  using assms unfolding first_gives_up_def by (metis in_set_conv_decomp)

lemma evict_from_spec:
  assumes "evict_from now ms cs ps = (gone, ps')" and "\<forall>c \<in> set cs. 0 < spare_above_min (snd c)"
  shows "(gone = [] \<and> ps' = ps \<and> (\<forall>c \<in> set cs. \<not> evictable now ms (snd c)))
    \<or> (\<exists>x. gone = [x] \<and> first_gives_up now ms cs ps x ps')"
  using assms
proof (induction cs)
  case Nil
  then show ?case by simp
next
  case (Cons c cs)
  obtain i p where c: "c = (i, p)" by fastforce
  obtain g sl where e: "evict_one_idle now ms (cp_slots p) = (g, sl)" by fastforce
  from evict_one_idle_cases [OF e] show ?case
  proof (elim disjE exE conjE)
    assume none: "g = []" "\<forall>x \<in> set (slots_vec (cp_slots p)). age now (obj_metrics x) < unat ms"
    then have rec: "evict_from now ms cs ps = (gone, ps')"
      using Cons.prems c e by simp
    have p: "\<not> evictable now ms (snd c)"
      using none c by (auto simp: evictable_def)
    from Cons.IH [OF rec] Cons.prems(2)
    consider "gone = []" "ps' = ps" "\<forall>c \<in> set cs. \<not> evictable now ms (snd c)"
      | pre j q post x v where "cs = pre @ (j, q) # post" "\<forall>c \<in> set pre. \<not> evictable now ms (snd c)"
        "gone = [x]" "gives_up now ms q x v" "ps' = update_pool j (shrunk q v) ps"
      by (auto simp: first_gives_up_def)
    then show ?thesis
    proof cases
      case 2
      then have "c # cs = (c # pre) @ (j, q) # post" by simp
      with 2 p have "first_gives_up now ms (c # cs) ps x ps'"
        unfolding first_gives_up_def by (metis set_ConsD)
      with 2 show ?thesis by blast
    qed (use p in auto)
  next
    fix x v
    assume x: "g = [x]" "unat ms \<le> age now (obj_metrics x)"
      "mset (slots_vec (cp_slots p)) = add_mset x (mset v)" "sl = shrunk p v"
    then have "gone = [x]" and ps': "ps' = update_pool i (shrunk p v) ps"
      using Cons.prems c e by auto
    have "c # cs = [] @ (i, p) # cs" using c by simp
    moreover have "gives_up now ms p x v"
      using x by (simp add: gives_up_def)
    ultimately have "first_gives_up now ms (c # cs) ps x ps'"
      unfolding first_gives_up_def using ps' by (metis empty_iff list.set(1))
    with \<open>gone = [x]\<close> show ?thesis by blast
  qed
qed

text \<open>Distinct identifiers and size counters that cover the idle connections.\<close>

definition valid_pools :: "pools \<Rightarrow> bool" where
  "valid_pools ps \<longleftrightarrow> distinct (map fst ps)
     \<and> (\<forall>c \<in> set ps. length (slots_vec (cp_slots (snd c))) \<le> slots_size (cp_slots (snd c)))"

definition idle_total :: "pools \<Rightarrow> nat" where
  "idle_total ps = sum_list (map (\<lambda>c. length (slots_vec (cp_slots (snd c)))) ps)"

lemma update_pool_split:
  assumes "valid_pools ps" and "(i, p) \<in> set ps"
  obtains xs ys where "ps = xs @ (i, p) # ys"
    and "update_pool i sl ps = xs @ (i, p\<lparr>cp_slots := sl\<rparr>) # ys"
proof -
  obtain xs ys where ps: "ps = xs @ (i, p) # ys"
    using assms(2) by (meson split_list)
  then have "i \<notin> fst ` set xs" and "i \<notin> fst ` set ys"
    using assms(1) by (auto simp: valid_pools_def)
  then have "map (\<lambda>(j, q). (j, if j = i then q\<lparr>cp_slots := sl\<rparr> else q)) xs = xs"
    and "map (\<lambda>(j, q). (j, if j = i then q\<lparr>cp_slots := sl\<rparr> else q)) ys = ys"
    by (force intro!: map_idI)+
  then show thesis
    using that [OF ps] ps by (simp add: update_pool_def)
qed

lemma shrunk_facts:
  assumes "valid_pools ps" and "(i, p) \<in> set ps" and "gives_up now ms p x v"
  shows "length (slots_vec (cp_slots p)) = Suc (length v)"
    and "slots_size (shrunk p v) = slots_size (cp_slots p) - 1"
    and "length v \<le> slots_size (shrunk p v)"
proof -
  show len: "length (slots_vec (cp_slots p)) = Suc (length v)"
    using assms(3) mset_eq_length [of "slots_vec (cp_slots p)" "x # v"] by (simp add: gives_up_def)
  moreover have "length (slots_vec (cp_slots p)) \<le> slots_size (cp_slots p)"
    using assms(1,2) by (auto simp: valid_pools_def)
  ultimately show "slots_size (shrunk p v) = slots_size (cp_slots p) - 1"
    and "length v \<le> slots_size (shrunk p v)"
    by (auto simp: usub_def)
qed

lemma shrink_pool_valid:
  assumes "valid_pools ps" and "(i, p) \<in> set ps" and "gives_up now ms p x v"
  shows "valid_pools (update_pool i (shrunk p v) ps)"
    and "idle_total ps = Suc (idle_total (update_pool i (shrunk p v) ps))"
proof -
  obtain xs ys where s: "ps = xs @ (i, p) # ys"
    "update_pool i (shrunk p v) ps = xs @ (i, p\<lparr>cp_slots := shrunk p v\<rparr>) # ys"
    by (rule update_pool_split [OF assms(1,2)])
  note f = shrunk_facts [OF assms]
  show "valid_pools (update_pool i (shrunk p v) ps)"
    using assms(1) f(3) unfolding s(2) by (auto simp: s(1) valid_pools_def)
  show "idle_total ps = Suc (idle_total (update_pool i (shrunk p v) ps))"
    using f(1) unfolding s(2) by (simp add: s(1) idle_total_def)
qed

lemma try_evict_one_cases:
  assumes "try_evict_one now db user ps = (ok, gone, ps')"
  defines "cs \<equiv> eviction_candidates db user ps"
  obtains (none) "\<not> ok" "gone = []" "ps' = ps"
      "\<forall>c \<in> set cs. \<not> evictable now (eviction_min_lifetime cs) (snd c)"
  | (some) x where "ok" "gone = [x]" "first_gives_up now (eviction_min_lifetime cs) cs ps x ps'"
proof (cases "cs = []")
  case True
  then show ?thesis
    using assms(1) none by (simp add: try_evict_one_def cs_def)
next
  case False
  then have e: "evict_from now (eviction_min_lifetime cs) cs ps = (gone, ps')" and ok: "ok = (gone \<noteq> [])"
    using assms(1) by (auto simp: try_evict_one_def Let_def cs_def split: prod.splits)
  have "\<forall>c \<in> set cs. 0 < spare_above_min (snd c)"
    by (auto simp: cs_def eviction_candidates_def)
  from evict_from_spec [OF e this] show ?thesis
    using none some ok by blast
qed

lemma candidates_in: "c \<in> set (eviction_candidates db user ps) \<longleftrightarrow>
    c \<in> set ps \<and> id_db (fst c) = db \<and> id_user (fst c) \<noteq> user \<and> 0 < spare_above_min (snd c)"
  by (auto simp: eviction_candidates_def)

interpretation ev: eviction_source
  "\<lambda>ps. case try_evict_one now db user ps of (ok, _, ps') \<Rightarrow> (ok, ps')" valid_pools idle_total
  for now db user
proof
  fix ps ps' :: pools
  assume v: "valid_pools ps"
  have step: "(ok \<longrightarrow> valid_pools ps' \<and> idle_total ps = Suc (idle_total ps')) \<and> (\<not> ok \<longrightarrow> ps' = ps)"
    if "(case try_evict_one now db user ps of (ok, _, ps') \<Rightarrow> (ok, ps')) = (ok, ps')" for ok
  proof -
    from that obtain gone where "try_evict_one now db user ps = (ok, gone, ps')"
      by (cases "try_evict_one now db user ps") simp
    then show ?thesis
    proof (cases rule: try_evict_one_cases)
      case (some x)
      from some(3) obtain i p w where "(i, p) \<in> set (eviction_candidates db user ps)"
        "gives_up now (eviction_min_lifetime (eviction_candidates db user ps)) p x w"
        "ps' = update_pool i (shrunk p w) ps"
        by (rule first_gives_upE)
      then show ?thesis
        using some(1) shrink_pool_valid [OF v, of i p] candidates_in [of "(i, p)" db user ps] by simp
    qed simp
  qed
  show "valid_pools ps'"
    if "(case try_evict_one now db user ps of (ok, _, ps') \<Rightarrow> (ok, ps')) = (ok, ps')" for ok
    using step [OF that] v by (cases ok) auto
  show "idle_total ps = Suc (idle_total ps')"
    if "(case try_evict_one now db user ps of (ok, _, ps') \<Rightarrow> (ok, ps')) = (True, ps')"
    using step [OF that] by simp
  show "ps' = ps"
    if "(case try_evict_one now db user ps of (ok, _, ps') \<Rightarrow> (ok, ps')) = (False, ps')"
    using step [OF that] by simp
qed


text \<open>
  Eviction finds a victim whenever there is one, and takes it from the slowest pool: it
  succeeds exactly when some candidate pool has an old enough idle connection, and no candidate with
  such a connection has a higher 95th percentile transaction time, nor an equal one and a larger
  surplus, than the pool it chose.
\<close>

theorem try_evict_one_choice:
  assumes "try_evict_one now db user ps = (ok, gone, ps')"
  shows "let cs = eviction_candidates db user ps; ms = eviction_min_lifetime cs
    in (ok \<longleftrightarrow> (\<exists>c \<in> set cs. evictable now ms (snd c)))
     \<and> (ok \<longrightarrow> (\<exists>(i, p) \<in> set cs. gone \<noteq> [] \<and> hd gone \<in> set (slots_vec (cp_slots p))
          \<and> (\<forall>(j, q) \<in> set cs. evictable now ms q \<longrightarrow>
               (uint (cp_p95_xact_time_us q), int (spare_above_min q))
                 \<le> (uint (cp_p95_xact_time_us p), int (spare_above_min p)))))"
  using assms
proof (cases rule: try_evict_one_cases)
  case none
  then show ?thesis by (auto simp: Let_def)
next
  case (some x)
  let ?cs = "eviction_candidates db user ps"
  let ?key = "\<lambda>(_ :: pool_identifier, p). (- uint (cp_p95_xact_time_us p), - int (spare_above_min p))"
  from some(3) obtain pre i p post v where cs: "?cs = pre @ (i, p) # post"
    and in_cs: "(i, p) \<in> set ?cs"
    and pre: "\<forall>c \<in> set pre. \<not> evictable now (eviction_min_lifetime ?cs) (snd c)"
    and g: "gives_up now (eviction_min_lifetime ?cs) p x v"
    by (rule first_gives_upE)
  have x: "x \<in> set (slots_vec (cp_slots p))"
    using g unfolding gives_up_def by (metis set_mset_mset union_single_eq_member)
  then have ev: "evictable now (eviction_min_lifetime ?cs) p"
    using g by (auto simp: evictable_def gives_up_def)
  have "sorted (map ?key ?cs)"
    by (simp add: eviction_candidates_def)
  then have post: "?key (i, p) \<le> ?key c" if "c \<in> set post" for c
    using that unfolding cs by (auto simp: sorted_append)
  have best: "(uint (cp_p95_xact_time_us q), int (spare_above_min q))
      \<le> (uint (cp_p95_xact_time_us p), int (spare_above_min p))"
    if c: "(j, q) \<in> set ?cs" "evictable now (eviction_min_lifetime ?cs) q" for j q
  proof -
    have "(j, q) \<notin> set pre"
      using c(2) pre by auto
    then have "(j, q) = (i, p) \<or> (j, q) \<in> set post"
      using c(1) unfolding cs by auto
    then show ?thesis
      using post [of "(j, q)"] by auto
  qed
  have "\<exists>c \<in> set ?cs. evictable now (eviction_min_lifetime ?cs) (snd c)"
    using in_cs ev by force
  moreover have "\<exists>(i, p) \<in> set ?cs. gone \<noteq> [] \<and> hd gone \<in> set (slots_vec (cp_slots p))
      \<and> (\<forall>(j, q) \<in> set ?cs. evictable now (eviction_min_lifetime ?cs) q \<longrightarrow>
           (uint (cp_p95_xact_time_us q), int (spare_above_min q))
             \<le> (uint (cp_p95_xact_time_us p), int (spare_above_min p)))"
    using best some(2) x by (intro bexI [OF _ in_cs]) auto
  ultimately show ?thesis
    using some(1) by (simp only: Let_def simp_thms)
qed

text \<open>Example data: \<^verbatim>\<open>b\<close> is slower than \<^verbatim>\<open>a\<close>, both have a surplus; \<^verbatim>\<open>c\<close> asks.\<close>

definition example_pool :: "u64 \<Rightarrow> connection_pool" where
  "example_pool p95 = \<lparr>cp_slots = three_idle, cp_users = 0, cp_free_permits = 5, cp_paused = False,
     cp_init_complete = True, cp_min_pool_size = Some 1, cp_min_guaranteed = 0,
     cp_p95_xact_time_us = p95, cp_coordinator_lifetime_ms = Some 50\<rparr>"

definition example_pools :: pools where
  "example_pools = [(\<lparr>id_db = ''db'', id_user = ''a''\<rparr>, example_pool 10),
     (\<lparr>id_db = ''db'', id_user = ''b''\<rparr>, example_pool 500)]"

lemma example_eviction:
  "try_evict_one 100 ''db'' ''c'' example_pools =
     (True, [idle_at 2 10 (Some True)],
      [(\<lparr>id_db = ''db'', id_user = ''a''\<rparr>, example_pool 10),
       (\<lparr>id_db = ''db'', id_user = ''b''\<rparr>, (example_pool 500)\<lparr>cp_slots :=
          three_idle\<lparr>slots_vec := [idle_at 1 30 None, idle_at 3 20 (Some True)],
            slots_size := 2\<rparr>\<rparr>)])"
  by code_simp

lemma example_valid: "valid_pools example_pools"
  by code_simp


theorem try_evict_one_choice_witness:
  "\<exists>c \<in> set (eviction_candidates ''db'' ''c'' example_pools).
     evictable 100 (eviction_min_lifetime (eviction_candidates ''db'' ''c'' example_pools)) (snd c)"
  using try_evict_one_choice [OF example_eviction] by (simp add: Let_def)

text \<open>
  Repeated eviction is bounded by what there is to evict: of any number of calls, at most as
  many succeed as connections were idle in the table.
\<close>

theorem evictions_bounded:
  assumes "valid_pools ps"
  shows "fst (evict_times (\<lambda>ps. case try_evict_one now db user ps of (ok, _, ps') \<Rightarrow> (ok, ps')) n ps)
    \<le> idle_total ps"
proof -
  let ?ev = "\<lambda>ps. case try_evict_one now db user ps of (ok, _, ps') \<Rightarrow> (ok, ps')"
  obtain k ps' where e: "evict_times ?ev n ps = (k, ps')" by fastforce
  from ev.evict_times_count [OF assms this] show ?thesis
    unfolding e by simp
qed

theorem evictions_bounded_witness:
  "fst (evict_times (\<lambda>ps. case try_evict_one 100 ''db'' ''c'' ps of (ok, _, ps') \<Rightarrow> (ok, ps'))
     10 example_pools) \<le> 6"
proof -
  have "idle_total example_pools = 6" by code_simp
  then show ?thesis
    using evictions_bounded [OF example_valid, of 100 "''db''" "''c''" 10] by simp
qed

section \<open>The retain task\<close>

lemma retain_pool_closed:
  assumes "retain_pool_connections now limit k p = (gone, p')"
  shows "\<forall>x \<in> set gone. should_close now (obj_metrics x)"
    and "0 < limit \<Longrightarrow> k \<le> limit \<Longrightarrow> k + length gone \<le> limit"
    and "under_pressure p \<Longrightarrow> gone = [] \<and> p' = p"
proof -
  let ?n = "if 0 < limit then limit - k else 0"
  show "under_pressure p \<Longrightarrow> gone = [] \<and> p' = p"
    using assms by (simp add: retain_pool_connections_def)
  obtain gone' sl where r: "retain_oldest_first (\<lambda>_. should_close now) now ?n (cp_slots p) = (gone', sl)"
    by fastforce
  have g: "gone = [] \<or> (gone = gone' \<and> \<not> (0 < limit \<and> limit \<le> k))"
    using assms r by (auto simp: retain_pool_connections_def Let_def split: if_splits)
  have "\<forall>x \<in> set gone'. should_close now (obj_metrics x)"
  proof (cases "?n = 0")
    case True
    then show ?thesis
      using r by (auto simp: retain_oldest_first_def evict_where_def Let_def split: if_splits)
  next
    case False
    then show ?thesis
      using retain_oldest_facts [OF _ r] by auto
  qed
  then show "\<forall>x \<in> set gone. should_close now (obj_metrics x)"
    using g by auto
  show "k + length gone \<le> limit" if "0 < limit" "k \<le> limit"
  proof (cases "gone = []")
    case False
    then have "0 < ?n" and gg: "gone = gone'"
      using g that by auto
    then have "length gone' \<le> ?n"
      using retain_oldest_facts [OF _ r] by auto
    then show ?thesis
      using gg that by (simp split: if_splits)
  qed (use that in simp)
qed



lemma close_reserve_spec:
  assumes "close_idle_reserve_connections now ms sl = (gone, sl')"
  shows "mains gone = 0" and "reserves gone = length gone"
    and "length gone + reserves (slots_vec sl') = reserves (slots_vec sl)"
    and "\<forall>x \<in> set (slots_vec sl'). holds_reserve x \<longrightarrow> last_used now (obj_metrics x) < unat ms"
proof -
  let ?P = "\<lambda>x. holds_reserve x \<and> unat ms \<le> last_used now (obj_metrics x)"
  have g: "gone = filter ?P (slots_vec sl)" and k: "slots_vec sl' = filter (\<lambda>x. \<not> ?P x) (slots_vec sl)"
    using assms
    by (auto simp: close_idle_reserve_connections_def evict_where_def Let_def filter_empty_conv
        filter_id_conv split: if_splits)
  show "mains gone = 0" and "reserves gone = length gone"
    unfolding g mains_def reserves_def by (auto simp: filter_empty_conv intro: arg_cong [of _ _ length] filter_cong)
  show "length gone + reserves (slots_vec sl') = reserves (slots_vec sl)"
  proof -
    have "length (filter ?P xs) + length (filter holds_reserve (filter (\<lambda>x. \<not> ?P x) xs))
        = length (filter holds_reserve xs)" for xs
      by (induction xs) auto
    then show ?thesis unfolding g k reserves_def .
  qed
  show "\<forall>x \<in> set (slots_vec sl'). holds_reserve x \<longrightarrow> last_used now (obj_metrics x) < unat ms"
    unfolding k by auto
qed


definition relief_coordinator :: "(nat \<times> bool) coordinator" where
  "relief_coordinator = \<lparr>coord_database = ''db'', db_semaphore = (1, False),
     reserve_semaphore = (0, False), total_connections = 2, reserve_in_use = 2,
     coord_config = \<lparr>max_db_connections = 1, min_connection_lifetime_ms = 50,
       reserve_pool_size = 2, reserve_pool_timeout_ms = 0\<rparr>,
     evictions_total = 0, reserve_acquisitions_total = 2, exhaustions_total = 0\<rparr>"


section \<open>Removal of idle dynamic pools\<close>

text \<open>
  C35. Garbage collection removes exactly the dynamic pools it should: a pool survives unless it is
  dynamic, has no connections, is neither paused nor guaranteed a minimum, and its first connection
  has been established; what is removed disappears from both tables, and nothing else does.
\<close>

theorem gc_removes_exactly:
  assumes "distinct (map fst ps)" and "gc_idle_dynamic_pools ps dynamic = (ps', dynamic')"
  shows "(\<forall>i p. (i, p) \<in> set ps' \<longleftrightarrow> (i, p) \<in> set ps
           \<and> \<not> (i \<in> set dynamic \<and> slots_size (cp_slots p) = 0 \<and> \<not> cp_paused p
                \<and> (cp_min_pool_size p = None \<or> cp_min_pool_size p = Some 0) \<and> cp_init_complete p))
    \<and> (\<forall>i. i \<in> set dynamic' \<longleftrightarrow> i \<in> set dynamic \<and> i \<in> fst ` set ps')"
proof -
  have look: "(i, p) \<in> set ps \<longleftrightarrow> map_of ps i = Some p" for i p
    using assms(1) by simp
  have rem: "gc_removes ps i \<longleftrightarrow> slots_size (cp_slots p) = 0 \<and> \<not> cp_paused p
      \<and> (cp_min_pool_size p = None \<or> cp_min_pool_size p = Some 0) \<and> cp_init_complete p"
    if "(i, p) \<in> set ps" for i p
    using that by (auto simp: look gc_removes_def should_gc_idle_pool_def split: option.splits)
  have ps': "(i, p) \<in> set ps' \<longleftrightarrow> (i, p) \<in> set ps \<and> \<not> (i \<in> set dynamic \<and> gc_removes ps i)" for i p
    using assms(2) by (auto simp: gc_idle_dynamic_pools_def Let_def)
  have none: "gc_removes ps i" if "i \<notin> fst ` set ps" for i
  proof -
    have "map_of ps i = None"
      using that by (simp add: map_of_eq_None_iff)
    then show ?thesis
      by (simp add: gc_removes_def)
  qed
  have dyn': "i \<in> set dynamic' \<longleftrightarrow> i \<in> set dynamic \<and> \<not> gc_removes ps i" for i
    using assms(2) by (auto simp: gc_idle_dynamic_pools_def Let_def)
  have "i \<in> set dynamic' \<longleftrightarrow> i \<in> set dynamic \<and> i \<in> fst ` set ps'" for i
  proof
    assume a: "i \<in> set dynamic'"
    then obtain p where "(i, p) \<in> set ps"
      using dyn' none by force
    then have "(i, p) \<in> set ps'"
      using a dyn' ps' by blast
    then show "i \<in> set dynamic \<and> i \<in> fst ` set ps'"
      using a dyn' by force
  qed (auto simp: dyn' ps')
  then show ?thesis
    using ps' rem by blast
qed

theorem gc_removes_exactly_witness:
  "fst (gc_idle_dynamic_pools example_pools [\<lparr>id_db = ''db'', id_user = ''a''\<rparr>]) = example_pools
   \<and> (\<forall>i. i \<in> set (snd (gc_idle_dynamic_pools example_pools [\<lparr>id_db = ''db'', id_user = ''a''\<rparr>]))
        \<longleftrightarrow> i = \<lparr>id_db = ''db'', id_user = ''a''\<rparr>)"
proof -
  let ?r = "gc_idle_dynamic_pools example_pools [\<lparr>id_db = ''db'', id_user = ''a''\<rparr>]"
  have r: "?r = (fst ?r, snd ?r)" by simp
  have "fst ?r = example_pools" by code_simp
  moreover have "distinct (map fst example_pools)"
    using example_valid by (simp add: valid_pools_def)
  ultimately show ?thesis
    using gc_removes_exactly [OF _ r] by (auto simp: example_pools_def)
qed

end
