(* ===== verification/Ordered_Map.thy ===== *)
theory Ordered_Map
  imports Prelude "HOL-Library.List_Lexorder"
begin

text \<open>
  \<^verbatim>\<open>std::collections::BTreeMap\<close>: an association list in strictly ascending key order, which is
  also the order of iteration. Byte strings are ordered lexicographically.

  The contract a client relies on is the locale \<open>finite_map\<close>; the lemma on bulk insertion
  (\<^verbatim>\<open>extend\<close>, \<^verbatim>\<open>collect\<close>, a loop of \<^verbatim>\<open>insert\<close>) is proved there once.
\<close>

type_synonym ('k, 'v) btree = "('k \<times> 'v) list"

fun bt_insert :: "'k::linorder \<Rightarrow> 'v \<Rightarrow> ('k, 'v) btree \<Rightarrow> ('k, 'v) btree" where
  "bt_insert k v [] = [(k, v)]"
| "bt_insert k v ((k', v') # m) =
     (if k < k' then (k, v) # (k', v') # m
      else if k = k' then (k, v) # m
      else (k', v') # bt_insert k v m)"

definition bt_get :: "('k, 'v) btree \<Rightarrow> 'k \<Rightarrow> 'v option" where
  "bt_get m k = map_of m k"

definition bt_inv :: "('k::linorder, 'v) btree \<Rightarrow> bool" where
  "bt_inv m \<longleftrightarrow> sorted_wrt (<) (map fst m)"

definition bt_extend :: "('k::linorder \<times> 'v) list \<Rightarrow> ('k, 'v) btree \<Rightarrow> ('k, 'v) btree" where
  "bt_extend kvs m = fold (\<lambda>(k, v). bt_insert k v) kvs m"

section \<open>The contract of a map\<close>

locale finite_map =
  fixes get :: "'m \<Rightarrow> 'k \<Rightarrow> 'v option" and ins :: "'k \<Rightarrow> 'v \<Rightarrow> 'm \<Rightarrow> 'm" and inv :: "'m \<Rightarrow> bool"
  assumes inv_ins: "inv m \<Longrightarrow> inv (ins k v m)"
    and get_ins: "inv m \<Longrightarrow> get (ins k v m) = (get m)(k \<mapsto> v)"
begin

lemma inv_fold: "inv m \<Longrightarrow> inv (fold (\<lambda>(k, v). ins k v) kvs m)"
  by (induction kvs arbitrary: m) (auto simp: inv_ins)

lemma get_fold: "inv m \<Longrightarrow> get (fold (\<lambda>(k, v). ins k v) kvs m) = get m ++ map_of (rev kvs)"
proof (induction kvs arbitrary: m)
  case Nil
  then show ?case by simp
next
  case (Cons kv kvs)
  then show ?case
    by (cases kv) (simp add: inv_ins get_ins map_add_def fun_eq_iff split: option.splits)
qed

end

lemma set_bt_insert: "fst ` set (bt_insert k v m) = insert k (fst ` set m)"
  by (induction k v m rule: bt_insert.induct) auto

lemma bt_inv_insert: "bt_inv m \<Longrightarrow> bt_inv (bt_insert k v m)"
  unfolding bt_inv_def
proof (induction k v m rule: bt_insert.induct)
  case (2 k v k' v' m)
  then have IH: "sorted_wrt (<) (map fst (bt_insert k v m))" if "\<not> k < k'" "k \<noteq> k'"
    using that by simp
  have "\<forall>x \<in> set (map fst (bt_insert k v m)). k' < x" if "\<not> k < k'" "k \<noteq> k'"
    using 2(2) that set_bt_insert [of k v m] by auto
  then show ?case
    using 2(2) IH by auto
qed simp

lemma bt_get_insert: "bt_inv m \<Longrightarrow> bt_get (bt_insert k v m) = (bt_get m)(k \<mapsto> v)"
  unfolding bt_inv_def bt_get_def
  by (induction k v m rule: bt_insert.induct) (auto simp: fun_eq_iff)

interpretation bt: finite_map bt_get bt_insert bt_inv
  by unfold_locales (auto simp: bt_inv_insert bt_get_insert)

lemma bt_inv_Nil [simp]: "bt_inv []"
  by (simp add: bt_inv_def)

lemma bt_inv_extend: "bt_inv m \<Longrightarrow> bt_inv (bt_extend kvs m)"
  unfolding bt_extend_def by (rule bt.inv_fold)

lemma bt_get_extend: "bt_inv m \<Longrightarrow> bt_get (bt_extend kvs m) = bt_get m ++ map_of (rev kvs)"
  unfolding bt_extend_def by (rule bt.get_fold)

lemma keys_bt_extend: "fst ` set (bt_extend kvs m) = fst ` set m \<union> fst ` set kvs"
  unfolding bt_extend_def
  by (induction kvs arbitrary: m) (auto simp: set_bt_insert split: prod.splits)

lemma bt_inv_distinct: "bt_inv m \<Longrightarrow> distinct (map fst m)"
  by (auto simp: bt_inv_def strict_sorted_iff)

lemma bt_get_mem: "bt_inv m \<Longrightarrow> bt_get m k = Some v \<longleftrightarrow> (k, v) \<in> set m"
  unfolding bt_get_def using bt_inv_distinct [of m] by simp

end
