(* ===== verification/Extended_Messages.thy ===== *)
theory Extended_Messages
  imports Prelude
begin

text \<open>
  The messages of the extended query protocol: \<^verbatim>\<open>src/src/messages/extended.rs\<close> and the
  string readers of \<^verbatim>\<open>src/src/messages/types.rs\<close>.

  A reader takes the unread bytes of a \<^verbatim>\<open>Cursor\<close> and returns a value with the bytes after it.
  The accessors of \<^verbatim>\<open>bytes::Buf\<close> panic on a short buffer; a panic is an error value here.
  \<^verbatim>\<open>usize\<close> is a 64-bit word and its arithmetic wraps, as in the release profile; a \<^verbatim>\<open>char\<close>
  made from a byte is that byte.
\<close>

section \<open>Readers\<close>

datatype codec_error = ParseBytesError string | NulError | Panic

type_synonym 'a reader = "bytes \<Rightarrow> codec_error + ('a \<times> bytes)"

fun get_u8 :: "u8 reader" where
  "get_u8 (b # r) = Inr (b, r)"
| "get_u8 _ = Inl Panic"

fun get_i16 :: "u16 reader" where
  "get_i16 (a # b # r) = Inr (be16 a b, r)"
| "get_i16 _ = Inl Panic"

fun get_i32 :: "u32 reader" where
  "get_i32 (a # b # c # d # r) = Inr (be32 a b c d, r)"
| "get_i32 _ = Inl Panic"

text \<open>
  \<^verbatim>\<open>read_string\<close> of a cursor. Without a terminator \<^verbatim>\<open>read_until\<close> stops at the end of the buffer
  and the last byte is cut off instead; at the end of the buffer the subtraction underflows and
  the slice panics.
\<close>

definition read_string :: "bytes reader" where
  "read_string bs =
     (case position (\<lambda>b. b = 0) bs of
        Some i \<Rightarrow> Inr (from_utf8_lossy (take i bs), drop (i + 1) bs)
      | None \<Rightarrow> if bs = [] then Inl Panic else Inr (from_utf8_lossy (butlast bs), []))"

text \<open>\<^verbatim>\<open>read_string\<close> of a \<^verbatim>\<open>BytesMut\<close>, which insists on the terminator.\<close>

definition split_string :: "bytes reader" where
  "split_string bs =
     (case position (\<lambda>b. b = 0) bs of
        Some i \<Rightarrow> Inr (from_utf8_lossy (take i bs), drop (i + 1) bs)
      | None \<Rightarrow> Inl (ParseBytesError ''Could not read string''))"

text \<open>A counted loop that pushes one element per round.\<close>

fun get_n :: "'a reader \<Rightarrow> nat \<Rightarrow> 'a list reader" where
  "get_n rd 0 bs = Inr ([], bs)"
| "get_n rd (Suc n) bs =
     rbind (rd bs) (\<lambda>(x, r). rbind (get_n rd n r) (\<lambda>(xs, r'). Inr (x # xs, r')))"

text \<open>The number of rounds of \<^verbatim>\<open>for _ in 0..n\<close> for a signed bound.\<close>

definition rounds16 :: "u16 \<Rightarrow> nat" where
  "rounds16 n = nat (sint n)"

text \<open>\<^verbatim>\<open>CString::new(s)?.as_bytes_with_nul()\<close>.\<close>

definition cstring :: "bytes \<Rightarrow> codec_error + bytes" where
  "cstring s = (if 0 \<in> set s then Inl NulError else Inr (s @ [0]))"

section \<open>Parse\<close>

record parse_msg =
  p_code :: u8
  p_len :: u32
  p_name :: bytes
  p_query :: bytes
  p_num_params :: u16
  p_param_types :: "u32 list"

definition parse_try_from :: "bytes \<Rightarrow> codec_error + parse_msg" where
  "parse_try_from buf =
     rbind (get_u8 buf) (\<lambda>(code, r).
     rbind (get_i32 r) (\<lambda>(len, r).
     rbind (read_string r) (\<lambda>(name, r).
     rbind (read_string r) (\<lambda>(query, r).
     rbind (get_i16 r) (\<lambda>(n, r).
     rbind (get_n get_i32 (rounds16 n) r) (\<lambda>(types, r).
       Inr \<lparr>p_code = code, p_len = len, p_name = name, p_query = query, p_num_params = n,
            p_param_types = types\<rparr>))))))"

text \<open>The length field: \<^verbatim>\<open>usize\<close> arithmetic, truncated to 32 bits.\<close>

definition parse_len :: "nat \<Rightarrow> nat \<Rightarrow> u16 \<Rightarrow> u32" where
  "parse_len name query n =
     ucast (4 + of_nat name + of_nat query + 2 + 4 * (scast n :: u64) :: u64)"

definition to_bytes_with_name :: "parse_msg \<Rightarrow> bytes \<Rightarrow> codec_error + bytes" where
  "to_bytes_with_name p nm =
     rbind (cstring nm) (\<lambda>name.
     rbind (cstring (p_query p)) (\<lambda>query.
       Inr (p_code p # put_i32 (parse_len (length name) (length query) (p_num_params p))
              @ name @ query @ put_i16 (p_num_params p) @ concat (map put_i32 (p_param_types p)))))"

definition parse_into :: "parse_msg \<Rightarrow> codec_error + bytes" where
  "parse_into p =
     rbind (cstring (p_name p)) (\<lambda>name.
     rbind (cstring (p_query p)) (\<lambda>query.
       Inr (p_code p # put_i32 (parse_len (length name) (length query) (p_num_params p))
              @ name @ query @ put_i16 (p_num_params p) @ concat (map put_i32 (p_param_types p)))))"

text \<open>\<^verbatim>\<open>rewrite\<close> draws the next number of the global counter, an atomic \<^verbatim>\<open>usize\<close> that wraps.\<close>

definition doorman_name :: "u64 \<Rightarrow> bytes" where
  "doorman_name n = ascii (''DOORMAN_'' @ show_nat (unat n))"

definition parse_rewrite :: "u64 \<Rightarrow> parse_msg \<Rightarrow> parse_msg \<times> u64" where
  "parse_rewrite counter p = (p\<lparr>p_name := doorman_name counter\<rparr>, counter + 1)"

definition parse_get_name :: "bytes \<Rightarrow> codec_error + bytes" where
  "parse_get_name buf =
     (if length buf < 5 then Inl Panic else rbind (read_string (drop 5 buf)) (\<lambda>(s, r). Inr s))"

definition parse_from_parts :: "bytes \<Rightarrow> u32 list \<Rightarrow> parse_msg" where
  "parse_from_parts query types = \<lparr>p_code = of_char (CHR ''P''), p_len = 0, p_name = [],
     p_query = query, p_num_params = of_nat (length types), p_param_types = types\<rparr>"

definition parse_anonymous :: "parse_msg \<Rightarrow> bool" where
  "parse_anonymous p \<longleftrightarrow> p_name p = []"

text \<open>
  The hash of a statement. The two hashers (\<^verbatim>\<open>Xxh3\<close> of a third-party crate, and the unspecified
  \<^verbatim>\<open>DefaultHasher\<close>) are parameters that see the sequence of writes.
\<close>

datatype hash_write = WriteBytes bytes | WriteI16 u16 | WriteI32s "u32 list" | WriteU64 u64

record hashers =
  xxh3 :: "hash_write list \<Rightarrow> u64"
  default_hasher :: "hash_write list \<Rightarrow> u64"

definition parse_get_hash :: "hashers \<Rightarrow> parse_msg \<Rightarrow> u64" where
  "parse_get_hash H p =
     (let ws = [WriteBytes (p_query p), WriteI16 (p_num_params p), WriteI32s (p_param_types p)]
      in if length (p_query p) \<ge> 64 then xxh3 H ws else default_hasher H ws)"

definition get_hash_with_planner_params :: "hashers \<Rightarrow> u64 \<Rightarrow> parse_msg \<Rightarrow> u64" where
  "get_hash_with_planner_params H planner p =
     (if planner = 0 then parse_get_hash H p
      else (let ws = [WriteBytes (p_query p), WriteI16 (p_num_params p),
                      WriteI32s (p_param_types p), WriteU64 planner]
            in if length (p_query p) \<ge> 64 then xxh3 H ws else default_hasher H ws))"

section \<open>Bind\<close>

record bind_msg =
  b_code :: u8
  b_len :: u32
  b_portal :: bytes
  b_prepared_statement :: bytes
  b_num_param_format_codes :: u16
  b_param_format_codes :: "u16 list"
  b_num_param_values :: u16
  b_param_values :: "(u32 \<times> bytes) list"
  b_num_result_column_format_codes :: u16
  b_result_columns_format_codes :: "u16 list"

text \<open>
  One parameter value. \<^verbatim>\<open>-1\<close> is the SQL null; any other negative length makes the capacity
  overflow, which panics.
\<close>

definition get_value :: "(u32 \<times> bytes) reader" where
  "get_value bs =
     rbind (get_i32 bs) (\<lambda>(len, r).
       if len = - 1 then Inr ((- 1, []), r)
       else if sint len < 0 then Inl Panic
       else rbind (get_n get_u8 (nat (sint len)) r) (\<lambda>(v, r'). Inr ((len, v), r')))"

definition bind_try_from :: "bytes \<Rightarrow> codec_error + bind_msg" where
  "bind_try_from buf =
     rbind (get_u8 buf) (\<lambda>(code, r).
     rbind (get_i32 r) (\<lambda>(len, r).
     rbind (read_string r) (\<lambda>(portal, r).
     rbind (read_string r) (\<lambda>(stmt, r).
     rbind (get_i16 r) (\<lambda>(nf, r).
     rbind (get_n get_i16 (rounds16 nf) r) (\<lambda>(formats, r).
     rbind (get_i16 r) (\<lambda>(nv, r).
     rbind (get_n get_value (rounds16 nv) r) (\<lambda>(vals, r).
     rbind (get_i16 r) (\<lambda>(nr, r).
     rbind (get_n get_i16 (rounds16 nr) r) (\<lambda>(results, r).
       Inr \<lparr>b_code = code, b_len = len, b_portal = portal, b_prepared_statement = stmt,
            b_num_param_format_codes = nf, b_param_format_codes = formats,
            b_num_param_values = nv, b_param_values = vals,
            b_num_result_column_format_codes = nr,
            b_result_columns_format_codes = results\<rparr>))))))))))"

definition value_len :: "u32 \<times> bytes \<Rightarrow> u64" where
  "value_len v = 4 + scast (fst v)"

definition bind_len :: "nat \<Rightarrow> nat \<Rightarrow> bind_msg \<Rightarrow> u32" where
  "bind_len portal stmt b =
     ucast (4 + of_nat portal + of_nat stmt + 2 + 2 * scast (b_num_param_format_codes b) + 2
        + sum_list (map value_len (b_param_values b))
        + 2 + 2 * scast (b_num_result_column_format_codes b) :: u64)"

definition put_value :: "u32 \<times> bytes \<Rightarrow> bytes" where
  "put_value v = put_i32 (fst v) @ snd v"

definition bind_tail :: "bind_msg \<Rightarrow> bytes" where
  "bind_tail b = put_i16 (b_num_param_format_codes b)
     @ concat (map put_i16 (b_param_format_codes b))
     @ put_i16 (b_num_param_values b) @ concat (map put_value (b_param_values b))
     @ put_i16 (b_num_result_column_format_codes b)
     @ concat (map put_i16 (b_result_columns_format_codes b))"

definition bind_into :: "bind_msg \<Rightarrow> codec_error + bytes" where
  "bind_into b =
     rbind (cstring (b_portal b)) (\<lambda>portal.
     rbind (cstring (b_prepared_statement b)) (\<lambda>stmt.
       Inr (b_code b # put_i32 (bind_len (length portal) (length stmt) b)
              @ portal @ stmt @ bind_tail b)))"

text \<open>The two terminators \<^verbatim>\<open>get_name\<close> and \<^verbatim>\<open>rename\<close> scan for.\<close>

definition bind_scan :: "bytes \<Rightarrow> codec_error + (nat \<times> nat \<times> nat)" where
  "bind_scan buf =
     (if length buf < 5 then Inl (ParseBytesError ''Bind message too short'')
      else (case position (\<lambda>b. b = 0) (drop 5 buf) of
              None \<Rightarrow> Inl (ParseBytesError ''Bind: missing portal null terminator'')
            | Some i \<Rightarrow>
                (let portal_end = i + 5; stmt_start = portal_end + 1
                 in case position (\<lambda>b. b = 0) (drop stmt_start buf) of
                      None \<Rightarrow> Inl (ParseBytesError ''Bind: missing statement null terminator'')
                    | Some j \<Rightarrow> Inr (portal_end, stmt_start, j + stmt_start))))"

definition bind_get_name :: "bytes \<Rightarrow> codec_error + bytes" where
  "bind_get_name buf =
     rbind (bind_scan buf) (\<lambda>(portal_end, stmt_start, stmt_end).
       Inr (from_utf8_lossy (take (stmt_end - stmt_start) (drop stmt_start buf))))"

definition bind_rename :: "bytes \<Rightarrow> bytes \<Rightarrow> codec_error + bytes" where
  "bind_rename buf new_name =
     rbind (bind_scan buf) (\<lambda>(portal_end, stmt_start, stmt_end).
       let old_stmt_len = stmt_end - stmt_start;
           params_start = stmt_end + 1;
           current_len = be32 (buf ! 1) (buf ! 2) (buf ! 3) (buf ! 4);
           new_len = current_len + of_nat (length new_name) - of_nat old_stmt_len
       in Inr (buf ! 0 # put_i32 new_len @ take (portal_end + 1 - 5) (drop 5 buf)
                @ new_name @ [0] @ drop params_start buf))"

definition bind_anonymous :: "bind_msg \<Rightarrow> bool" where
  "bind_anonymous b \<longleftrightarrow> b_prepared_statement b = []"

section \<open>Describe and Close\<close>

record describe_msg =
  d_code :: u8
  d_len :: u32
  d_target :: u8
  d_statement_name :: bytes

definition describe_try_from :: "bytes \<Rightarrow> codec_error + describe_msg" where
  "describe_try_from buf =
     rbind (get_u8 buf) (\<lambda>(code, r).
     rbind (get_i32 r) (\<lambda>(len, r).
     rbind (get_u8 r) (\<lambda>(target, r).
     rbind (read_string r) (\<lambda>(name, r).
       Inr \<lparr>d_code = code, d_len = len, d_target = target, d_statement_name = name\<rparr>))))"

definition target_len :: "nat \<Rightarrow> u32" where
  "target_len name = ucast (4 + 1 + of_nat name :: u64)"

definition describe_into :: "describe_msg \<Rightarrow> codec_error + bytes" where
  "describe_into d =
     rbind (cstring (d_statement_name d)) (\<lambda>name.
       Inr (d_code d # put_i32 (target_len (length name)) @ d_target d # name))"

definition describe_empty_new :: describe_msg where
  "describe_empty_new = \<lparr>d_code = of_char (CHR ''D''), d_len = 4 + 1 + 1,
     d_target = of_char (CHR ''S''), d_statement_name = []\<rparr>"

definition describe_rename :: "describe_msg \<Rightarrow> bytes \<Rightarrow> describe_msg" where
  "describe_rename d name = d\<lparr>d_statement_name := name\<rparr>"

definition describe_anonymous :: "describe_msg \<Rightarrow> bool" where
  "describe_anonymous d \<longleftrightarrow> d_statement_name d = []"

record close_msg =
  c_code :: u8
  c_len :: u32
  c_type :: u8
  c_name :: bytes

definition close_try_from :: "bytes \<Rightarrow> codec_error + close_msg" where
  "close_try_from buf =
     rbind (get_u8 buf) (\<lambda>(code, r).
     rbind (get_i32 r) (\<lambda>(len, r).
     rbind (get_u8 r) (\<lambda>(ty, r).
     rbind (read_string r) (\<lambda>(name, r).
       Inr \<lparr>c_code = code, c_len = len, c_type = ty, c_name = name\<rparr>))))"

definition close_into :: "close_msg \<Rightarrow> codec_error + bytes" where
  "close_into c =
     rbind (cstring (c_name c)) (\<lambda>name.
       Inr (c_code c # put_i32 (target_len (length name)) @ c_type c # name))"

definition close_new :: "bytes \<Rightarrow> close_msg" where
  "close_new name = \<lparr>c_code = of_char (CHR ''C''), c_len = 4 + 1 + of_nat (length name) + 1,
     c_type = of_char (CHR ''S''), c_name = name\<rparr>"

definition close_is_prepared_statement :: "close_msg \<Rightarrow> bool" where
  "close_is_prepared_statement c \<longleftrightarrow> c_type c = of_char (CHR ''S'')"

definition close_anonymous :: "close_msg \<Rightarrow> bool" where
  "close_anonymous c \<longleftrightarrow> c_name c = []"

definition close_complete :: bytes where
  "close_complete = of_char (CHR ''3'') # put_i32 4"

section \<open>Reading back what was written\<close>

text \<open>
  The contract of an element on the wire: the reader returns the element and leaves the bytes
  behind it. A counted sequence of such elements then reads back as well.
\<close>

locale element_codec =
  fixes put :: "'a \<Rightarrow> bytes" and rd :: "'a reader" and ok :: "'a \<Rightarrow> bool"
  assumes read_put: "ok x \<Longrightarrow> rd (put x @ r) = Inr (x, r)"
begin

lemma get_n_concat:
  "\<forall>x \<in> set xs. ok x \<Longrightarrow> get_n rd (length xs) (concat (map put xs) @ r) = Inr (xs, r)"
  by (induction xs) (auto simp: read_put)

end

lemma get_u8_put [codec]: "get_u8 ([b] @ r) = Inr (b, r)"
  by simp

lemma get_i16_put [codec]: "get_i16 (put_i16 w @ r) = Inr (w, r)"
  by (simp add: put_i16_def)

lemma get_i32_put [codec]: "get_i32 (put_i32 w @ r) = Inr (w, r)"
  by (simp add: put_i32_def)

interpretation byte_codec: element_codec "\<lambda>b. [b]" get_u8 "\<lambda>_. True"
  by unfold_locales (rule get_u8_put)

interpretation i16_codec: element_codec put_i16 get_i16 "\<lambda>_. True"
  by unfold_locales (rule get_i16_put)

interpretation i32_codec: element_codec put_i32 get_i32 "\<lambda>_. True"
  by unfold_locales (rule get_i32_put)

lemma get_bytes [codec]: "get_n get_u8 (length v) (v @ r) = Inr (v, r)"
  using byte_codec.get_n_concat [of v r] by simp

text \<open>A value is well formed when its length field tells its length, or is the null marker.\<close>

definition value_ok :: "u32 \<times> bytes \<Rightarrow> bool" where
  "value_ok v \<longleftrightarrow> (fst v = - 1 \<and> snd v = []) \<or> (0 \<le> sint (fst v) \<and> length (snd v) = nat (sint (fst v)))"

lemma get_value_put: "value_ok v \<Longrightarrow> get_value (put_value v @ r) = Inr (v, r)"
  by (cases v) (auto simp: value_ok_def get_value_def put_value_def codec simp flip: get_bytes)

interpretation value_codec: element_codec put_value get_value value_ok
  by unfold_locales (rule get_value_put)

text \<open>A text that a message can carry: valid UTF-8 without a zero byte.\<close>

definition text_ok :: "bytes \<Rightarrow> bool" where
  "text_ok s \<longleftrightarrow> 0 \<notin> set s \<and> utf8_valid s"

lemma read_string_put [codec]: "text_ok s \<Longrightarrow> read_string (s @ 0 # r) = Inr (s, r)"
  by (subst read_string_def, subst position_append_hit) (auto simp: text_ok_def)

lemma cstring_ok [codec]: "text_ok s \<Longrightarrow> cstring s = Inr (s @ [0])"
  by (simp add: cstring_def text_ok_def)

lemma rounds16_of_nat [codec]: "n < 2 ^ 15 \<Longrightarrow> rounds16 (of_nat n) = n"
  by (simp add: rounds16_def sint_uint signed_take_bit_int_eq_self uint_nat unat_of_nat take_bit_nat_eq_self)

lemma scast_small_nat: "n < 2 ^ 15 \<Longrightarrow> (scast (of_nat n :: u16) :: u64) = of_nat n"
  by (simp add: signed_of_nat signed_take_bit_int_eq_self)

text \<open>Truncation from 64 to 32 bits is a homomorphism.\<close>

lemma ucast_add_down: "(ucast (a + b :: u64) :: u32) = ucast a + ucast b"
proof transfer
  fix a b :: int
  have "take_bit 32 (take_bit 64 a + take_bit 64 b)
      = take_bit 32 (take_bit 32 (take_bit 64 a) + take_bit 32 (take_bit 64 b))"
    by (rule take_bit_add [symmetric])
  then show "take_bit LENGTH(32) (take_bit LENGTH(64) (a + b))
      = take_bit LENGTH(32) (take_bit LENGTH(64) a + take_bit LENGTH(64) b)"
    by (simp add: take_bit_add)
qed

lemma ucast_diff_down: "(ucast (a - b :: u64) :: u32) = ucast a - ucast b"
  using ucast_add_down [of "a - b" b] by simp

lemma ucast_of_nat_down: "(ucast (of_nat n :: u64) :: u32) = of_nat n"
  by transfer (simp add: take_bit_eq_mod mod_mod_cancel)

lemmas down_cast = ucast_add_down ucast_diff_down ucast_of_nat_down

lemma length_concat_i16 [simp]: "length (concat (map put_i16 xs)) = 2 * length xs"
  by (induction xs) auto

lemma length_concat_i32 [simp]: "length (concat (map put_i32 xs)) = 4 * length xs"
  by (induction xs) auto

section \<open>Messages\<close>

text \<open>
  The contract of a message type: encoding a well-formed message succeeds, decoding the bytes
  gives the message with its length field recomputed, and that field does not influence the
  encoding. Re-encoding what was decoded then reproduces the bytes, and different messages have
  different encodings.
\<close>

locale wire_message =
  fixes enc :: "'m \<Rightarrow> codec_error + bytes" and dec :: "bytes \<Rightarrow> codec_error + 'm"
    and wf :: "'m \<Rightarrow> bool" and set_len :: "u32 \<Rightarrow> 'm \<Rightarrow> 'm"
  assumes round_trip: "wf m \<Longrightarrow> \<exists>bs n. enc m = Inr bs \<and> dec bs = Inr (set_len n m)"
    and enc_len: "enc (set_len n m) = enc m"
    and set_len_twice: "set_len n (set_len k m) = set_len n m"
begin

lemma reencode:
  assumes "wf m" and "enc m = Inr bs"
  shows "\<exists>m'. dec bs = Inr m' \<and> enc m' = Inr bs"
  using round_trip [OF assms(1)] assms(2) enc_len by auto

lemma enc_inject:
  assumes "wf m" and "wf m'" and "enc m = enc m'"
  shows "set_len n m = set_len n m'"
proof -
  obtain bs k where m: "enc m = Inr bs" "dec bs = Inr (set_len k m)"
    using round_trip [OF assms(1)] by blast
  obtain bs' k' where "enc m' = Inr bs'" "dec bs' = Inr (set_len k' m')"
    using round_trip [OF assms(2)] by blast
  with m assms(3) have "Inr (set_len k m) = (Inr (set_len k' m') :: codec_error + 'm)"
    by (metis sum.inject(2))
  then have "set_len k m = set_len k' m'" by simp
  then have "set_len n (set_len k m) = set_len n (set_len k' m')" by simp
  then show ?thesis by (simp add: set_len_twice)
qed

end

definition parse_wf :: "parse_msg \<Rightarrow> bool" where
  "parse_wf p \<longleftrightarrow> text_ok (p_name p) \<and> text_ok (p_query p) \<and> length (p_param_types p) < 2 ^ 15
     \<and> p_num_params p = of_nat (length (p_param_types p))"

lemma parse_decode_encode:
  assumes "parse_wf p"
  obtains bs where "parse_into p = Inr bs"
    and "parse_try_from bs = Inr (p\<lparr>p_len := of_nat (length bs - 1)\<rparr>)"
proof -
  let ?n = "length (p_param_types p)"
  have ok: "text_ok (p_name p)" "text_ok (p_query p)" "?n < 2 ^ 15" "p_num_params p = of_nat ?n"
    using assms by (auto simp: parse_wf_def)
  let ?bs = "p_code p # put_i32 (parse_len (length (p_name p) + 1) (length (p_query p) + 1) (p_num_params p))
     @ p_name p @ 0 # p_query p @ 0 # put_i16 (p_num_params p) @ concat (map put_i32 (p_param_types p))"
  have enc: "parse_into p = Inr ?bs"
    using ok by (simp add: parse_into_def cstring_ok)
  have "parse_len (length (p_name p) + 1) (length (p_query p) + 1) (p_num_params p)
      = ucast (of_nat (length ?bs - 1) :: u64)"
    unfolding parse_len_def ok(4) scast_small_nat [OF ok(3)] by (simp add: algebra_simps)
  then have len: "parse_len (length (p_name p) + 1) (length (p_query p) + 1) (p_num_params p)
      = of_nat (length ?bs - 1)"
    by (simp only: down_cast)
  have "parse_try_from ?bs = Inr (p\<lparr>p_len :=
      parse_len (length (p_name p) + 1) (length (p_query p) + 1) (p_num_params p)\<rparr>)"
    using ok i32_codec.get_n_concat [of "p_param_types p" "[]"]
    by (simp add: parse_try_from_def codec)
  then show thesis using enc len that by metis
qed

interpretation parse_wire: wire_message parse_into parse_try_from parse_wf
  "\<lambda>n p. p\<lparr>p_len := n\<rparr>"
proof
  fix m assume "parse_wf m"
  then show "\<exists>bs n. parse_into m = Inr bs \<and> parse_try_from bs = Inr (m\<lparr>p_len := n\<rparr>)"
    by (metis parse_decode_encode)
qed (simp_all add: parse_into_def)

definition nulls :: "bind_msg \<Rightarrow> nat" where
  "nulls b = length (filter (\<lambda>v. fst v = - 1) (b_param_values b))"

definition bind_wf :: "bind_msg \<Rightarrow> bool" where
  "bind_wf b \<longleftrightarrow> text_ok (b_portal b) \<and> text_ok (b_prepared_statement b)
     \<and> length (b_param_format_codes b) < 2 ^ 15
     \<and> b_num_param_format_codes b = of_nat (length (b_param_format_codes b))
     \<and> length (b_param_values b) < 2 ^ 15
     \<and> b_num_param_values b = of_nat (length (b_param_values b))
     \<and> list_all value_ok (b_param_values b)
     \<and> length (b_result_columns_format_codes b) < 2 ^ 15
     \<and> b_num_result_column_format_codes b = of_nat (length (b_result_columns_format_codes b))"

text \<open>A null counts 3 bytes instead of 4 in the length field, every other value its size.\<close>

lemma value_len_ok:
  assumes "value_ok v"
  shows "value_len v = of_nat (length (put_value v)) - (if fst v = - 1 then 1 else 0)"
proof (cases "fst v = - 1")
  case True
  then show ?thesis
    using assms by (auto simp: value_ok_def value_len_def put_value_def)
next
  case False
  then have "0 \<le> sint (fst v)" "length (snd v) = nat (sint (fst v))"
    using assms by (auto simp: value_ok_def)
  then have "sint (fst v) = int (length (snd v))" by simp
  then have "(scast (fst v) :: u64) = of_nat (length (snd v))"
    by (simp only: scast_eq of_int_of_nat_eq)
  then show ?thesis
    using False by (simp add: value_len_def put_value_def)
qed

lemma sum_value_len:
  "list_all value_ok vs \<Longrightarrow> sum_list (map value_len vs)
     = of_nat (length (concat (map put_value vs))) - of_nat (length (filter (\<lambda>v. fst v = - 1) vs))"
  by (induction vs) (auto simp: value_len_ok)

abbreviation bind_bytes :: "bind_msg \<Rightarrow> bytes" where
  "bind_bytes b \<equiv> b_code b
     # put_i32 (bind_len (length (b_portal b) + 1) (length (b_prepared_statement b) + 1) b)
     @ b_portal b @ 0 # b_prepared_statement b @ 0 # bind_tail b"

lemma bind_into_ok:
  "text_ok (b_portal b) \<Longrightarrow> text_ok (b_prepared_statement b) \<Longrightarrow> bind_into b = Inr (bind_bytes b)"
  by (simp add: bind_into_def cstring_ok)

lemma bind_len_wf:
  assumes "bind_wf b"
  shows "bind_len (length (b_portal b) + 1) (length (b_prepared_statement b) + 1) b
    = of_nat (length (bind_bytes b) - 1) - of_nat (nulls b)"
proof -
  let ?nf = "length (b_param_format_codes b)" and ?nr = "length (b_result_columns_format_codes b)"
  have w: "?nf < 2 ^ 15" "b_num_param_format_codes b = of_nat ?nf" "?nr < 2 ^ 15"
    "b_num_result_column_format_codes b = of_nat ?nr" "list_all value_ok (b_param_values b)"
    using assms by (auto simp: bind_wf_def)
  have "bind_len (length (b_portal b) + 1) (length (b_prepared_statement b) + 1) b
    = ucast (of_nat (length (bind_bytes b) - 1) - of_nat (nulls b) :: u64)"
    unfolding bind_len_def w(2,4) scast_small_nat [OF w(1)] scast_small_nat [OF w(3)]
      sum_value_len [OF w(5)]
    by (simp add: algebra_simps bind_tail_def nulls_def)
  then show ?thesis
    by (simp only: down_cast)
qed

lemma bind_decode_encode:
  assumes "bind_wf b"
  shows "bind_try_from (bind_bytes b) = Inr (b\<lparr>b_len :=
     bind_len (length (b_portal b) + 1) (length (b_prepared_statement b) + 1) b\<rparr>)"
proof -
  have "text_ok (b_portal b)" "text_ok (b_prepared_statement b)"
    and n: "rounds16 (b_num_param_format_codes b) = length (b_param_format_codes b)"
      "rounds16 (b_num_param_values b) = length (b_param_values b)"
      "rounds16 (b_num_result_column_format_codes b) = length (b_result_columns_format_codes b)"
    and v: "\<forall>v \<in> set (b_param_values b). value_ok v"
    using assms by (auto simp: bind_wf_def rounds16_of_nat list_all_iff)
  then show ?thesis
    using i16_codec.get_n_concat [of "b_param_format_codes b"]
      value_codec.get_n_concat [OF v]
      i16_codec.get_n_concat [of "b_result_columns_format_codes b" "[]"]
    by (simp add: bind_try_from_def bind_tail_def codec)
qed

interpretation bind_wire: wire_message bind_into bind_try_from bind_wf "\<lambda>n b. b\<lparr>b_len := n\<rparr>"
proof
  fix m assume wf: "bind_wf m"
  then have "bind_into m = Inr (bind_bytes m)"
    by (intro bind_into_ok) (auto simp: bind_wf_def)
  then show "\<exists>bs n. bind_into m = Inr bs \<and> bind_try_from bs = Inr (m\<lparr>b_len := n\<rparr>)"
    using bind_decode_encode [OF wf] by blast
qed (simp_all add: bind_into_def bind_len_def bind_tail_def)

text \<open>
  The in-place renaming works on the bytes without decoding them; it computes what decoding,
  replacing the statement name and encoding again would.
\<close>

lemma drop_header: "drop (n + 5) (c # put_i32 l @ xs) = drop n xs"
  by (simp add: put_i32_def numeral_eq_Suc)

lemma bind_scan_ok:
  assumes "0 \<notin> set portal" and "0 \<notin> set stmt"
  shows "bind_scan (code # put_i32 len @ portal @ 0 # stmt @ 0 # rest)
    = Inr (length portal + 5, length portal + 5 + 1, length stmt + (length portal + 5 + 1))"
proof -
  let ?buf = "code # put_i32 len @ portal @ 0 # stmt @ 0 # rest"
  have "position (\<lambda>b. b = 0) (portal @ 0 # stmt @ 0 # rest) = Some (length portal)"
    "position (\<lambda>b. b = 0) (stmt @ 0 # rest) = Some (length stmt)"
    using assms by (auto intro!: position_append_hit)
  moreover have "drop 5 ?buf = portal @ 0 # stmt @ 0 # rest"
    "drop (length portal + 5 + 1) ?buf = stmt @ 0 # rest"
    using drop_header [of 0 code len] drop_header [of "length portal + 1" code len] by simp_all
  ultimately show ?thesis
    unfolding bind_scan_def by (simp only: Let_def option.case) simp
qed

lemma bind_rename_bytes:
  assumes "0 \<notin> set portal" and "0 \<notin> set stmt"
  shows "bind_rename (code # put_i32 len @ portal @ 0 # stmt @ 0 # rest) name
    = Inr (code # put_i32 (len + of_nat (length name) - of_nat (length stmt))
        @ portal @ 0 # name @ 0 # rest)"
proof -
  let ?buf = "code # put_i32 len @ portal @ 0 # stmt @ 0 # rest"
  have d: "drop 5 ?buf = portal @ 0 # stmt @ 0 # rest"
    "drop (length stmt + (length portal + 5 + 1) + 1) ?buf = rest"
    using drop_header [of 0 code len]
      drop_header [of "length stmt + length portal + 1 + 1" code len "portal @ 0 # stmt @ 0 # rest"]
    by (simp_all add: algebra_simps)
  have l: "be32 (?buf ! 1) (?buf ! 2) (?buf ! 3) (?buf ! 4) = len"
    by (simp add: put_i32_def)
  show ?thesis
    unfolding bind_rename_def bind_scan_ok [OF assms] rbind.simps prod.case Let_def d l by simp
qed

lemma bind_len_add: "bind_len m k b = bind_len m 0 b + of_nat k"
  unfolding bind_len_def ucast_of_nat_down [of k, symmetric] ucast_add_down [symmetric]
  by (rule arg_cong [where f = ucast]) (simp add: add_ac)

lemma bind_len_rename:
  "bind_len m (length name + 1) (b\<lparr>b_prepared_statement := name\<rparr>)
     = bind_len m (length stmt + 1) b + of_nat (length name) - of_nat (length stmt)"
proof -
  have "bind_len m 0 (b\<lparr>b_prepared_statement := name\<rparr>) = bind_len m 0 b"
    by (simp add: bind_len_def)
  then show ?thesis
    by (simp add: bind_len_add [of m "Suc (length name)"] bind_len_add [of m "Suc (length stmt)"])
qed

lemma bind_get_name_bytes:
  assumes "0 \<notin> set portal" and "text_ok stmt"
  shows "bind_get_name (code # put_i32 len @ portal @ 0 # stmt @ 0 # rest) = Inr stmt"
proof -
  have z: "0 \<notin> set stmt" and u: "from_utf8_lossy stmt = stmt"
    using assms(2) by (auto simp: text_ok_def)
  have "drop (length portal + 5 + 1) (code # put_i32 len @ portal @ 0 # stmt @ 0 # rest)
      = stmt @ 0 # rest"
    using drop_header [of "length portal + 1" code len] by simp
  then show ?thesis
    unfolding bind_get_name_def bind_scan_ok [OF assms(1) z] rbind.simps prod.case
    by (simp only: add_diff_cancel_right' append_eq_conv_conj take_append) (simp add: u)
qed

text \<open>The name read from a renamed message is the new name.\<close>

lemma bind_get_name_rename:
  assumes "0 \<notin> set portal" and "0 \<notin> set stmt" and "text_ok name"
  shows "rbind (bind_rename (code # put_i32 len @ portal @ 0 # stmt @ 0 # rest) name)
      bind_get_name = Inr name"
  using assms by (simp add: bind_rename_bytes bind_get_name_bytes)

lemma target_len_eq: "target_len n = of_nat (n + 5)"
  unfolding target_len_def by (simp add: ucast_add_down ucast_of_nat_down)

lemma describe_decode_encode:
  assumes "text_ok (d_statement_name d)"
  shows "\<exists>bs. describe_into d = Inr bs
    \<and> describe_try_from bs = Inr (d\<lparr>d_len := of_nat (length bs - 1)\<rparr>)"
  using assms by (simp add: describe_into_def describe_try_from_def target_len_eq codec)

lemma close_decode_encode:
  assumes "text_ok (c_name c)"
  shows "\<exists>bs. close_into c = Inr bs
    \<and> close_try_from bs = Inr (c\<lparr>c_len := of_nat (length bs - 1)\<rparr>)"
  using assms by (simp add: close_into_def close_try_from_def target_len_eq codec)

interpretation describe_wire: wire_message describe_into describe_try_from
  "\<lambda>d. text_ok (d_statement_name d)" "\<lambda>n d. d\<lparr>d_len := n\<rparr>"
proof
  fix m :: describe_msg assume "text_ok (d_statement_name m)"
  then show "\<exists>bs n. describe_into m = Inr bs \<and> describe_try_from bs = Inr (m\<lparr>d_len := n\<rparr>)"
    using describe_decode_encode by blast
qed (simp_all add: describe_into_def)

interpretation close_wire: wire_message close_into close_try_from
  "\<lambda>c. text_ok (c_name c)" "\<lambda>n c. c\<lparr>c_len := n\<rparr>"
proof
  fix m :: close_msg assume "text_ok (c_name m)"
  then show "\<exists>bs n. close_into m = Inr bs \<and> close_try_from bs = Inr (m\<lparr>c_len := n\<rparr>)"
    using close_decode_encode by blast
qed (simp_all add: close_into_def)

lemma doorman_name_inject [simp]: "doorman_name m = doorman_name n \<longleftrightarrow> m = n"
  by (simp add: doorman_name_def word_unat_eq_iff)

section \<open>Properties\<close>

text \<open>
  C18. Round trip of Parse: a well-formed message is encoded, decoding the bytes gives the same
  message, and its length field is the number of bytes after the message code.
\<close>

theorem parse_round_trip:
  assumes "parse_wf p"
  shows "\<exists>bs. parse_into p = Inr bs \<and> parse_try_from bs = Inr (p\<lparr>p_len := of_nat (length bs - 1)\<rparr>)"
  using parse_decode_encode [OF assms] by blast

text \<open>
  C17. Round trip of Bind: all fields survive. The length field is the number of bytes after the
  message code minus one for every null parameter, because \<^verbatim>\<open>-1 as usize\<close> is added to the four
  bytes of its length.
\<close>

theorem bind_round_trip:
  assumes "bind_wf b"
  shows "\<exists>bs. bind_into b = Inr bs
    \<and> bind_try_from bs = Inr (b\<lparr>b_len := of_nat (length bs - 1) - of_nat (nulls b)\<rparr>)"
proof -
  have "bind_into b = Inr (bind_bytes b)"
    using assms by (intro bind_into_ok) (auto simp: bind_wf_def)
  then show ?thesis
    using bind_decode_encode [OF assms] bind_len_wf [OF assms] by simp
qed


section \<open>Witnesses\<close>

definition select_parse :: parse_msg where
  "select_parse = \<lparr>p_code = 0x50, p_len = 0, p_name = ascii ''s1'', p_query = ascii ''SELECT $1'',
     p_num_params = 1, p_param_types = [23]\<rparr>"

definition null_bind :: bind_msg where
  "null_bind = \<lparr>b_code = 0x42, b_len = 0, b_portal = [], b_prepared_statement = ascii ''s1'',
     b_num_param_format_codes = 1, b_param_format_codes = [0],
     b_num_param_values = 2, b_param_values = [(- 1, []), (2, [0x37, 0x38])],
     b_num_result_column_format_codes = 0, b_result_columns_format_codes = []\<rparr>"

theorem parse_round_trip_witness:
  "parse_wf select_parse
   \<and> (\<exists>bs. parse_into select_parse = Inr bs
        \<and> parse_try_from bs = Inr (select_parse\<lparr>p_len := of_nat (length bs - 1)\<rparr>))"
proof -
  have "text_ok (ascii ''s1'')" "text_ok (ascii ''SELECT $1'')" by code_simp+
  then have wf: "parse_wf select_parse" by (simp add: parse_wf_def select_parse_def)
  with parse_round_trip [OF wf] show ?thesis by simp
qed

lemma null_bind_wf: "bind_wf null_bind"
proof -
  have "text_ok []" "text_ok (ascii ''s1'')" by code_simp+
  then show ?thesis by (simp add: bind_wf_def null_bind_def value_ok_def)
qed

theorem bind_round_trip_witness:
  "bind_wf null_bind \<and> nulls null_bind = 1
   \<and> (\<exists>bs. bind_into null_bind = Inr bs
        \<and> bind_try_from bs = Inr (null_bind\<lparr>b_len := of_nat (length bs - 1) - 1\<rparr>))"
proof -
  have "nulls null_bind = 1" by (simp add: nulls_def null_bind_def)
  with bind_round_trip [OF null_bind_wf] null_bind_wf show ?thesis by simp
qed


end
