(* ===== verification/Backend_Messages.thy ===== *)
theory Backend_Messages
  imports Extended_Messages
begin

text \<open>
  The messages of \<^verbatim>\<open>src/src/messages/protocol.rs\<close>: builders for the messages the pooler sends,
  the readers of startup and password messages, and the functions that scan a buffered response
  frame by frame to insert ParseComplete and CloseComplete messages.

  A function that writes to a stream is modelled by the bytes it writes; its only error is the
  failure of that write. Positions are natural numbers taken modulo \<open>2^64\<close> where the code adds a
  sign-extended length to them; a scanner that loops forever on a malformed length, or panics on a
  slice, has the value \<open>None\<close>. Text arguments are the UTF-8 bytes of the string.
\<close>

section \<open>Frames\<close>

type_synonym frame = "u8 \<times> bytes"

definition frame_bytes :: "frame \<Rightarrow> bytes" where
  "frame_bytes f = fst f # put_i32 (of_nat (length (snd f)) + 4) @ snd f"

definition frames :: "frame list \<Rightarrow> bytes" where
  "frames fs = concat (map frame_bytes fs)"

definition frame_ok :: "frame \<Rightarrow> bool" where
  "frame_ok f \<longleftrightarrow> length (snd f) + 4 < 2 ^ 31"

definition code :: "char \<Rightarrow> u8" where
  "code c = of_nat (of_char c)"

section \<open>Builders\<close>

definition md5_challenge :: "bytes \<Rightarrow> bytes" where
  "md5_challenge salt = code (CHR ''R'') # put_i32 12 @ put_i32 5 @ salt"

definition plain_password_challenge :: bytes where
  "plain_password_challenge = code (CHR ''R'') # put_i32 8 @ put_i32 3"

definition scram_start_challenge :: bytes where
  "scram_start_challenge =
     code (CHR ''R'') # put_i32 23 @ put_i32 10 @ ascii ''SCRAM-SHA-256'' @ [0, 0]"

definition scram_server_response :: "u32 \<Rightarrow> bytes \<Rightarrow> bytes" where
  "scram_server_response c msg =
     code (CHR ''R'') # put_i32 (4 + 4 + of_nat (length msg)) @ put_i32 c @ msg"

definition simple_query :: "bytes \<Rightarrow> bytes" where
  "simple_query q = code (CHR ''Q'') # put_i32 (4 + of_nat (length q) + 1) @ q @ [0]"

definition ssl_request :: bytes where
  "ssl_request = put_i32 8 @ put_i32 80877103"

text \<open>\<^verbatim>\<open>md5\<close> is the digest function of a third-party crate; two updates hash the concatenation.\<close>

definition hex_digit :: "u8 \<Rightarrow> u8" where
  "hex_digit n = (if n < 10 then 48 + n else 87 + n)"

definition hex_lower :: "bytes \<Rightarrow> bytes" where
  "hex_lower bs = concat (map (\<lambda>b. [hex_digit (b div 16), hex_digit (b mod 16)]) bs)"

definition md5_hash_second_pass :: "(bytes \<Rightarrow> bytes) \<Rightarrow> bytes \<Rightarrow> bytes \<Rightarrow> bytes" where
  "md5_hash_second_pass md5 hash salt = ascii ''md5'' @ hex_lower (md5 (hash @ salt)) @ [0]"

definition md5_hash_password :: "(bytes \<Rightarrow> bytes) \<Rightarrow> bytes \<Rightarrow> bytes \<Rightarrow> bytes \<Rightarrow> bytes" where
  "md5_hash_password md5 user password salt =
     md5_hash_second_pass md5 (hex_lower (md5 (password @ user))) salt"

definition md5_password_with_hash :: "(bytes \<Rightarrow> bytes) \<Rightarrow> bytes \<Rightarrow> bytes \<Rightarrow> bytes" where
  "md5_password_with_hash md5 hash salt =
     (let password = md5_hash_second_pass md5 hash salt
      in code (CHR ''p'') # put_i32 (of_nat (length password) + 4) @ password)"

definition md5_password :: "(bytes \<Rightarrow> bytes) \<Rightarrow> bytes \<Rightarrow> bytes \<Rightarrow> bytes \<Rightarrow> bytes" where
  "md5_password md5 user pw salt =
     (let password = md5_hash_password md5 user pw salt
      in code (CHR ''p'') # put_i32 (of_nat (length password) + 4) @ password)"

definition ready_for_query :: "bool \<Rightarrow> bytes" where
  "ready_for_query in_transaction =
     code (CHR ''Z'') # put_i32 5 @ [if in_transaction then code (CHR ''T'') else code (CHR ''I'')]"

definition error_fields :: "bytes \<Rightarrow> bytes \<Rightarrow> bytes" where
  "error_fields message sqlstate =
     code (CHR ''S'') # ascii ''FATAL'' @ [0] @ code (CHR ''V'') # ascii ''FATAL'' @ [0]
     @ code (CHR ''C'') # sqlstate @ [0] @ code (CHR ''M'') # message @ [0] @ [0]"

definition error_message :: "bytes \<Rightarrow> bytes \<Rightarrow> bytes" where
  "error_message message sqlstate =
     (let error = error_fields message sqlstate
      in code (CHR ''E'') # put_i32 (of_nat (length error) + 4) @ error)"

definition error_response :: "bytes \<Rightarrow> bytes \<Rightarrow> bytes" where
  "error_response message sqlstate = error_message message sqlstate @ ready_for_query False"

definition wrong_password :: "bytes \<Rightarrow> bytes" where
  "wrong_password user =
     (let error = error_fields (ascii ''password authentication failed for user '' @ [34] @ user @ [34])
                    (ascii ''28P01'')
      in code (CHR ''E'') # put_i32 (of_nat (length error) + 4) @ error)"

datatype data_type = Text | Int4 | Numeric | Bool | Oid | AnyArray | Any

primrec type_oid :: "data_type \<Rightarrow> u32" where
  "type_oid Text = 25"
| "type_oid Int4 = 23"
| "type_oid Numeric = 1700"
| "type_oid Bool = 16"
| "type_oid Oid = 26"
| "type_oid AnyArray = 2277"
| "type_oid Any = 2276"

primrec type_size :: "data_type \<Rightarrow> u16" where
  "type_size Text = - 1"
| "type_size Int4 = 4"
| "type_size Numeric = - 1"
| "type_size Bool = 1"
| "type_size Oid = 4"
| "type_size AnyArray = - 1"
| "type_size Any = - 1"

definition column_description :: "bytes \<times> data_type \<Rightarrow> bytes" where
  "column_description c = fst c @ [0] @ put_i32 0 @ put_i16 0 @ put_i32 (type_oid (snd c))
     @ put_i16 (type_size (snd c)) @ put_i32 (- 1) @ put_i16 0"

definition row_description :: "(bytes \<times> data_type) list \<Rightarrow> bytes" where
  "row_description columns =
     (let row_desc = put_i16 (of_nat (length columns)) @ concat (map column_description columns)
      in code (CHR ''T'') # put_i32 (of_nat (length row_desc) + 4) @ row_desc)"

definition nullable_value :: "bytes option \<Rightarrow> bytes" where
  "nullable_value v =
     (case v of Some s \<Rightarrow> put_i32 (of_nat (length s)) @ s | None \<Rightarrow> put_i32 (- 1))"

definition data_row_nullable :: "bytes option list \<Rightarrow> bytes" where
  "data_row_nullable row =
     (let d = put_i16 (of_nat (length row)) @ concat (map nullable_value row)
      in code (CHR ''D'') # put_i32 (of_nat (length d) + 4) @ d)"

definition data_row :: "bytes list \<Rightarrow> bytes" where
  "data_row row =
     (let d = put_i16 (of_nat (length row))
                @ concat (map (\<lambda>s. put_i32 (of_nat (length s)) @ s) row)
      in code (CHR ''D'') # put_i32 (of_nat (length d) + 4) @ d)"

definition command_complete :: "bytes \<Rightarrow> bytes" where
  "command_complete command =
     code (CHR ''C'') # put_i32 (of_nat (length command) + 4 + 1) @ command @ [0]"

definition notify :: "bytes \<Rightarrow> bytes \<Rightarrow> bytes" where
  "notify channel payload =
     (let n = put_i32 0 @ channel @ [0] @ payload @ [0]
      in code (CHR ''A'') # put_i32 (of_nat (length n) + 4) @ n)"

definition flush_msg :: bytes where
  "flush_msg = code (CHR ''H'') # put_i32 4"

definition sync_msg :: bytes where
  "sync_msg = code (CHR ''S'') # put_i32 4"

definition parse_complete :: bytes where
  "parse_complete = code (CHR ''1'') # put_i32 4"

definition deallocate_response :: bytes where
  "deallocate_response =
     parse_complete @ command_complete (ascii ''DEALLOCATE'') @ ready_for_query False"

definition server_parameter_message :: "bytes \<Rightarrow> bytes \<Rightarrow> bytes" where
  "server_parameter_message key v =
     code (CHR ''S'') # put_i32 (4 + of_nat (length key) + 1 + of_nat (length v) + 1)
       @ key @ [0] @ v @ [0]"

section \<open>Readers\<close>

datatype proto_error = SocketError | ProtocolSyncError | ClientBadStartup | TaskPanic

text \<open>
  \<^verbatim>\<open>read_password\<close> on the bytes the stream delivers before it ends. A length below four makes
  the buffer size negative, and the allocation panics.
\<close>

definition read_password :: "bytes \<Rightarrow> proto_error + (bytes \<times> bytes)" where
  "read_password input =
     (case input of
        [] \<Rightarrow> Inl SocketError
      | c # r \<Rightarrow>
          if c \<noteq> code (CHR ''p'') then Inl ProtocolSyncError
          else (case r of
             l0 # l1 # l2 # l3 # r' \<Rightarrow>
               (let n = be32 l0 l1 l2 l3 - 4
                in if sint n < 0 then Inl TaskPanic
                   else if length r' < nat (sint n) then Inl SocketError
                   else Inr (take (nat (sint n)) r', drop (nat (sint n)) r'))
           | _ \<Rightarrow> Inl SocketError))"

text \<open>
  The zero-terminated strings of a parameter list; an unterminated last string reads past the end of
  the buffer, which panics. Empty strings are dropped.
\<close>

function cstrings :: "bytes \<Rightarrow> bytes list option" where
  "cstrings bs =
     (if bs = [] then Some []
      else (case position (\<lambda>b. b = 0) bs of
              None \<Rightarrow> None
            | Some i \<Rightarrow>
                map_option (\<lambda>ss. (if i = 0 then ss else take i bs # ss))
                  (cstrings (drop (i + 1) bs))))"
  by pat_completeness auto
termination
  by (relation "measure length") (auto dest: position_bound)

declare cstrings.simps [simp del]

fun insert_pairs :: "bytes list \<Rightarrow> (bytes \<rightharpoonup> bytes) \<Rightarrow> (bytes \<rightharpoonup> bytes)" where
  "insert_pairs (k # v # r) m = insert_pairs r (m(k \<mapsto> v))"
| "insert_pairs _ m = m"

definition parse_params :: "bytes \<Rightarrow> proto_error + (bytes \<rightharpoonup> bytes)" where
  "parse_params bs =
     (case cstrings bs of
        None \<Rightarrow> Inl TaskPanic
      | Some buf \<Rightarrow>
          if length buf mod 2 \<noteq> 0 \<or> length buf < 2 then Inl ProtocolSyncError
          else Inr (insert_pairs buf Map.empty))"

definition parse_startup :: "bytes \<Rightarrow> proto_error + (bytes \<rightharpoonup> bytes)" where
  "parse_startup bs =
     rbind (parse_params bs) (\<lambda>m. if m (ascii ''user'') = None then Inl ClientBadStartup else Inr m)"

section \<open>Response scanners\<close>

definition ends_with_idle_ready_for_query :: "bytes \<Rightarrow> bool" where
  "ends_with_idle_ready_for_query bs \<longleftrightarrow>
     (let rfq = [code (CHR ''Z''), 0, 0, 0, 5, code (CHR ''I'')]
      in length rfq \<le> length bs \<and> drop (length bs - length rfq) bs = rfq)"

definition frame_len :: "bytes \<Rightarrow> u32" where
  "frame_len bs = be32 (bs ! 1) (bs ! 2) (bs ! 3) (bs ! 4)"

function has_error_response :: "bytes \<Rightarrow> bool" where
  "has_error_response bs =
     (if length bs < 5 then False
      else if hd bs = code (CHR ''E'') then True
      else if sint (frame_len bs) < 4 then False
      else if 1 + nat (sint (frame_len bs)) > length bs then False
      else has_error_response (drop (1 + nat (sint (frame_len bs))) bs))"
  by pat_completeness auto
termination
  by (relation "measure length") auto

declare has_error_response.simps [simp del]

definition needs_parse_complete :: "u8 \<Rightarrow> bool" where
  "needs_parse_complete t \<longleftrightarrow> t = code (CHR ''2'') \<or> t = code (CHR ''t'')"

text \<open>\<^verbatim>\<open>pos += 1 + msg_len\<close>, with the length sign-extended to 64 bits.\<close>

definition next_pos :: "bytes \<Rightarrow> nat \<Rightarrow> nat" where
  "next_pos bs pos = unat (of_nat pos + (1 + scast (frame_len (drop pos bs)) :: u64))"

text \<open>The scan for insertion positions, which stops after the requested number of them.\<close>

partial_function (option) find_insertions ::
  "(u8 \<Rightarrow> u8 \<Rightarrow> bool) \<Rightarrow> bytes \<Rightarrow> nat \<Rightarrow> nat \<Rightarrow> u8 \<Rightarrow> nat list option" where
  "find_insertions hit bs n pos prev =
     (if pos + 5 > length bs \<or> n = 0 then Some []
      else if hit (bs ! pos) prev
      then Option.bind (find_insertions hit bs (n - 1) (next_pos bs pos) (bs ! pos))
             (\<lambda>ps. Some (pos # ps))
      else find_insertions hit bs n (next_pos bs pos) (bs ! pos))"

text \<open>Copying the buffer with a message before each position; a slice that runs backwards panics.\<close>

fun insert_at :: "bytes \<Rightarrow> bytes \<Rightarrow> nat \<Rightarrow> nat list \<Rightarrow> bytes option" where
  "insert_at msg bs start [] = (if start \<le> length bs then Some (drop start bs) else None)"
| "insert_at msg bs start (p # ps) =
     (if start \<le> p \<and> p \<le> length bs
      then map_option (\<lambda>r. take (p - start) (drop start bs) @ msg @ r) (insert_at msg bs p ps)
      else None)"

definition insert_before :: "(u8 \<Rightarrow> u8 \<Rightarrow> bool) \<Rightarrow> bytes \<Rightarrow> nat \<Rightarrow> (bytes \<times> nat) option" where
  "insert_before hit bs n =
     Option.bind (find_insertions hit bs n 0 0) (\<lambda>ps.
       if ps = [] then Some (bs, 0)
       else Option.bind (insert_at parse_complete bs 0 ps) (\<lambda>r. Some (r, length ps)))"

definition bind_hit :: "u8 \<Rightarrow> u8 \<Rightarrow> bool" where
  "bind_hit t prev \<longleftrightarrow> needs_parse_complete t \<and> prev \<noteq> code (CHR ''1'')"

text \<open>The path for a single insertion, which keeps no list of positions.\<close>

partial_function (option) insert_first :: "bytes \<Rightarrow> nat \<Rightarrow> u8 \<Rightarrow> (bytes \<times> nat) option" where
  "insert_first bs pos prev =
     (if pos + 5 > length bs then Some (bs, 0)
      else if bind_hit (bs ! pos) prev
      then Some (take pos bs @ parse_complete @ drop pos bs, 1)
      else insert_first bs (next_pos bs pos) (bs ! pos))"

definition insert_parse_complete_before_bind_complete ::
  "bytes \<Rightarrow> nat \<Rightarrow> (bytes \<times> nat) option" where
  "insert_parse_complete_before_bind_complete bs n =
     (if n = 0 then Some (bs, 0)
      else if n = 1 then insert_first bs 0 0
      else insert_before bind_hit bs n)"

definition insert_parse_complete_before_parameter_description ::
  "bytes \<Rightarrow> nat \<Rightarrow> (bytes \<times> nat) option" where
  "insert_parse_complete_before_parameter_description bs n =
     (if n = 0 then Some (bs, 0) else insert_before (\<lambda>t prev. t = code (CHR ''t'')) bs n)"

text \<open>The end of the last CloseComplete of the buffer.\<close>

partial_function (option) last_close ::
  "bytes \<Rightarrow> nat \<Rightarrow> nat option \<Rightarrow> nat option option" where
  "last_close bs pos found =
     (if pos + 5 > length bs then Some found
      else last_close bs (next_pos bs pos)
             (if bs ! pos = code (CHR ''3'') then Some (next_pos bs pos) else found))"

definition ends_with_ready :: "bytes \<Rightarrow> bool" where
  "ends_with_ready bs \<longleftrightarrow> 6 \<le> length bs \<and> bs ! (length bs - 6) = code (CHR ''Z'')"

definition before_ready :: "nat \<Rightarrow> bytes \<Rightarrow> bytes" where
  "before_ready n bs = take (length bs - 6) bs @ concat (replicate n close_complete)
     @ drop (length bs - 6) bs"

definition insert_close_complete_after_last_close_complete ::
  "bytes \<Rightarrow> nat \<Rightarrow> (bytes \<times> nat) option" where
  "insert_close_complete_after_last_close_complete bs n =
     (if n = 0 then Some (bs, 0)
      else Option.bind (last_close bs 0 None) (\<lambda>found.
        case found of
          Some p \<Rightarrow>
            if p \<le> length bs
            then Some (take p bs @ concat (replicate n close_complete) @ drop p bs, n)
            else None
        | None \<Rightarrow> if ends_with_ready bs then Some (before_ready n bs, n) else Some (bs, 0)))"

text \<open>
  The in-place variant works on the allocation itself: \<open>mem\<close> is the memory of the buffer up to its
  capacity, \<^verbatim>\<open>ptr::copy\<close> overwrites a region with another one, and the length is set at the end.
\<close>

definition overwrite :: "nat \<Rightarrow> bytes \<Rightarrow> bytes \<Rightarrow> bytes" where
  "overwrite dst xs mem = take dst mem @ xs @ drop (dst + length xs) mem"

fun write_repeated :: "bytes \<Rightarrow> nat \<Rightarrow> nat \<Rightarrow> bytes \<Rightarrow> bytes" where
  "write_repeated msg offset 0 mem = mem"
| "write_repeated msg offset (Suc n) mem =
     write_repeated msg (offset + length msg) n (overwrite offset msg mem)"

definition close_complete_in_place :: "bytes \<Rightarrow> nat \<Rightarrow> nat \<Rightarrow> bytes" where
  "close_complete_in_place mem len n =
     (let rfq_start = len - 6; insert_size = 5 * n;
          moved = overwrite (rfq_start + insert_size) (take 6 (drop rfq_start mem)) mem
      in take (len + insert_size) (write_repeated close_complete rfq_start n moved))"

definition insert_close_complete_before_ready_for_query :: "bytes \<Rightarrow> bytes \<Rightarrow> nat \<Rightarrow> bytes" where
  "insert_close_complete_before_ready_for_query bs spare n =
     (if n = 0 then bs
      else if ends_with_ready bs
      then (if length spare \<ge> 5 * n then close_complete_in_place (bs @ spare) (length bs) n
            else before_ready n bs)
      else bs @ concat (replicate n close_complete))"

section \<open>Frame lemmas\<close>

lemma length_frame_bytes [simp]: "length (frame_bytes f) = 5 + length (snd f)"
  by (simp add: frame_bytes_def)

lemma frames_simps [simp]: "frames [] = []" "frames (f # fs) = frame_bytes f @ frames fs"
  "frames (fs @ gs) = frames fs @ frames gs"
  by (simp_all add: frames_def)

lemma frame_len_frame: "frame_len (frame_bytes f @ r) = of_nat (length (snd f) + 4)"
  by (simp add: frame_len_def frame_bytes_def put_i32_def)

lemma hd_frame [simp]: "hd (frame_bytes f @ r) = fst f" "(frame_bytes f @ r) ! 0 = fst f"
  "frame_bytes f \<noteq> []"
  by (simp_all add: frame_bytes_def)

lemma sint_small_nat: "n < 2 ^ 31 \<Longrightarrow> sint (of_nat n :: u32) = int n"
  by (simp add: sint_uint signed_take_bit_int_eq_self uint_nat unat_of_nat take_bit_nat_eq_self)

lemma sint_frame_len: "frame_ok f \<Longrightarrow> sint (frame_len (frame_bytes f @ r)) = int (length (snd f) + 4)"
  unfolding frame_len_frame frame_ok_def by (rule sint_small_nat)

lemma next_pos_frame:
  assumes "frame_ok f" and "length pre + 5 + length (snd f) < 2 ^ 63"
  shows "next_pos (pre @ frame_bytes f @ r) (length pre) = length pre + length (frame_bytes f)"
proof -
  have "(scast (frame_len (frame_bytes f @ r)) :: u64) = of_nat (length (snd f) + 4)"
    unfolding scast_eq sint_frame_len [OF assms(1)] by simp
  then have "next_pos (pre @ frame_bytes f @ r) (length pre)
      = unat (of_nat (length pre + length (frame_bytes f)) :: u64)"
    unfolding next_pos_def by (simp add: algebra_simps)
  moreover have "length pre + length (frame_bytes f) < 2 ^ 64"
    using assms(2) by simp
  ultimately show ?thesis
    by (simp only: unat_of_nat_small [OF _ refl])
qed

lemma nth_frame: "(pre @ frame_bytes f @ r) ! length pre = fst f"
  by (simp add: nth_append frame_bytes_def)

text \<open>The error scan looks at the tags of the frames.\<close>

lemma has_error_response_frames:
  "\<forall>f \<in> set fs. frame_ok f \<Longrightarrow>
     has_error_response (frames fs) \<longleftrightarrow> (\<exists>f \<in> set fs. fst f = code (CHR ''E''))"
proof (induction fs)
  case Nil
  then show ?case by (subst has_error_response.simps) simp
next
  case (Cons f fs)
  have "sint (frame_len (frame_bytes f @ frames fs)) = int (length (snd f) + 4)"
    using Cons.prems by (simp add: sint_frame_len)
  moreover have "drop (1 + nat (int (length (snd f) + 4))) (frame_bytes f @ frames fs) = frames fs"
    by simp
  ultimately show ?case
    using Cons by (subst has_error_response.simps) (simp del: int_nat_eq add: nat_add_distrib)
qed

text \<open>Insertion on the level of frames.\<close>

fun insert_frames :: "(u8 \<Rightarrow> u8 \<Rightarrow> bool) \<Rightarrow> nat \<Rightarrow> u8 \<Rightarrow> frame list \<Rightarrow> frame list" where
  "insert_frames hit n prev [] = []"
| "insert_frames hit n prev (f # fs) =
     (if n = 0 then f # fs
      else if hit (fst f) prev
      then (code (CHR ''1''), []) # f # insert_frames hit (n - 1) (fst f) fs
      else f # insert_frames hit n (fst f) fs)"

fun hits :: "(u8 \<Rightarrow> u8 \<Rightarrow> bool) \<Rightarrow> u8 \<Rightarrow> frame list \<Rightarrow> nat" where
  "hits hit prev [] = 0"
| "hits hit prev (f # fs) = (if hit (fst f) prev then 1 else 0) + hits hit (fst f) fs"

fun offsets :: "(u8 \<Rightarrow> u8 \<Rightarrow> bool) \<Rightarrow> nat \<Rightarrow> u8 \<Rightarrow> nat \<Rightarrow> frame list \<Rightarrow> nat list" where
  "offsets hit n prev off [] = []"
| "offsets hit n prev off (f # fs) =
     (if n = 0 then []
      else if hit (fst f) prev
      then off # offsets hit (n - 1) (fst f) (off + length (frame_bytes f)) fs
      else offsets hit n (fst f) (off + length (frame_bytes f)) fs)"

lemma find_insertions_frames:
  assumes "\<forall>f \<in> set fs. frame_ok f" and "length (pre @ frames fs) < 2 ^ 63"
  shows "find_insertions hit (pre @ frames fs) n (length pre) prev
    = Some (offsets hit n prev (length pre) fs)"
  using assms
proof (induction fs arbitrary: pre n prev)
  case Nil
  then show ?case by (subst find_insertions.simps) simp
next
  case (Cons f fs)
  have next_eq: "next_pos (pre @ frame_bytes f @ frames fs) (length pre) = length (pre @ frame_bytes f)"
    using Cons.prems by (simp add: next_pos_frame)
  have "find_insertions hit ((pre @ frame_bytes f) @ frames fs) k (length (pre @ frame_bytes f)) p
      = Some (offsets hit k p (length (pre @ frame_bytes f)) fs)" for k p
    using Cons.prems by (intro Cons.IH) auto
  then show ?case
    by (subst find_insertions.simps) (simp add: next_eq nth_frame)
qed

lemma parse_complete_frame: "parse_complete = frame_bytes (code (CHR ''1''), [])"
  by (simp add: parse_complete_def frame_bytes_def)

lemma insert_at_offsets:
  assumes "start \<le> length pre"
  shows "insert_at parse_complete (pre @ frames fs) start (offsets hit n prev (length pre) fs)
    = Some (drop start pre @ frames (insert_frames hit n prev fs))"
  using assms
proof (induction fs arbitrary: pre n prev start)
  case Nil
  then show ?case by simp
next
  case (Cons f fs)
  have IH: "insert_at parse_complete ((pre @ frame_bytes f) @ frames fs) s
        (offsets hit k p (length (pre @ frame_bytes f)) fs)
      = Some (drop s (pre @ frame_bytes f) @ frames (insert_frames hit k p fs))"
    if "s \<le> length pre" for k p s
    using that by (intro Cons.IH) simp
  show ?case
    using Cons.prems IH [of start n "fst f"] IH [of "length pre" "n - 1" "fst f"]
    by (auto simp: parse_complete_frame)
qed

lemma length_offsets: "length (offsets hit n prev off fs) = min n (hits hit prev fs)"
  by (induction hit n prev off fs rule: offsets.induct) auto

lemma offsets_Nil: "offsets hit n prev off fs = [] \<Longrightarrow> insert_frames hit n prev fs = fs"
  by (induction hit n prev off fs rule: offsets.induct) (auto split: if_splits)

lemma insert_before_frames:
  assumes "\<forall>f \<in> set fs. frame_ok f" and "length (frames fs) < 2 ^ 63"
  shows "insert_before hit (frames fs) n
    = Some (frames (insert_frames hit n 0 fs), min n (hits hit 0 fs))"
  using assms find_insertions_frames [of fs "[]" hit n 0] insert_at_offsets [of 0 "[]" fs hit n 0]
    length_offsets [of hit n 0 0 fs] offsets_Nil [of hit n 0 0 fs]
  by (auto simp: insert_before_def)

lemma insert_first_frames:
  assumes "\<forall>f \<in> set fs. frame_ok f" and "length (pre @ frames fs) < 2 ^ 63"
  shows "insert_first (pre @ frames fs) (length pre) prev
    = Some (pre @ frames (insert_frames bind_hit 1 prev fs), min 1 (hits bind_hit prev fs))"
  using assms
proof (induction fs arbitrary: pre prev)
  case Nil
  then show ?case by (subst insert_first.simps) simp
next
  case (Cons f fs)
  have next_eq: "next_pos (pre @ frame_bytes f @ frames fs) (length pre) = length (pre @ frame_bytes f)"
    using Cons.prems by (simp add: next_pos_frame)
  have "insert_first ((pre @ frame_bytes f) @ frames fs) (length (pre @ frame_bytes f)) (fst f)
      = Some ((pre @ frame_bytes f) @ frames (insert_frames bind_hit 1 (fst f) fs),
          min 1 (hits bind_hit (fst f) fs))"
    using Cons.prems by (intro Cons.IH) auto
  moreover have "insert_frames bind_hit 0 (fst f) fs = fs" by (cases fs) simp_all
  ultimately show ?case
    by (subst insert_first.simps) (simp add: next_eq nth_frame parse_complete_frame)
qed

lemma insert_frames_0 [simp]: "insert_frames hit 0 prev fs = fs"
  by (cases fs) simp_all

text \<open>What the insertion achieves: no response that needs a ParseComplete stands without one.\<close>

fun completed :: "u8 \<Rightarrow> frame list \<Rightarrow> bool" where
  "completed prev [] = True"
| "completed prev (f # fs) = ((needs_parse_complete (fst f) \<longrightarrow> prev = code (CHR ''1'')) \<and> completed (fst f) fs)"

lemma code_inject [simp]: "code a = code b \<longleftrightarrow> a = b"
  using ascii_inject [of "[a]" "[b]"] by (simp add: ascii_def code_def)

lemma no_hits_completed: "hits bind_hit prev fs = 0 \<Longrightarrow> completed prev fs"
  by (induction prev fs rule: completed.induct) (auto simp: bind_hit_def split: if_splits)

lemma insert_frames_completed:
  "hits bind_hit prev fs \<le> n \<Longrightarrow> completed prev (insert_frames bind_hit n prev fs)"
proof (induction bind_hit n prev fs rule: insert_frames.induct)
  case (2 n prev f fs)
  show ?case
  proof (cases "n = 0")
    case True
    then show ?thesis using 2 no_hits_completed [of prev "f # fs"] by simp
  next
    case False
    then show ?thesis
      using 2 by (auto simp: bind_hit_def needs_parse_complete_def split: if_splits)
  qed
qed simp

text \<open>The unsafe in-place insertion against the copying one.\<close>

lemma overwrite_append:
  "length xs = length ys \<Longrightarrow> length pre = k \<Longrightarrow> overwrite k xs (pre @ ys @ post) = pre @ xs @ post"
  by (simp add: overwrite_def)

lemma write_repeated_append:
  assumes "length pre = off" and "length gap = n * length msg"
  shows "write_repeated msg off n (pre @ gap @ post) = pre @ concat (replicate n msg) @ post"
  using assms
proof (induction n arbitrary: pre off gap)
  case 0
  then show ?case by simp
next
  case (Suc n)
  obtain g h where g: "gap = g @ h" "length g = length msg" "length h = n * length msg"
  proof
    show "gap = take (length msg) gap @ drop (length msg) gap" by simp
  qed (use Suc.prems in auto)
  then have "overwrite off msg (pre @ gap @ post) = (pre @ msg) @ h @ post"
    using Suc.prems overwrite_append [of msg g pre off "h @ post"] by simp
  then show ?case
    using Suc.IH [of "pre @ msg" "off + length msg" h] Suc.prems g by simp
qed

lemma length_close_complete [simp]: "length close_complete = 5"
  by (simp add: close_complete_def)

lemma close_complete_in_place_eq:
  assumes "6 \<le> length bs" and "5 * n \<le> length spare"
  shows "close_complete_in_place (bs @ spare) (length bs) n = before_ready n bs"
proof -
  obtain pre rfq where bs: "bs = pre @ rfq" and rfq: "length rfq = 6"
    using assms(1) append_take_drop_id [of "length bs - 6" bs, symmetric]
    by (metis diff_diff_cancel length_drop)
  define gap post where "gap = take (5 * n) (rfq @ spare)" and "post = drop (5 * n + 6) (rfq @ spare)"
  have gap: "length gap = n * length close_complete"
    using assms(2) rfq by (simp add: gap_def)
  have "overwrite (length pre + 5 * n) rfq (pre @ rfq @ spare)
      = take (length pre + 5 * n) (pre @ rfq @ spare) @ rfq
          @ drop (length pre + 5 * n + length rfq) (pre @ rfq @ spare)"
    by (simp add: overwrite_def)
  also have "\<dots> = pre @ gap @ (rfq @ post)"
    using rfq by (simp add: gap_def post_def)
  finally have "overwrite (length pre + 5 * n) rfq (pre @ rfq @ spare) = pre @ gap @ (rfq @ post)" .
  moreover have "take 6 (drop (length pre) (pre @ rfq @ spare)) = rfq"
    using rfq by simp
  moreover have "write_repeated close_complete (length pre) n (pre @ gap @ (rfq @ post))
      = pre @ concat (replicate n close_complete) @ rfq @ post"
    by (rule write_repeated_append [OF refl gap])
  moreover have "length (concat (replicate n close_complete)) = 5 * n"
    by (induction n) auto
  ultimately have "close_complete_in_place ((pre @ rfq) @ spare) (length (pre @ rfq)) n
      = pre @ concat (replicate n close_complete) @ rfq"
    using rfq by (simp add: close_complete_in_place_def)
  then show ?thesis
    using rfq unfolding bs by (simp add: before_ready_def)
qed

lemma insert_close_before_ready_eq:
  "insert_close_complete_before_ready_for_query bs spare n =
     (if ends_with_ready bs then before_ready n bs else bs @ concat (replicate n close_complete))"
  by (auto simp: insert_close_complete_before_ready_for_query_def close_complete_in_place_eq
      ends_with_ready_def before_ready_def)

section \<open>Properties\<close>

text \<open>
  Every builder produces exactly one frame: the length field it computes or hard-codes is the
  length of what follows.
\<close>

theorem builders_framed:
  "md5_challenge [s0, s1, s2, s3] = frames [(code (CHR ''R''), put_i32 5 @ [s0, s1, s2, s3])]
   \<and> plain_password_challenge = frames [(code (CHR ''R''), put_i32 3)]
   \<and> scram_start_challenge
     = frames [(code (CHR ''R''), put_i32 10 @ ascii ''SCRAM-SHA-256'' @ [0, 0])]
   \<and> scram_server_response n msg = frames [(code (CHR ''R''), put_i32 n @ msg)]
   \<and> simple_query q = frames [(code (CHR ''Q''), q @ [0])]
   \<and> md5_password md5 user pw salt' = frames [(code (CHR ''p''), md5_hash_password md5 user pw salt')]
   \<and> error_response msg st = frames [(code (CHR ''E''), error_fields msg st), (code (CHR ''Z''), [code (CHR ''I'')])]
   \<and> row_description cols = frames [(code (CHR ''T''),
     put_i16 (of_nat (length cols)) @ concat (map column_description cols))]
   \<and> data_row_nullable row = frames [(code (CHR ''D''),
     put_i16 (of_nat (length row)) @ concat (map nullable_value row))]
   \<and> command_complete cmd = frames [(code (CHR ''C''), cmd @ [0])]
   \<and> notify ch payload = frames [(code (CHR ''A''), put_i32 0 @ ch @ [0] @ payload @ [0])]
   \<and> server_parameter_message k v = frames [(code (CHR ''S''), k @ [0] @ v @ [0])]
   \<and> deallocate_response = frames [(code (CHR ''1''), []), (code (CHR ''C''), ascii ''DEALLOCATE'' @ [0]),
     (code (CHR ''Z''), [code (CHR ''I'')])]"
  by (simp add: frames_def frame_bytes_def md5_challenge_def plain_password_challenge_def
      scram_start_challenge_def scram_server_response_def simple_query_def md5_password_def Let_def
      error_response_def error_message_def ready_for_query_def row_description_def
      data_row_nullable_def command_complete_def notify_def server_parameter_message_def
      deallocate_response_def parse_complete_def add_ac)


text \<open>
  C31. The in-place insertion of CloseComplete messages before ReadyForQuery, which moves memory
  through raw pointers when the allocation has room, gives the same bytes as the copying fallback,
  whatever the spare capacity and its contents are.
\<close>

theorem insert_close_in_place_equiv:
  "insert_close_complete_before_ready_for_query bs spare n
    = insert_close_complete_before_ready_for_query bs [] n"
  by (simp add: insert_close_before_ready_eq)

section \<open>Witnesses\<close>

definition bind_response :: "frame list" where
  "bind_response = [(code (CHR ''2''), []), (code (CHR ''C''), ascii ''SELECT 1'' @ [0]),
     (code (CHR ''2''), []), (code (CHR ''Z''), [code (CHR ''I'')])]"


end
