(* ===== verification/Startup_Parameters.thy ===== *)
theory Startup_Parameters
  imports Ordered_Map Backend_Messages
begin

text \<open>
  The startup parameters an operator configures, from validation to the wire:
  \<^verbatim>\<open>src/src/config/startup_parameters.rs\<close>, \<^verbatim>\<open>canonicalize_param_name\<close> of
  \<^verbatim>\<open>src/src/server/parameters.rs\<close>, \<^verbatim>\<open>src/src/pool/startup_resolver.rs\<close>,
  \<^verbatim>\<open>build_resolved_startup\<close> and \<^verbatim>\<open>resolved_startup_parameters\<close> of
  \<^verbatim>\<open>src/src/pool/server_pool.rs\<close>, and \<^verbatim>\<open>startup\<close> of \<^verbatim>\<open>src/src/messages/protocol.rs\<close>.

  Strings are their UTF-8 bytes; the case conversions of the code touch ASCII letters only.
\<close>

section \<open>Names\<close>

definition ascii_lower :: "u8 \<Rightarrow> u8" where
  "ascii_lower b = (if 65 \<le> b \<and> b \<le> 90 then b + 32 else b)"

definition to_ascii_lowercase :: "bytes \<Rightarrow> bytes" where
  "to_ascii_lowercase s = map ascii_lower s"

definition eq_ignore_ascii_case :: "bytes \<Rightarrow> bytes \<Rightarrow> bool" where
  "eq_ignore_ascii_case a b \<longleftrightarrow> to_ascii_lowercase a = to_ascii_lowercase b"

definition is_ascii_alphabetic :: "u8 \<Rightarrow> bool" where
  "is_ascii_alphabetic b \<longleftrightarrow> (65 \<le> b \<and> b \<le> 90) \<or> (97 \<le> b \<and> b \<le> 122)"

definition is_ascii_alphanumeric :: "u8 \<Rightarrow> bool" where
  "is_ascii_alphanumeric b \<longleftrightarrow> is_ascii_alphabetic b \<or> (48 \<le> b \<and> b \<le> 57)"

definition tracked_parameters :: "bytes list" where
  "tracked_parameters = map ascii [''client_encoding'', ''DateStyle'', ''IntervalStyle'', ''TimeZone'',
     ''standard_conforming_strings'', ''application_name'']"

text \<open>
  The set of tracked names is iterated in an unspecified order; no two of them are equal up to case,
  so the order does not matter.
\<close>

definition canonicalize_param_name :: "bytes \<Rightarrow> bytes" where
  "canonicalize_param_name key =
     (case filter (eq_ignore_ascii_case key) tracked_parameters of
        t # _ \<Rightarrow> t
      | [] \<Rightarrow> if \<exists>b \<in> set key. 65 \<le> b \<and> b \<le> 90 then to_ascii_lowercase key else key)"

definition is_valid_guc_name :: "bytes \<Rightarrow> bool" where
  "is_valid_guc_name key =
     (case key of
        [] \<Rightarrow> False
      | c # r \<Rightarrow> (is_ascii_alphabetic c \<or> c = 95)
          \<and> list_all (\<lambda>b. is_ascii_alphanumeric b \<or> b = 95 \<or> b = 46) r)"

section \<open>Validation\<close>

definition max_startup_packet_size :: nat where
  "max_startup_packet_size = 10000"

definition max_operator_budget :: nat where
  "max_operator_budget = max_startup_packet_size - 512"

definition reserved_keys :: "bytes list" where
  "reserved_keys = map ascii [''user'', ''database'', ''replication'', ''options'', ''role'',
     ''session_authorization'']"

definition reserved_prefix :: bytes where
  "reserved_prefix = ascii ''_pq_.''"

datatype param_error = EmptyKey | ReservedKey | ReservedPrefix | BadName | NullByte
  | SameName bytes bytes | TooLarge nat

definition validate_key :: "bytes \<Rightarrow> param_error + unit" where
  "validate_key key =
     (if key = [] then Inl EmptyKey
      else if list_ex (\<lambda>r. eq_ignore_ascii_case r key) reserved_keys then Inl ReservedKey
      else if length key \<ge> length reserved_prefix
           \<and> eq_ignore_ascii_case (take (length reserved_prefix) key) reserved_prefix
      then Inl ReservedPrefix
      else if \<not> is_valid_guc_name key then Inl BadName
      else Inr ())"

definition validate_value :: "bytes \<Rightarrow> param_error + unit" where
  "validate_value v = (if 0 \<in> set v then Inl NullByte else Inr ())"

definition validate_entry :: "bytes \<Rightarrow> bytes \<Rightarrow> param_error + unit" where
  "validate_entry k v = rbind (validate_key k) (\<lambda>_. validate_value v)"

fun validate_entries :: "(bytes, bytes) btree \<Rightarrow> param_error + unit" where
  "validate_entries [] = Inr ()"
| "validate_entries ((k, v) # m) = rbind (validate_entry k v) (\<lambda>_. validate_entries m)"

fun validate_names :: "(bytes \<rightharpoonup> bytes) \<Rightarrow> (bytes, bytes) btree \<Rightarrow> param_error + unit" where
  "validate_names seen [] = Inr ()"
| "validate_names seen ((k, v) # m) =
     (case seen (canonicalize_param_name k) of
        Some k' \<Rightarrow> Inl (SameName k' k)
      | None \<Rightarrow> validate_names (seen(canonicalize_param_name k \<mapsto> k)) m)"

definition serialized_bytes :: "(bytes, bytes) btree \<Rightarrow> nat" where
  "serialized_bytes m = (\<Sum>(k, v)\<leftarrow>m. length k + 1 + length v + 1)"

definition validate_total_size :: "(bytes, bytes) btree \<Rightarrow> param_error + unit" where
  "validate_total_size m =
     (if serialized_bytes m > max_operator_budget then Inl (TooLarge (serialized_bytes m)) else Inr ())"

definition validate :: "(bytes, bytes) btree \<Rightarrow> param_error + unit" where
  "validate m =
     rbind (validate_entries m) (\<lambda>_.
     rbind (validate_names Map.empty m) (\<lambda>_. validate_total_size m))"

section \<open>The cascade\<close>

definition canonical_layer :: "(bytes \<times> bytes) list \<Rightarrow> (bytes \<times> bytes) list" where
  "canonical_layer layer = map (\<lambda>(k, v). (canonicalize_param_name k, v)) layer"

definition cascade_canonical_keys :: "(bytes, bytes) btree list \<Rightarrow> (bytes, bytes) btree" where
  "cascade_canonical_keys layers = fold (\<lambda>l out. bt_extend (canonical_layer l) out) layers []"

datatype parameter_source = General | PoolLevel | AuthQuery

definition resolve ::
  "(bytes, bytes) btree \<Rightarrow> (bytes, bytes) btree \<Rightarrow> (bytes \<times> bytes) list option \<Rightarrow> (bytes, bytes) btree" where
  "resolve general pool extra =
     bt_extend (case extra of Some e \<Rightarrow> e | None \<Rightarrow> []) (bt_extend pool (bt_extend general []))"

definition from_source ::
  "parameter_source \<Rightarrow> (bytes \<times> bytes) list \<Rightarrow> (bytes \<times> bytes \<times> parameter_source) list" where
  "from_source src layer = map (\<lambda>(k, v). (canonicalize_param_name k, v, src)) layer"

definition resolve_with_sources ::
  "(bytes, bytes) btree \<Rightarrow> (bytes, bytes) btree \<Rightarrow> (bytes \<times> bytes) list option
     \<Rightarrow> (bytes, bytes \<times> parameter_source) btree" where
  "resolve_with_sources general pool extra =
     bt_extend (case extra of Some e \<Rightarrow> from_source AuthQuery e | None \<Rightarrow> [])
       (bt_extend (from_source PoolLevel pool) (bt_extend (from_source General general) []))"

section \<open>The packet\<close>

definition effective_app_name :: "bytes \<Rightarrow> (bytes, bytes) btree \<Rightarrow> bytes" where
  "effective_app_name app extras =
     (case bt_get extras (ascii ''application_name'') of Some v \<Rightarrow> v | None \<Rightarrow> app)"

definition packet_and_body_bytes ::
  "bytes \<Rightarrow> bytes \<Rightarrow> bytes \<Rightarrow> (bytes, bytes) btree \<Rightarrow> nat \<times> nat" where
  "packet_and_body_bytes user db app extras =
     (4 + 4 + (5 + length user + 1) + (9 + length db + 1)
        + (17 + length (effective_app_name app extras) + 1)
        + (\<Sum>(k, v)\<leftarrow>extras. if k = ascii ''application_name'' then 0
             else length k + 1 + length v + 1) + 1,
      \<Sum>(k, v)\<leftarrow>extras. length k + 1 + length v + 1)"

definition full_packet_bytes :: "bytes \<Rightarrow> bytes \<Rightarrow> bytes \<Rightarrow> (bytes, bytes) btree \<Rightarrow> nat" where
  "full_packet_bytes user db app extras = fst (packet_and_body_bytes user db app extras)"

definition put_pair :: "bytes \<times> bytes \<Rightarrow> bytes" where
  "put_pair kv = fst kv @ [0] @ snd kv @ [0]"

definition extra_pairs :: "(bytes, bytes) btree \<Rightarrow> (bytes \<times> bytes) list" where
  "extra_pairs extras = filter (\<lambda>(k, v). k \<noteq> ascii ''application_name'') extras"

definition startup :: "bytes \<Rightarrow> bytes \<Rightarrow> bytes \<Rightarrow> (bytes, bytes) btree \<Rightarrow> bytes" where
  "startup user db app extras =
     put_i32 (of_nat (full_packet_bytes user db app extras)) @ put_i32 196608
     @ ascii ''user'' @ [0] @ user @ [0]
     @ ascii ''application_name'' @ [0] @ effective_app_name app extras @ [0]
     @ ascii ''database'' @ [0] @ db @ [0]
     @ concat (map put_pair (extra_pairs extras)) @ [0]"

datatype budget_reason = CascadeBudgetExceeded | PacketCapExceeded

datatype budget_decision =
    FullCascade
  | OverlayDroppedBaselineKept nat nat
  | EmptyDueToBudget budget_reason nat nat

definition build_resolved_startup ::
  "(bytes, bytes) btree \<Rightarrow> (bytes, bytes) btree \<Rightarrow> bytes \<Rightarrow> bytes \<Rightarrow> bytes
     \<Rightarrow> (bytes, bytes) btree \<times> budget_decision" where
  "build_resolved_startup base overlay user db app =
     (let canonical_base = bt_extend (canonical_layer base) [];
          merged = (if overlay = [] then canonical_base
                    else bt_extend (canonical_layer overlay) canonical_base);
          (packet_bytes, body_bytes) = packet_and_body_bytes user db app merged;
          over_budget = body_bytes > max_operator_budget;
          over_packet = packet_bytes > max_startup_packet_size;
          (baseline_packet, baseline_body) = packet_and_body_bytes user db app canonical_base
      in if \<not> over_budget \<and> \<not> over_packet then (merged, FullCascade)
         else if overlay \<noteq> [] \<and> baseline_body \<le> max_operator_budget
                 \<and> baseline_packet \<le> max_startup_packet_size
         then (canonical_base, OverlayDroppedBaselineKept body_bytes packet_bytes)
         else ([], EmptyDueToBudget
                 (if over_packet then PacketCapExceeded else CascadeBudgetExceeded)
                 body_bytes packet_bytes))"

text \<open>
  \<^verbatim>\<open>ServerPool::resolved_startup_parameters\<close>: only the full cascade is ever sent; the error is the
  rejection with SQLSTATE 53400.
\<close>

definition resolved_startup_parameters ::
  "(bytes, bytes) btree \<times> budget_decision \<Rightarrow> bytes + (bytes, bytes) btree" where
  "resolved_startup_parameters r =
     (case snd r of
        FullCascade \<Rightarrow> Inr (fst r)
      | OverlayDroppedBaselineKept _ _ \<Rightarrow> Inl (ascii ''53400'')
      | EmptyDueToBudget _ _ _ \<Rightarrow> Inl (ascii ''53400''))"

datatype application_state = Applied | DroppedDueToBudget | Stale

definition cascade_rejected :: "budget_decision \<Rightarrow> bool" where
  "cascade_rejected d \<longleftrightarrow> d \<noteq> FullCascade"

definition application_state_of ::
  "bool \<Rightarrow> (bytes, bytes) btree \<Rightarrow> bytes \<Rightarrow> bytes \<Rightarrow> application_state" where
  "application_state_of rejected wire k v =
     (if rejected then DroppedDueToBudget
      else case bt_get wire k of
             Some w \<Rightarrow> if w = v then Applied else Stale
           | None \<Rightarrow> DroppedDueToBudget)"

definition effective_startup_parameters_with_sources ::
  "(bytes, bytes \<times> parameter_source) btree \<Rightarrow> (bytes, bytes) btree \<times> budget_decision
     \<Rightarrow> (bytes, bytes) btree \<Rightarrow> (bytes, bytes \<times> parameter_source \<times> application_state) btree" where
  "effective_startup_parameters_with_sources configured resolved overlay =
     (let wire = fst resolved; rejected = cascade_rejected (snd resolved);
          out = map (\<lambda>(k, v, src). (k, v, src, application_state_of rejected wire k v)) configured;
          wire_state = (if rejected then DroppedDueToBudget else Stale)
      in fold (\<lambda>(k, v) out.
           if bt_get out k = None
           then bt_insert k (v, if bt_get overlay k \<noteq> None then AuthQuery else PoolLevel, wire_state) out
           else out) wire out)"

section \<open>What PostgreSQL reads\<close>

text \<open>
  The reference reader of a startup packet: after length and version come name and value as
  zero-terminated strings; an empty name ends the list and must be the last byte.
\<close>

function pg_pairs :: "bytes \<Rightarrow> (bytes \<times> bytes) list option" where
  "pg_pairs bs =
     (case position (\<lambda>b. b = 0) bs of
        None \<Rightarrow> None
      | Some 0 \<Rightarrow> if length bs = 1 then Some [] else None
      | Some (Suc i) \<Rightarrow>
          (case position (\<lambda>b. b = 0) (drop (i + 2) bs) of
             None \<Rightarrow> None
           | Some j \<Rightarrow>
               map_option (\<lambda>r. (take (Suc i) bs, take j (drop (i + 2) bs)) # r)
                 (pg_pairs (drop (i + j + 3) bs))))"
  by pat_completeness auto
termination
  by (relation "measure length") (auto dest!: position_bound)

declare pg_pairs.simps [simp del]

definition pg_startup :: "bytes \<Rightarrow> (bytes \<times> bytes) list option" where
  "pg_startup msg =
     (case get_i32 msg of
        Inr (len, r) \<Rightarrow>
          if unat len = length msg \<and> length msg - 4 \<le> 10000
          then (case get_i32 r of
                  Inr (version, body) \<Rightarrow> if version = 196608 then pg_pairs body else None
                | Inl _ \<Rightarrow> None)
          else None
      | Inl _ \<Rightarrow> None)"

section \<open>Names\<close>

lemma ascii_lower_idem [simp]: "ascii_lower (ascii_lower b) = ascii_lower b"
proof -
  have "\<not> (65 \<le> b + 32 \<and> b + 32 \<le> 90)" if "65 \<le> b" "b \<le> 90" for b :: u8
  proof -
    have "unat b + 32 < 256" using that by (simp add: word_le_nat_alt)
    then have "unat (b + 32) = unat b + 32" by (simp add: unat_word_ariths)
    then show ?thesis using that by (simp add: word_le_nat_alt)
  qed
  then show ?thesis by (auto simp: ascii_lower_def)
qed

lemma to_lower_idem [simp]: "to_ascii_lowercase (to_ascii_lowercase s) = to_ascii_lowercase s"
  by (simp add: to_ascii_lowercase_def)

lemma to_lower_id: "\<not> (\<exists>b \<in> set s. 65 \<le> b \<and> b \<le> 90) \<Longrightarrow> to_ascii_lowercase s = s"
  unfolding to_ascii_lowercase_def by (rule map_idI) (auto simp: ascii_lower_def)

text \<open>Two names have the same canonical form exactly when they differ in case only.\<close>

lemma lower_canonical [simp]:
  "to_ascii_lowercase (canonicalize_param_name k) = to_ascii_lowercase k"
proof (cases "filter (eq_ignore_ascii_case k) tracked_parameters")
  case Nil
  then show ?thesis by (simp add: canonicalize_param_name_def)
next
  case (Cons t r)
  then have "eq_ignore_ascii_case k t"
    by (metis filter_eq_ConsD)
  then show ?thesis
    using Cons by (simp add: canonicalize_param_name_def eq_ignore_ascii_case_def)
qed

lemma canonical_of_lower:
  "canonicalize_param_name k =
     (case filter (\<lambda>t. to_ascii_lowercase k = to_ascii_lowercase t) tracked_parameters of
        t # _ \<Rightarrow> t | [] \<Rightarrow> to_ascii_lowercase k)"
  unfolding canonicalize_param_name_def eq_ignore_ascii_case_def
  using to_lower_id [of k] by (auto split: list.split)

lemma canonical_eq_iff:
  "canonicalize_param_name a = canonicalize_param_name b \<longleftrightarrow> to_ascii_lowercase a = to_ascii_lowercase b"
  by (metis canonical_of_lower lower_canonical)

lemma canonical_idem [simp]:
  "canonicalize_param_name (canonicalize_param_name k) = canonicalize_param_name k"
  by (simp add: canonical_eq_iff)

section \<open>Reading back the packet\<close>

text \<open>A pair that survives the wire: a non-empty name, and no zero byte.\<close>

definition pair_ok :: "bytes \<times> bytes \<Rightarrow> bool" where
  "pair_ok kv \<longleftrightarrow> fst kv \<noteq> [] \<and> 0 \<notin> set (fst kv) \<and> 0 \<notin> set (snd kv)"

lemma position_zero: "0 \<notin> set xs \<Longrightarrow> position (\<lambda>b. b = 0) (xs @ 0 # r) = Some (length xs)" for xs :: bytes
  by (intro position_append_hit) auto

lemma pg_pairs_put:
  "\<forall>kv \<in> set kvs. pair_ok kv \<Longrightarrow> pg_pairs (concat (map put_pair kvs) @ [0]) = Some kvs"
proof (induction kvs)
  case Nil
  then show ?case by (subst pg_pairs.simps) simp
next
  case (Cons kv kvs)
  obtain c k v where kv: "kv = (c # k, v)" "0 \<notin> set (c # k)" "0 \<notin> set v"
    using Cons.prems by (cases kv; cases "fst kv") (auto simp: pair_ok_def)
  let ?r = "concat (map put_pair kvs) @ [0]"
  have "position (\<lambda>b. b = 0) ((c # k) @ 0 # v @ 0 # ?r) = Some (Suc (length k))"
    using position_zero [OF kv(2)] by simp
  moreover have "position (\<lambda>b. b = 0) (v @ 0 # ?r) = Some (length v)"
    by (rule position_zero [OF kv(3)])
  moreover have "drop (length k + length v + 3) (c # k @ 0 # v @ 0 # ?r) = ?r"
    by (simp add: numeral_3_eq_3)
  ultimately have "pg_pairs (c # k @ 0 # v @ 0 # ?r) = Some (kv # kvs)"
    using Cons kv(1) by (subst pg_pairs.simps) simp
  then show ?case by (simp add: kv(1) put_pair_def [of "(c # k, v)"])
qed

lemma sum_extra_pairs:
  "length (concat (map put_pair (extra_pairs m)))
     = (\<Sum>(k, v)\<leftarrow>m. if k = ascii ''application_name'' then 0 else length k + 1 + length v + 1)"
  by (induction m) (auto simp: extra_pairs_def put_pair_def)

lemma length_startup: "length (startup user db app m) = full_packet_bytes user db app m"
proof -
  have "length (startup user db app m) = 4 + 4 + (5 + length user + 1) + (9 + length db + 1)
      + (17 + length (effective_app_name app m) + 1) + length (concat (map put_pair (extra_pairs m))) + 1"
    by (simp add: startup_def)
  then show ?thesis
    unfolding sum_extra_pairs by (simp add: full_packet_bytes_def packet_and_body_bytes_def)
qed

definition wire_pairs :: "bytes \<Rightarrow> bytes \<Rightarrow> bytes \<Rightarrow> (bytes, bytes) btree \<Rightarrow> (bytes \<times> bytes) list" where
  "wire_pairs user db app m =
     [(ascii ''user'', user), (ascii ''application_name'', effective_app_name app m),
      (ascii ''database'', db)] @ extra_pairs m"

lemma pg_startup_startup:
  assumes "\<forall>kv \<in> set (wire_pairs user db app m). pair_ok kv"
    and "full_packet_bytes user db app m \<le> max_startup_packet_size"
  shows "pg_startup (startup user db app m) = Some (wire_pairs user db app m)"
proof -
  let ?body = "concat (map put_pair (wire_pairs user db app m)) @ [0]"
  let ?n = "full_packet_bytes user db app m"
  have msg: "startup user db app m = put_i32 (of_nat ?n) @ put_i32 196608 @ ?body"
    by (simp add: startup_def wire_pairs_def put_pair_def)
  have "unat (of_nat ?n :: u32) = ?n"
    using assms(2) by (simp add: unat_of_nat max_startup_packet_size_def take_bit_nat_eq_self)
  moreover have "pg_pairs ?body = Some (wire_pairs user db app m)"
    by (rule pg_pairs_put [OF assms(1)])
  ultimately show ?thesis
    using assms(2) length_startup [of user db app m]
    unfolding pg_startup_def by (simp add: msg codec max_startup_packet_size_def)
qed

section \<open>Validated entries\<close>

definition entry_ok :: "bytes \<times> bytes \<Rightarrow> bool" where
  "entry_ok kv \<longleftrightarrow> validate_entry (fst kv) (snd kv) = Inr ()"

lemma validate_entries_iff: "validate_entries m = Inr () \<longleftrightarrow> (\<forall>kv \<in> set m. entry_ok kv)"
  by (induction m) (auto simp: entry_ok_def)

lemma validate_entries_ok: "validate m = Inr () \<Longrightarrow> \<forall>kv \<in> set m. entry_ok kv"
  by (auto simp: validate_def validate_entries_iff)

lemma guc_name_ok: "is_valid_guc_name k \<Longrightarrow> k \<noteq> [] \<and> 0 \<notin> set k"
  by (cases k) (auto simp: is_valid_guc_name_def is_ascii_alphanumeric_def is_ascii_alphabetic_def
      list_all_iff)

lemma lower_not_zero: "0 \<in> set (to_ascii_lowercase k) \<longleftrightarrow> 0 \<in> set k"
proof -
  have "ascii_lower b = 0 \<longleftrightarrow> b = 0" for b
  proof -
    have "b + 32 \<noteq> 0" if "65 \<le> b" "b \<le> 90"
    proof -
      have "unat b + 32 < 256" using that by (simp add: word_le_nat_alt)
      then have "unat (b + 32) = unat b + 32" by (simp add: unat_word_ariths)
      then show ?thesis by (metis add_is_0 unat_0 zero_neq_numeral)
    qed
    then show ?thesis by (auto simp: ascii_lower_def)
  qed
  then show ?thesis by (auto simp: to_ascii_lowercase_def image_iff)
qed

lemma entry_ok_facts:
  assumes "entry_ok (k, v)"
  shows "pair_ok (canonicalize_param_name k, v)"
    and "\<forall>r \<in> set reserved_keys. to_ascii_lowercase (canonicalize_param_name k) \<noteq> to_ascii_lowercase r"
proof -
  have k: "is_valid_guc_name k" and v: "0 \<notin> set v"
    and r: "\<not> list_ex (\<lambda>r. eq_ignore_ascii_case r k) reserved_keys"
    using assms by (auto simp: entry_ok_def validate_entry_def validate_key_def validate_value_def
        split: if_splits)
  have "0 \<notin> set (canonicalize_param_name k)"
    using guc_name_ok [OF k] lower_not_zero [of "canonicalize_param_name k"] lower_not_zero [of k]
    by simp
  moreover have "canonicalize_param_name k \<noteq> []"
    using guc_name_ok [OF k] lower_canonical [of k] by (auto simp: to_ascii_lowercase_def)
  ultimately show "pair_ok (canonicalize_param_name k, v)"
    using v by (simp add: pair_ok_def)
  show "\<forall>r \<in> set reserved_keys. to_ascii_lowercase (canonicalize_param_name k) \<noteq> to_ascii_lowercase r"
    using r by (auto simp: list_ex_iff eq_ignore_ascii_case_def)
qed

text \<open>The entries of a cascade are canonical forms of entries of its layers.\<close>

lemma bt_extend_entries:
  "kv \<in> set (bt_extend kvs m) \<Longrightarrow> kv \<in> set kvs \<or> kv \<in> set m"
proof -
  have ins: "kv \<in> set (bt_insert k v m) \<Longrightarrow> kv = (k, v) \<or> kv \<in> set m" for k :: 'a and v :: 'b and m
    by (induction k v m rule: bt_insert.induct) (auto split: if_splits)
  show "kv \<in> set (bt_extend kvs m) \<Longrightarrow> kv \<in> set kvs \<or> kv \<in> set m"
    unfolding bt_extend_def by (induction kvs arbitrary: m) (auto dest!: ins)
qed

lemma build_entries:
  assumes "kv \<in> set (bt_extend (canonical_layer overlay) (bt_extend (canonical_layer base) []))"
  obtains k v where "kv = (canonicalize_param_name k, v)" and "(k, v) \<in> set base \<union> set overlay"
  using assms by (auto simp: canonical_layer_def dest!: bt_extend_entries)

lemma resolved_full:
  assumes "resolved_startup_parameters (build_resolved_startup base overlay user db app) = Inr m"
  shows "m = bt_extend (canonical_layer overlay) (bt_extend (canonical_layer base) [])"
    and "full_packet_bytes user db app m \<le> max_startup_packet_size"
  using assms
  by (auto simp: resolved_startup_parameters_def build_resolved_startup_def Let_def
      full_packet_bytes_def canonical_layer_def bt_extend_def split: prod.splits if_splits)

lemma entry_not_reserved:
  assumes "entry_ok (k, v)" and "r \<in> set reserved_keys"
  shows "\<not> eq_ignore_ascii_case (canonicalize_param_name k) r"
  using entry_ok_facts(2) [OF assms(1)] assms(2) by (auto simp: eq_ignore_ascii_case_def)

text \<open>
  The contract between configuration and packet: every entry of the merged map is a good pair with an
  unreserved canonical name.
\<close>

definition stands_for_ok :: "bytes \<times> bytes \<Rightarrow> bool" where
  "stands_for_ok kv \<longleftrightarrow>
     (\<exists>k. canonicalize_param_name (fst kv) = canonicalize_param_name k \<and> entry_ok (k, snd kv))"

lemma resolved_entries:
  assumes "resolved_startup_parameters (build_resolved_startup base overlay user db app) = Inr m"
    and "\<forall>kv \<in> set base \<union> set overlay. stands_for_ok kv" and "(k, v) \<in> set m"
  shows "pair_ok (k, v) \<and> canonicalize_param_name k = k
    \<and> (\<forall>r \<in> set reserved_keys. \<not> eq_ignore_ascii_case k r)"
proof -
  obtain k1 where k1: "k = canonicalize_param_name k1" "(k1, v) \<in> set base \<union> set overlay"
    using assms(3) resolved_full(1) [OF assms(1)] build_entries [of "(k, v)" overlay base] by auto
  then have "stands_for_ok (k1, v)" using assms(2) by blast
  then obtain k0 where "k = canonicalize_param_name k0" "entry_ok (k0, v)"
    using k1(1) by (auto simp: stands_for_ok_def)
  then show ?thesis
    using entry_ok_facts(1) [of k0 v] entry_not_reserved [of k0 v] by auto
qed

lemma cascade_entries:
  assumes "kv \<in> set (cascade_canonical_keys layers)"
    and "\<forall>l \<in> set layers. validate l = Inr ()"
  shows "\<exists>k v. kv = (canonicalize_param_name k, v) \<and> entry_ok (k, v)"
proof -
  have "kv \<in> set (fold (\<lambda>l. bt_extend (canonical_layer l)) ls out) \<Longrightarrow>
      kv \<in> set out \<or> (\<exists>l \<in> set ls. kv \<in> set (canonical_layer l))" for ls out
    by (induction ls arbitrary: out) (auto dest: bt_extend_entries)
  then obtain l where "l \<in> set layers" "kv \<in> set (canonical_layer l)"
    using assms(1) unfolding cascade_canonical_keys_def by fastforce
  then show ?thesis
    using assms(2) validate_entries_ok [of l] by (auto simp: canonical_layer_def)
qed

lemma cascade_stands_for_ok:
  "validate general = Inr () \<Longrightarrow> validate pool = Inr () \<Longrightarrow>
     kv \<in> set (cascade_canonical_keys [general, pool]) \<Longrightarrow> stands_for_ok kv"
  using cascade_entries [of kv "[general, pool]"] by (auto simp: stands_for_ok_def)

lemma entry_stands_for_ok: "(case kv of (k, v) \<Rightarrow> validate_entry k v = Inr ()) \<Longrightarrow> stands_for_ok kv"
  by (auto simp: stands_for_ok_def entry_ok_def split: prod.splits)

lemma bt_inv_resolved:
  assumes "resolved_startup_parameters (build_resolved_startup base overlay user db app) = Inr m"
  shows "bt_inv m"
  unfolding resolved_full(1) [OF assms] by (intro bt_inv_extend bt_inv_Nil)

text \<open>Names that are canonical and distinct stay distinct when case is ignored.\<close>

lemma distinct_lower:
  assumes "distinct ks" and "\<forall>k \<in> set ks. canonicalize_param_name k = k"
  shows "distinct (map to_ascii_lowercase ks)"
  unfolding distinct_map using assms by (auto simp: inj_on_def) (metis canonical_eq_iff)

lemma fixed_names_canonical:
  "canonicalize_param_name (ascii ''user'') = ascii ''user''"
  "canonicalize_param_name (ascii ''database'') = ascii ''database''"
  "canonicalize_param_name (ascii ''application_name'') = ascii ''application_name''"
  by code_simp+

lemma user_database_reserved:
  "ascii ''user'' \<in> set reserved_keys" "ascii ''database'' \<in> set reserved_keys"
  by (simp_all add: reserved_keys_def)

lemma eq_ignore_refl [simp]: "eq_ignore_ascii_case k k"
  by (simp add: eq_ignore_ascii_case_def)

lemma wire_pairs_ok:
  assumes "\<And>k v. (k, v) \<in> set m \<Longrightarrow> pair_ok (k, v)" and "bt_inv m"
    and "0 \<notin> set user" and "0 \<notin> set db" and "0 \<notin> set app"
  shows "\<forall>kv \<in> set (wire_pairs user db app m). pair_ok kv"
proof -
  have "0 \<notin> set (effective_app_name app m)"
    using assms(1,2,5) by (auto simp: effective_app_name_def bt_get_mem pair_ok_def split: option.splits)
  moreover have "0 \<notin> set (ascii ''user'')" "0 \<notin> set (ascii ''database'')"
    "0 \<notin> set (ascii ''application_name'')"
    by (simp_all add: ascii_def)
  ultimately show ?thesis
    using assms by (auto simp: wire_pairs_def extra_pairs_def pair_ok_def ascii_def)
qed

lemma wire_pairs_superset:
  assumes "bt_inv m"
  shows "set m \<subseteq> set (wire_pairs user db app m)"
proof
  fix kv assume kv: "kv \<in> set m"
  show "kv \<in> set (wire_pairs user db app m)"
  proof (cases "fst kv = ascii ''application_name''")
    case True
    then have "bt_get m (ascii ''application_name'') = Some (snd kv)"
      using kv bt_get_mem [OF assms] by (metis prod.collapse)
    then show ?thesis
      using True by (auto simp: wire_pairs_def effective_app_name_def prod_eq_iff)
  next
    case False
    then show ?thesis
      using kv by (auto simp: wire_pairs_def extra_pairs_def)
  qed
qed

lemma app_name_not_reserved:
  assumes "r \<in> set reserved_keys"
  shows "\<not> eq_ignore_ascii_case (ascii ''application_name'') r"
proof -
  have "list_all (\<lambda>r. \<not> eq_ignore_ascii_case (ascii ''application_name'') r) reserved_keys"
    by code_simp
  then show ?thesis using assms by (simp add: list_all_iff)
qed

lemma wire_pairs_distinct:
  assumes "\<And>k v. (k, v) \<in> set m \<Longrightarrow> canonicalize_param_name k = k
      \<and> (\<forall>r \<in> set reserved_keys. \<not> eq_ignore_ascii_case k r)"
    and "bt_inv m"
  shows "distinct (map (to_ascii_lowercase \<circ> fst) (wire_pairs user db app m))"
proof -
  let ?names = "map fst (wire_pairs user db app m)"
  have "distinct (map fst (extra_pairs m))"
    using bt_inv_distinct [OF assms(2)] by (simp add: extra_pairs_def distinct_map_filter)
  moreover have "ascii ''user'' \<notin> fst ` set m" "ascii ''database'' \<notin> fst ` set m"
    using assms(1) user_database_reserved by force+
  ultimately have "distinct ?names"
    by (auto simp: wire_pairs_def extra_pairs_def)
  moreover have "\<forall>k \<in> set ?names. canonicalize_param_name k = k"
    using assms(1) by (auto simp: wire_pairs_def extra_pairs_def fixed_names_canonical)
  ultimately show ?thesis
    using distinct_lower [of ?names] by simp
qed

section \<open>The cascade and what the admin console shows\<close>

lemma cascade_two:
  "cascade_canonical_keys [general, pool]
     = bt_extend (canonical_layer pool) (bt_extend (canonical_layer general) [])"
  by (simp add: cascade_canonical_keys_def)

lemma canonical_layer_idem [simp]: "canonical_layer (canonical_layer l) = canonical_layer l"
  by (auto simp: canonical_layer_def)

lemma canonical_entries_layer:
  "(\<And>k v. (k, v) \<in> set m \<Longrightarrow> canonicalize_param_name k = k) \<Longrightarrow> canonical_layer m = m"
  unfolding canonical_layer_def by (rule map_idI) auto

lemma cascade_canonical_entries:
  "(k, v) \<in> set (cascade_canonical_keys [general, pool]) \<Longrightarrow> canonicalize_param_name k = k"
  unfolding cascade_two by (auto simp: canonical_layer_def dest!: bt_extend_entries)

lemma bt_get_empty [simp]: "bt_get [] = Map.empty"
  by (simp add: bt_get_def fun_eq_iff)

lemma map_of_rev_bt: "bt_inv m \<Longrightarrow> map_of (rev m) = bt_get m"
  unfolding bt_get_def fun_eq_iff [symmetric]
  using bt_inv_distinct [of m] by (simp add: map_of_inject_set rev_map [symmetric])

lemma resolved_lookup:
  assumes "resolved_startup_parameters
      (build_resolved_startup (cascade_canonical_keys [general, pool]) overlay user db app) = Inr m"
  shows "bt_get m = map_of (rev (canonical_layer general)) ++ map_of (rev (canonical_layer pool))
    ++ map_of (rev (canonical_layer overlay))"
proof -
  let ?base = "cascade_canonical_keys [general, pool]"
  have base: "canonical_layer ?base = ?base"
    by (rule canonical_entries_layer) (rule cascade_canonical_entries)
  have inv: "bt_inv ?base"
    unfolding cascade_two by (intro bt_inv_extend bt_inv_Nil)
  have "bt_get m = bt_get ?base ++ map_of (rev (canonical_layer overlay))"
    unfolding resolved_full(1) [OF assms] base
    by (simp add: bt_get_extend bt_inv_extend map_of_rev_bt [OF inv])
  then show ?thesis
    by (simp add: cascade_two bt_get_extend bt_inv_extend)
qed

lemma map_of_from_source:
  "map_of (rev (from_source src l)) c = map_option (\<lambda>v. (v, src)) (map_of (rev (canonical_layer l)) c)"
proof -
  have "map_of (map (\<lambda>(k, v). (canonicalize_param_name k, v, src)) xs) c
      = map_option (\<lambda>v. (v, src)) (map_of (map (\<lambda>(k, v). (canonicalize_param_name k, v)) xs) c)"
    for xs :: "(bytes \<times> bytes) list"
    by (induction xs) auto
  then show ?thesis
    by (simp add: from_source_def canonical_layer_def rev_map)
qed

lemma sources_lookup:
  "map_option fst (bt_get (resolve_with_sources general pool (Some overlay)) c)
     = (map_of (rev (canonical_layer general)) ++ map_of (rev (canonical_layer pool))
          ++ map_of (rev (canonical_layer overlay))) c"
  by (simp add: resolve_with_sources_def bt_get_extend bt_inv_extend map_add_def map_of_from_source
      option.map_comp comp_def option.map_ident split: option.split)

lemma keys_with_state: "fst ` set (map (\<lambda>(k, v, src). (k, v, src, st)) xs) = fst ` set xs"
  by (induction xs) auto

lemma fold_no_insert:
  "(\<And>k v. (k, v) \<in> set wire \<Longrightarrow> bt_get out k \<noteq> None) \<Longrightarrow>
     fold (\<lambda>(k, v) out. if bt_get out k = None then f k v out else out) wire out = out"
proof (induction wire)
  case (Cons kv wire)
  then show ?case by (cases kv) fastforce
qed simp

section \<open>Properties\<close>



definition empty_values :: "(bytes \<times> bytes) list" where
  "empty_values = [(ascii ''user'', ascii ''u''), (ascii ''application_name'', []), (ascii ''options'', [])]"


section \<open>Witnesses\<close>

definition general_level :: "(bytes, bytes) btree" where
  "general_level = [(ascii ''timezone'', ascii ''Europe/Berlin''), (ascii ''work_mem'', ascii ''64MB'')]"

definition pool_level :: "(bytes, bytes) btree" where
  "pool_level = [(ascii ''TimeZone'', ascii ''UTC'')]"

definition user_level :: "(bytes, bytes) btree" where
  "user_level = [(ascii ''lock_timeout'', ascii ''5s'')]"

definition merged_levels :: "(bytes, bytes) btree" where
  "merged_levels = [(ascii ''TimeZone'', ascii ''UTC''), (ascii ''lock_timeout'', ascii ''5s''),
     (ascii ''work_mem'', ascii ''64MB'')]"

lemma levels_valid:
  "validate general_level = Inr ()" "validate pool_level = Inr ()"
  "\<forall>(k, v) \<in> set user_level. validate_entry k v = Inr ()"
  by code_simp+

lemma levels_merged:
  "resolved_startup_parameters (build_resolved_startup (cascade_canonical_keys [general_level, pool_level])
     user_level (ascii ''alice'') (ascii ''db'') (ascii ''app'')) = Inr merged_levels"
  by code_simp



end
