(* ===== verification/Session_Parameters.thy ===== *)
theory Session_Parameters
  imports Startup_Parameters
begin

text \<open>
  Session parameters of clients and backends: \<^verbatim>\<open>src/src/server/parameters.rs\<close> and
  \<^verbatim>\<open>Server::sync_parameters\<close> of \<^verbatim>\<open>src/src/server/server_backend.rs\<close>, which makes a backend's
  parameters those of the client it is checked out to.

  A \<^verbatim>\<open>HashMap\<close> is kept as a list in key order. Its iteration order is unspecified; where a result
  depends on that order (the text of the synchronisation query), the order is an argument.
\<close>

section \<open>Names\<close>

definition set_forbidden_parameters :: "bytes list" where
  "set_forbidden_parameters = map ascii [''is_superuser'', ''session_authorization'', ''server_version'',
     ''server_version_num'', ''server_encoding'', ''integer_datetimes'', ''in_hot_standby'',
     ''session_user'', ''current_user'', ''block_size'', ''wal_block_size'', ''wal_segment_size'',
     ''max_index_keys'', ''max_identifier_length'', ''max_function_args'', ''data_checksums'',
     ''data_directory_mode'', ''gp_server_version'', ''gp_autovacuum_scope'', ''lc_collate'',
     ''lc_ctype'', ''transaction_isolation'', ''transaction_read_only'', ''transaction_deferrable'',
     ''user'', ''database'', ''replication'', ''options'']"

definition planner_keys :: "bytes list" where
  "planner_keys = map ascii [''search_path'', ''default_transaction_isolation'',
     ''default_transaction_read_only'', ''default_text_search_config'', ''role'']"

definition is_planner_key :: "bytes \<Rightarrow> bool" where
  "is_planner_key name \<longleftrightarrow> name \<in> set planner_keys"

definition is_set_forbidden :: "bytes \<Rightarrow> bool" where
  "is_set_forbidden name \<longleftrightarrow> name \<in> set set_forbidden_parameters"

definition is_safe_client_startup_key :: "bytes \<Rightarrow> bool" where
  "is_safe_client_startup_key key \<longleftrightarrow>
     is_valid_guc_name key
     \<and> \<not> (length key \<ge> 5 \<and> eq_ignore_ascii_case (take 5 key) (ascii ''_pq_.''))
     \<and> \<not> is_set_forbidden (canonicalize_param_name key)"

section \<open>Parameter sets\<close>

datatype param_action = SetTo bytes | Reset

definition planner_hash_unset :: u64 where
  "planner_hash_unset = - 1"

record server_params =
  sp_parameters :: "(bytes, bytes) btree"
  sp_planner_hash_cache :: u64

definition new_params :: server_params where
  "new_params = \<lparr>sp_parameters = [], sp_planner_hash_cache = planner_hash_unset\<rparr>"

definition clone_params :: "server_params \<Rightarrow> server_params" where
  "clone_params p = p\<lparr>sp_planner_hash_cache := planner_hash_unset\<rparr>"

definition set_param :: "bytes \<Rightarrow> bytes \<Rightarrow> bool \<Rightarrow> server_params \<Rightarrow> server_params \<times> bool" where
  "set_param key v at_startup p =
     (let key = canonicalize_param_name key
      in if key \<in> set tracked_parameters \<or> at_startup
         then (let changed = (bt_get (sp_parameters p) key \<noteq> Some v);
                   p' = p\<lparr>sp_parameters := bt_insert key v (sp_parameters p)\<rparr>
               in if is_planner_key key \<and> changed
                  then (p'\<lparr>sp_planner_hash_cache := planner_hash_unset\<rparr>, True)
                  else (p', False))
         else (p, False))"

definition admin_params :: "bytes \<Rightarrow> server_params" where
  "admin_params version =
     fold (\<lambda>(k, v, at_startup) p. fst (set_param (ascii k) v at_startup p))
       [(''client_encoding'', ascii ''UTF8'', False), (''DateStyle'', ascii ''ISO, MDY'', False),
        (''TimeZone'', ascii ''Etc/UTC'', False), (''server_version'', version, True),
        (''server_encoding'', ascii ''UTF-8'', True),
        (''standard_conforming_strings'', ascii ''on'', False),
        (''integer_datetimes'', ascii ''on'', False),
        (''application_name'', ascii ''pg_doorman'', False)] new_params"

definition set_from_hashmap ::
  "(bytes \<times> bytes) list \<Rightarrow> bool \<Rightarrow> server_params \<Rightarrow> server_params \<times> bool" where
  "set_from_hashmap kvs at_startup p =
     fold (\<lambda>(k, v) (p, changed). let (p', c) = set_param k v at_startup p in (p', changed \<or> c)) kvs (p, False)"

definition remove_param :: "bytes \<Rightarrow> server_params \<Rightarrow> server_params" where
  "remove_param key p =
     (let c = canonicalize_param_name key;
          p' = p\<lparr>sp_parameters := filter (\<lambda>(k, v). k \<noteq> c) (sp_parameters p)\<rparr>
      in if bt_get (sp_parameters p) c \<noteq> None \<and> is_planner_key c
         then p'\<lparr>sp_planner_hash_cache := planner_hash_unset\<rparr> else p')"

definition forget_untracked :: "server_params \<Rightarrow> server_params" where
  "forget_untracked p =
     p\<lparr>sp_parameters := filter (\<lambda>(k, v). k \<in> set tracked_parameters \<or> is_set_forbidden k) (sp_parameters p),
       sp_planner_hash_cache := planner_hash_unset\<rparr>"

definition compare_params :: "server_params \<Rightarrow> server_params \<Rightarrow> (bytes, param_action) btree" where
  "compare_params backend client =
     bt_extend
       (map (\<lambda>(k, v). (k, Reset))
         (filter (\<lambda>(k, v). \<not> is_set_forbidden k \<and> bt_get (sp_parameters client) k = None)
           (sp_parameters backend)))
       (bt_extend
         (map (\<lambda>(k, v). (k, SetTo v))
           (filter (\<lambda>(k, v). \<not> is_set_forbidden k \<and> bt_get (sp_parameters backend) k \<noteq> Some v)
             (sp_parameters client))) [])"

text \<open>
  The digest of the planner parameters, sorted by name; \<open>xxh\<close> is the hash function of a third-party
  crate on the writes it receives. Zero stands for the empty set, and the sentinel of the cache is
  never a result.
\<close>

datatype planner_write = WBytes bytes | WU8 u8 | WU32 u32

definition planner_entries :: "server_params \<Rightarrow> (bytes \<times> bytes) list" where
  "planner_entries p = filter (\<lambda>(k, v). is_planner_key k) (sp_parameters p)"

definition planner_hash_of :: "(planner_write list \<Rightarrow> u64) \<Rightarrow> (bytes \<times> bytes) list \<Rightarrow> u64" where
  "planner_hash_of xxh entries =
     (if entries = [] then 0
      else (let h = xxh (concat (map (\<lambda>(k, v). [WBytes k, WU8 0, WBytes v, WU8 0]) entries)
                          @ [WU32 (of_nat (length entries))])
            in if h = 0 then 1 else if h = planner_hash_unset then planner_hash_unset - 1 else h))"

definition planner_param_hash ::
  "(planner_write list \<Rightarrow> u64) \<Rightarrow> server_params \<Rightarrow> u64 \<times> server_params" where
  "planner_param_hash xxh p =
     (if sp_planner_hash_cache p \<noteq> planner_hash_unset then (sp_planner_hash_cache p, p)
      else (let h = planner_hash_of xxh (planner_entries p)
            in (h, p\<lparr>sp_planner_hash_cache := h\<rparr>)))"

definition parameter_status_suppressed :: "bytes list" where
  "parameter_status_suppressed = map ascii [''user'', ''database'', ''replication'', ''options'']"

definition parameter_status_messages :: "(bytes \<times> bytes) list \<Rightarrow> bytes" where
  "parameter_status_messages order =
     concat (map (\<lambda>(k, v). server_parameter_message k v)
       (filter (\<lambda>(k, v). k \<notin> set parameter_status_suppressed) order))"

text \<open>
  The parameters of a client's startup packet that enter its set: names that may become part of a
  \<^verbatim>\<open>SET\<close> command, unless the operator manages them.
\<close>

definition merge_startup_params ::
  "bytes set option \<Rightarrow> (bytes \<times> bytes) list \<Rightarrow> server_params \<Rightarrow> server_params" where
  "merge_startup_params managed kvs p =
     fold (\<lambda>(k, v) p.
         if \<not> is_safe_client_startup_key k
            \<or> (case managed of Some ks \<Rightarrow> canonicalize_param_name k \<in> ks | None \<Rightarrow> False)
         then p else fst (set_param k v True p)) kvs p"

section \<open>Synchronisation at checkout\<close>

definition sync_diff :: "bytes set \<Rightarrow> server_params \<Rightarrow> server_params \<Rightarrow> (bytes, param_action) btree" where
  "sync_diff managed backend client =
     filter (\<lambda>(k, a). k \<notin> managed) (compare_params backend client)"

definition escape_quotes :: "bytes \<Rightarrow> bytes" where
  "escape_quotes v = concat (map (\<lambda>b. if b = 39 then [39, 39] else [b]) v)"

definition render_action :: "bytes \<times> param_action \<Rightarrow> bytes" where
  "render_action ka =
     (case snd ka of
        SetTo v \<Rightarrow> ascii ''SET '' @ fst ka @ ascii '' TO '' @ [39]
            @ (if 39 \<in> set v then escape_quotes v else v) @ [39, 59]
      | Reset \<Rightarrow> ascii ''RESET '' @ fst ka @ [59])"

definition sync_query :: "(bytes \<times> param_action) list \<Rightarrow> bytes" where
  "sync_query order = concat (map render_action order)"

definition mirror_action :: "bytes \<times> param_action \<Rightarrow> server_params \<Rightarrow> server_params" where
  "mirror_action ka p =
     (case snd ka of SetTo v \<Rightarrow> fst (set_param (fst ka) v True p) | Reset \<Rightarrow> remove_param (fst ka) p)"

text \<open>
  \<^verbatim>\<open>sync_parameters\<close>, with \<open>order\<close> the iteration order of the difference and \<open>ok\<close> the outcome of the query:
  the query that was sent, the new parameters, and whether the cleanup state was reset.
\<close>

definition sync_parameters ::
  "bytes set \<Rightarrow> server_params \<Rightarrow> server_params \<Rightarrow> (bytes \<times> param_action) list \<Rightarrow> bool
     \<Rightarrow> bytes option \<times> server_params \<times> bool" where
  "sync_parameters managed backend client order ok =
     (if sync_diff managed backend client = [] then (None, backend, False)
      else (Some (sync_query order), if ok then fold mirror_action order backend else backend, True))"

section \<open>Well-formed parameter sets\<close>

definition canonical_keys :: "(bytes, bytes) btree \<Rightarrow> bool" where
  "canonical_keys m \<longleftrightarrow> (\<forall>k \<in> fst ` set m. canonicalize_param_name k = k)"

definition params_ok :: "server_params \<Rightarrow> bool" where
  "params_ok p \<longleftrightarrow> bt_inv (sp_parameters p) \<and> canonical_keys (sp_parameters p)"

lemma canonical_keys_insert:
  "canonical_keys m \<Longrightarrow> canonical_keys (bt_insert (canonicalize_param_name k) v m)"
  unfolding canonical_keys_def set_bt_insert by auto

lemma canonical_keys_filter: "canonical_keys m \<Longrightarrow> canonical_keys (filter P m)"
  by (auto simp: canonical_keys_def)

abbreviation param :: "server_params \<Rightarrow> bytes \<Rightarrow> bytes option" where
  "param p \<equiv> bt_get (sp_parameters p)"

lemma bt_inv_filter: "bt_inv m \<Longrightarrow> bt_inv (filter P m)"
  by (simp add: bt_inv_def sorted_wrt_map sorted_wrt_filter)

lemma bt_get_filter:
  "bt_inv m \<Longrightarrow> bt_get (filter (\<lambda>(k, v). P k) m) k = (if P k then bt_get m k else None)"
  unfolding bt_get_def by (induction m) (auto simp: bt_inv_def)

lemma params_ok_new [simp]: "params_ok new_params"
  by (simp add: params_ok_def new_params_def canonical_keys_def)

lemma params_ok_set: "params_ok p \<Longrightarrow> params_ok (fst (set_param k v b p))"
  by (auto simp: params_ok_def set_param_def Let_def bt_inv_insert canonical_keys_insert)

lemma params_ok_remove: "params_ok p \<Longrightarrow> params_ok (remove_param k p)"
  by (auto simp: params_ok_def remove_param_def Let_def bt_inv_filter canonical_keys_filter)

lemma params_ok_forget: "params_ok p \<Longrightarrow> params_ok (forget_untracked p)"
  by (auto simp: params_ok_def forget_untracked_def bt_inv_filter canonical_keys_filter)

lemma param_set: "params_ok p \<Longrightarrow>
    param (fst (set_param k v True p)) = (param p)(canonicalize_param_name k \<mapsto> v)"
  by (auto simp: params_ok_def set_param_def Let_def bt_get_insert)

lemma param_remove: "params_ok p \<Longrightarrow>
    param (remove_param k p) = (param p)(canonicalize_param_name k := None)"
  by (auto simp: params_ok_def remove_param_def Let_def bt_get_filter fun_eq_iff)

lemma param_canonical: "params_ok p \<Longrightarrow> param p k \<noteq> None \<Longrightarrow> canonicalize_param_name k = k"
  by (auto simp: params_ok_def canonical_keys_def bt_get_def map_of_eq_None_iff)

section \<open>The difference\<close>

lemma map_of_mapped_filter:
  "bt_inv m \<Longrightarrow> map_of (rev (map (\<lambda>(k, v). (k, f v)) (filter (\<lambda>(k, v). P k v) m))) k
     = (case bt_get m k of Some v \<Rightarrow> if P k v then Some (f v) else None | None \<Rightarrow> None)"
proof -
  assume inv: "bt_inv m"
  let ?l = "map (\<lambda>(k, v). (k, f v)) (filter (\<lambda>(k, v). P k v) m)"
  have "map fst ?l = map fst (filter (\<lambda>(k, v). P k v) m)" by (induction m) auto
  moreover have "distinct (map fst (filter (\<lambda>(k, v). P k v) m))"
    using bt_inv_distinct [OF inv] by (rule distinct_map_filter)
  ultimately have d: "distinct (map fst ?l)" by metis
  have "map_of (rev ?l) = map_of ?l"
    using d by (simp add: map_of_inject_set rev_map [symmetric])
  moreover have "map_of ?l k = (case bt_get m k of Some v \<Rightarrow> if P k v then Some (f v) else None | None \<Rightarrow> None)"
    using inv unfolding bt_get_def bt_inv_def
    by (induction m) (auto simp: map_of_eq_None_iff split: option.splits)
  ultimately show ?thesis by simp
qed

lemma compare_params_lookup:
  assumes "params_ok backend" and "params_ok client"
  shows "bt_get (compare_params backend client) k =
    (if is_set_forbidden k then None
     else case (param backend k, param client k) of
            (_, Some v) \<Rightarrow> if param backend k = Some v then None else Some (SetTo v)
          | (Some _, None) \<Rightarrow> Some Reset
          | (None, None) \<Rightarrow> None)"
  using assms
  by (auto simp: compare_params_def bt_get_extend bt_inv_extend map_add_def params_ok_def
      map_of_mapped_filter split: option.splits)

text \<open>The effect of the mirrored actions, whatever the order of iteration.\<close>

definition after_action :: "param_action option \<Rightarrow> bytes option \<Rightarrow> bytes option" where
  "after_action a old = (case a of Some (SetTo v) \<Rightarrow> Some v | Some Reset \<Rightarrow> None | None \<Rightarrow> old)"

lemma params_ok_mirror: "params_ok p \<Longrightarrow> params_ok (mirror_action ka p)"
  by (auto simp: mirror_action_def params_ok_set params_ok_remove split: param_action.split)

lemma param_mirror:
  assumes "params_ok p" and "canonicalize_param_name (fst ka) = fst ka"
  shows "param (mirror_action ka p) = (param p)(fst ka := after_action (Some (snd ka)) None)"
  using assms by (auto simp: mirror_action_def param_set param_remove after_action_def
      split: param_action.split)

lemma param_fold_mirror:
  assumes "params_ok p" and "distinct (map fst order)"
    and "\<forall>ka \<in> set order. canonicalize_param_name (fst ka) = fst ka"
  shows "param (fold mirror_action order p) k = after_action (map_of order k) (param p k)"
  using assms
proof (induction order arbitrary: p)
  case Nil
  then show ?case by (simp add: after_action_def)
next
  case (Cons ka order)
  obtain k' a where ka: "ka = (k', a)" by (cases ka)
  have "param (fold mirror_action order (mirror_action ka p)) k
      = after_action (map_of order k) (param (mirror_action ka p) k)"
    using Cons by (simp add: params_ok_mirror)
  moreover have "map_of order k' = None"
    using Cons.prems(2) ka by (simp add: map_of_eq_None_iff)
  ultimately show ?case
    using Cons.prems ka by (auto simp: param_mirror after_action_def split: option.splits param_action.splits)
qed

lemma sync_diff_lookup:
  assumes "params_ok backend" and "params_ok client"
  shows "bt_get (sync_diff managed backend client) k
    = (if k \<in> managed then None else bt_get (compare_params backend client) k)"
proof -
  have "bt_inv (compare_params backend client)"
    unfolding compare_params_def by (intro bt_inv_extend bt_inv_Nil)
  then show ?thesis
    unfolding sync_diff_def by (simp add: bt_get_filter)
qed

lemma sync_diff_None:
  assumes "params_ok backend" and "params_ok client"
  shows "bt_get (sync_diff managed backend client) k = None
    \<longleftrightarrow> is_set_forbidden k \<or> k \<in> managed \<or> param backend k = param client k"
  using assms by (cases "param backend k"; cases "param client k")
    (simp_all add: sync_diff_lookup compare_params_lookup)

lemma bt_inv_sync_diff: "bt_inv (sync_diff managed backend client)"
  unfolding sync_diff_def compare_params_def by (intro bt_inv_filter bt_inv_extend bt_inv_Nil)

lemma sync_diff_canonical:
  assumes "params_ok backend" and "params_ok client" and "ka \<in> set (sync_diff managed backend client)"
  shows "canonicalize_param_name (fst ka) = fst ka"
proof -
  have "bt_get (sync_diff managed backend client) (fst ka) = Some (snd ka)"
    using assms(3) bt_get_mem [OF bt_inv_sync_diff] by simp
  then have "param backend (fst ka) \<noteq> None \<or> param client (fst ka) \<noteq> None"
    using assms by (auto simp: sync_diff_lookup compare_params_lookup split: if_splits option.splits)
  then show ?thesis using param_canonical assms(1,2) by blast
qed

text \<open>An enumeration of the difference in some order.\<close>

definition enumerates :: "('k \<times> 'v) list \<Rightarrow> ('k, 'v) btree \<Rightarrow> bool" where
  "enumerates order m \<longleftrightarrow> mset order = mset m"

lemma enumerates_facts:
  assumes "enumerates order m" and "bt_inv m"
  shows "set order = set m" and "distinct (map fst order)" and "map_of order = bt_get m"
proof -
  show s: "set order = set m"
    using assms(1) unfolding enumerates_def by (metis set_mset_mset)
  have "mset (map fst order) = mset (map fst m)"
    using assms(1) by (simp add: enumerates_def)
  then show d: "distinct (map fst order)"
    using bt_inv_distinct [OF assms(2)] by (metis distinct_count_atmost_1 set_mset_mset)
  show "map_of order = bt_get m"
    unfolding bt_get_def using s d bt_inv_distinct [OF assms(2)] by (simp add: map_of_inject_set)
qed

section \<open>Reading the synchronisation query\<close>

text \<open>
  A reference reader for the commands of the query, with string literals as SQL defines them: a
  quote inside a literal is doubled, and nothing else is special.
\<close>

definition name_char :: "u8 \<Rightarrow> bool" where
  "name_char b \<longleftrightarrow> is_ascii_alphanumeric b \<or> b = 95 \<or> b = 46"

fun sql_literal :: "bytes \<Rightarrow> (bytes \<times> bytes) option" where
  "sql_literal [] = None"
| "sql_literal (b # r) =
     (if b = 39
      then (case r of
              c # r' \<Rightarrow> if c = 39 then map_option (apfst (Cons 39)) (sql_literal r') else Some ([], r)
            | [] \<Rightarrow> Some ([], []))
      else map_option (apfst (Cons b)) (sql_literal r))"

definition sql_statement :: "bytes \<Rightarrow> ((bytes \<times> param_action) \<times> bytes) option" where
  "sql_statement bs =
     (if take 4 bs = ascii ''SET ''
      then (let name = takeWhile name_char (drop 4 bs); r = dropWhile name_char (drop 4 bs)
            in if take 5 r = ascii '' TO '' @ [39]
               then (case sql_literal (drop 5 r) of
                       Some (v, c # r') \<Rightarrow> if c = 59 then Some ((name, SetTo v), r') else None
                     | _ \<Rightarrow> None)
               else None)
      else if take 6 bs = ascii ''RESET ''
      then (let name = takeWhile name_char (drop 6 bs); r = dropWhile name_char (drop 6 bs)
            in case r of c # r' \<Rightarrow> if c = 59 then Some ((name, Reset), r') else None | [] \<Rightarrow> None)
      else None)"

inductive sql_reads :: "bytes \<Rightarrow> (bytes \<times> param_action) list \<Rightarrow> bool" where
  reads_end: "sql_reads [] []"
| reads_more: "sql_statement bs = Some (ka, r) \<Longrightarrow> sql_reads r kas \<Longrightarrow> sql_reads bs (ka # kas)"

lemma sql_literal_escape: "sql_literal (escape_quotes v @ 39 # 59 # r) = Some (v, 59 # r)"
  by (induction v) (auto simp: escape_quotes_def)

lemma escape_id: "39 \<notin> set v \<Longrightarrow> escape_quotes v = v"
  by (induction v) (auto simp: escape_quotes_def)

lemma valid_name_chars: "is_valid_guc_name k \<Longrightarrow> \<forall>b \<in> set k. name_char b"
  by (cases k) (auto simp: is_valid_guc_name_def name_char_def is_ascii_alphanumeric_def list_all_iff)

lemma not_name_char: "\<not> name_char 32" "\<not> name_char 59"
  by code_simp+

lemma name_span:
  assumes "\<forall>b \<in> set k. name_char b" and "\<not> name_char c"
  shows "takeWhile name_char (k @ c # r) = k" and "dropWhile name_char (k @ c # r) = c # r"
  using assms by (induction k) auto

lemma ascii_keywords: "ascii ''SET '' = [83, 69, 84, 32]" "ascii ''RESET '' = [82, 69, 83, 69, 84, 32]"
  "ascii '' TO '' = [32, 84, 79, 32]"
  by code_simp+

lemma sql_statement_render:
  assumes "is_valid_guc_name (fst ka)"
  shows "sql_statement (render_action ka @ r) = Some (ka, r)"
proof (cases "snd ka")
  case (SetTo v)
  have v: "(if 39 \<in> set v then escape_quotes v else v) = escape_quotes v"
    by (simp add: escape_id)
  have bs: "render_action ka @ r = [83, 69, 84, 32] @ fst ka @ 32 # [84, 79, 32, 39]
      @ escape_quotes v @ 39 # 59 # r"
    unfolding render_action_def SetTo param_action.case v ascii_keywords by simp
  show ?thesis
    unfolding bs sql_statement_def ascii_keywords
    using name_span [OF valid_name_chars [OF assms] not_name_char(1)] SetTo
    by (cases ka) (simp add: sql_literal_escape)
next
  case Reset
  have bs: "render_action ka @ r = [82, 69, 83, 69, 84, 32] @ fst ka @ 59 # r"
    unfolding render_action_def Reset param_action.case ascii_keywords by simp
  show ?thesis
    unfolding bs sql_statement_def ascii_keywords
    using name_span [OF valid_name_chars [OF assms] not_name_char(2)] Reset
    by (cases ka) simp
qed

lemma sync_query_reads:
  "\<forall>ka \<in> set order. is_valid_guc_name (fst ka) \<Longrightarrow> sql_reads (sync_query order) order"
  unfolding sync_query_def
  by (induction order) (auto intro: sql_reads.intros sql_statement_render)

lemma sql_statement_Nil [simp]: "sql_statement [] = None"
  by code_simp

lemma sql_reads_unique: "sql_reads bs kas \<Longrightarrow> sql_reads bs kas' \<Longrightarrow> kas = kas'"
proof (induction arbitrary: kas' rule: sql_reads.induct)
  case reads_end
  then show ?case by (cases rule: sql_reads.cases) auto
next
  case (reads_more bs ka r kas)
  show ?case
  proof (rule sql_reads.cases [OF reads_more.prems], goal_cases)
    case 1
    then show ?case using reads_more.hyps(1) by simp
  next
    case (2 bs' ka' r' kas'')
    then have "ka' = ka" "r' = r" using reads_more.hyps(1) by simp_all
    then show ?case using 2 reads_more.IH [of kas''] by simp
  qed
qed

section \<open>Names of parameter sets\<close>

lemma unat_ascii_upper: "65 \<le> b \<Longrightarrow> b \<le> 90 \<Longrightarrow> unat (b + 32) = unat b + 32" for b :: u8
proof -
  assume "65 \<le> b" "b \<le> 90"
  then have "unat b + 32 < 256" by (simp add: word_le_nat_alt)
  then show ?thesis by (simp add: unat_word_ariths)
qed

lemma alphabetic_lower [simp]: "is_ascii_alphabetic (ascii_lower b) \<longleftrightarrow> is_ascii_alphabetic b"
  by (auto simp: is_ascii_alphabetic_def ascii_lower_def word_le_nat_alt unat_ascii_upper)

lemma digit_lower [simp]: "ascii_lower b \<le> 57 \<longleftrightarrow> b \<le> 57" "48 \<le> ascii_lower b \<and> b \<le> 57 \<longleftrightarrow> 48 \<le> b \<and> b \<le> 57"
  by (auto simp: ascii_lower_def word_le_nat_alt unat_ascii_upper)

lemma punct_lower [simp]: "ascii_lower b = 95 \<longleftrightarrow> b = 95" "ascii_lower b = 46 \<longleftrightarrow> b = 46"
proof -
  have "b + 32 \<noteq> 95 \<and> b + 32 \<noteq> 46" if "65 \<le> b" "b \<le> 90"
  proof -
    have "unat (b + 32) \<ge> 97" "unat (b + 32) \<noteq> 46"
      using that unat_ascii_upper [OF that] by (simp_all add: word_le_nat_alt)
    then show ?thesis by auto
  qed
  then show "ascii_lower b = 95 \<longleftrightarrow> b = 95" "ascii_lower b = 46 \<longleftrightarrow> b = 46"
    by (auto simp: ascii_lower_def)
qed

lemma alphanumeric_lower [simp]: "is_ascii_alphanumeric (ascii_lower b) \<longleftrightarrow> is_ascii_alphanumeric b"
  by (auto simp: is_ascii_alphanumeric_def)

lemma valid_name_lower: "is_valid_guc_name (to_ascii_lowercase k) \<longleftrightarrow> is_valid_guc_name k"
  by (cases k) (auto simp: is_valid_guc_name_def to_ascii_lowercase_def list_all_iff)

lemma valid_name_canonical: "is_valid_guc_name (canonicalize_param_name k) \<longleftrightarrow> is_valid_guc_name k"
  by (metis lower_canonical valid_name_lower)

definition names_ok :: "server_params \<Rightarrow> bool" where
  "names_ok p \<longleftrightarrow> (\<forall>k. param p k \<noteq> None \<longrightarrow> is_valid_guc_name k)"

lemma merge_startup_ok:
  assumes "params_ok p" and "names_ok p"
  shows "params_ok (merge_startup_params managed kvs p) \<and> names_ok (merge_startup_params managed kvs p)"
  using assms unfolding merge_startup_params_def
proof (induction kvs arbitrary: p)
  case Nil
  then show ?case by simp
next
  case (Cons kv kvs)
  obtain k v where kv: "kv = (k, v)" by (cases kv)
  have "names_ok (fst (set_param k v True p))" if "is_safe_client_startup_key k"
    using that Cons.prems
    by (auto simp: names_ok_def param_set is_safe_client_startup_key_def valid_name_canonical)
  then show ?case
    using Cons kv by (simp add: params_ok_set)
qed

lemma sync_diff_names:
  assumes "params_ok backend" and "params_ok client" and "names_ok backend" and "names_ok client"
    and "ka \<in> set (sync_diff managed backend client)"
  shows "is_valid_guc_name (fst ka)"
proof -
  have "bt_get (sync_diff managed backend client) (fst ka) = Some (snd ka)"
    using assms(5) bt_get_mem [OF bt_inv_sync_diff] by simp
  then have "param backend (fst ka) \<noteq> None \<or> param client (fst ka) \<noteq> None"
    using assms by (auto simp: sync_diff_lookup compare_params_lookup split: if_splits option.splits)
  then show ?thesis using assms(3,4) by (auto simp: names_ok_def)
qed

section \<open>The planner hash cache\<close>

definition hash_ok :: "(planner_write list \<Rightarrow> u64) \<Rightarrow> server_params \<Rightarrow> bool" where
  "hash_ok xxh p \<longleftrightarrow> sp_planner_hash_cache p = planner_hash_unset
     \<or> sp_planner_hash_cache p = planner_hash_of xxh (planner_entries p)"

datatype param_op = OpSet bytes bytes bool | OpRemove bytes | OpForget | OpHash

primrec param_step :: "(planner_write list \<Rightarrow> u64) \<Rightarrow> param_op \<Rightarrow> server_params \<Rightarrow> server_params" where
  "param_step xxh (OpSet k v b) p = fst (set_param k v b p)"
| "param_step xxh (OpRemove k) p = remove_param k p"
| "param_step xxh OpForget p = forget_untracked p"
| "param_step xxh OpHash p = snd (planner_param_hash xxh p)"

lemma planner_hash_of_not_unset: "planner_hash_of xxh es \<noteq> planner_hash_unset"
  by (auto simp: planner_hash_of_def planner_hash_unset_def Let_def)

lemma filter_bt_insert_other:
  "\<not> P k \<Longrightarrow> bt_inv m \<Longrightarrow> filter (\<lambda>(k, v). P k) (bt_insert k v m) = filter (\<lambda>(k, v). P k) m"
  by (induction k v m rule: bt_insert.induct) (auto simp: bt_inv_def)

lemma bt_insert_same: "bt_inv m \<Longrightarrow> bt_get m k = Some v \<Longrightarrow> bt_insert k v m = m"
  unfolding bt_get_def by (induction k v m rule: bt_insert.induct)
    (auto simp: bt_inv_def split: if_splits dest!: map_of_SomeD)

lemma hash_ok_set:
  assumes "params_ok p" and "hash_ok xxh p"
  shows "hash_ok xxh (fst (set_param k v b p))"
proof -
  let ?k = "canonicalize_param_name k"
  have inv: "bt_inv (sp_parameters p)" using assms(1) by (simp add: params_ok_def)
  have "bt_insert ?k v (sp_parameters p) = sp_parameters p" if "param p ?k = Some v"
    using bt_insert_same [OF inv that] .
  moreover have "filter (\<lambda>(k, v). is_planner_key k) (bt_insert ?k v (sp_parameters p))
      = filter (\<lambda>(k, v). is_planner_key k) (sp_parameters p)" if "\<not> is_planner_key ?k"
    by (rule filter_bt_insert_other [where P = is_planner_key, OF that inv])
  ultimately show ?thesis
    using assms(2) by (auto simp: hash_ok_def set_param_def Let_def planner_entries_def)
qed

lemma hash_ok_remove:
  assumes "params_ok p" and "hash_ok xxh p"
  shows "hash_ok xxh (remove_param k p)"
proof -
  let ?c = "canonicalize_param_name k"
  have "filter (\<lambda>(k, v). is_planner_key k) (filter (\<lambda>(k, v). k \<noteq> ?c) (sp_parameters p))
      = filter (\<lambda>(k, v). is_planner_key k) (sp_parameters p)"
    if "param p ?c = None \<or> \<not> is_planner_key ?c"
    unfolding filter_filter using that
    by (intro filter_cong) (auto simp: bt_get_def map_of_eq_None_iff image_iff)
  then show ?thesis
    using assms(2) by (auto simp: hash_ok_def remove_param_def Let_def planner_entries_def)
qed

lemma param_step_ok:
  "params_ok p \<and> hash_ok xxh p \<Longrightarrow> params_ok (param_step xxh op p) \<and> hash_ok xxh (param_step xxh op p)"
  by (cases op)
    (auto simp: params_ok_set params_ok_remove params_ok_forget hash_ok_set hash_ok_remove,
     auto simp: hash_ok_def forget_untracked_def planner_param_hash_def Let_def planner_entries_def
       params_ok_def)

lemma param_steps_ok:
  "params_ok p \<and> hash_ok xxh p \<Longrightarrow>
     params_ok (fold (param_step xxh) ops p) \<and> hash_ok xxh (fold (param_step xxh) ops p)"
  by (induction ops arbitrary: p) (simp_all add: param_step_ok)

section \<open>Properties\<close>


text \<open>
  C4. A client cannot inject SQL through its startup parameters. Whatever names and values its startup
  packet carries, the synchronisation query is read as exactly the intended list of \<^verbatim>\<open>SET\<close> and
  \<^verbatim>\<open>RESET\<close> commands, each value as one literal.
\<close>

theorem sync_query_no_injection:
  assumes "params_ok backend" and "names_ok backend" and "params_ok base" and "names_ok base"
    and "client = merge_startup_params managed kvs base"
    and "enumerates order (sync_diff keys backend client)"
  shows "sql_reads (sync_query order) kas \<longleftrightarrow> kas = order"
proof -
  have client: "params_ok client" "names_ok client"
    using merge_startup_ok [OF assms(3,4)] assms(5) by auto
  have "set order = set (sync_diff keys backend client)"
    by (rule enumerates_facts(1) [OF assms(6) bt_inv_sync_diff])
  then have "\<forall>ka \<in> set order. is_valid_guc_name (fst ka)"
    using sync_diff_names [OF assms(1) client(1) assms(2) client(2)] by blast
  then have "sql_reads (sync_query order) order" by (rule sync_query_reads)
  then show ?thesis using sql_reads_unique by blast
qed

text \<open>
  C25. The cached planner hash is never stale: after any sequence of updates, removals, resets and
  hash computations, the hash a parameter set reports is the hash of its current planner parameters.
\<close>

theorem planner_hash_coherent:
  "fst (planner_param_hash xxh (fold (param_step xxh) ops new_params))
     = planner_hash_of xxh (planner_entries (fold (param_step xxh) ops new_params))"
proof -
  have "hash_ok xxh new_params" by (simp add: hash_ok_def new_params_def)
  then have "hash_ok xxh (fold (param_step xxh) ops new_params)"
    using param_steps_ok [of new_params xxh ops] by simp
  then show ?thesis
    by (auto simp: hash_ok_def planner_param_hash_def Let_def)
qed

section \<open>Witnesses\<close>

definition pooled_backend :: server_params where
  "pooled_backend = \<lparr>sp_parameters = [(ascii ''TimeZone'', ascii ''UTC''), (ascii ''search_path'', ascii ''a'')],
     sp_planner_hash_cache = planner_hash_unset\<rparr>"

definition quoted_value :: bytes where
  "quoted_value = [39, 59, 68, 82, 79, 80]"

definition hostile_client :: server_params where
  "hostile_client = merge_startup_params None
     [(ascii ''application_name'', quoted_value), (ascii ''x;DROP'', ascii ''1''),
      (ascii ''TIMEZONE'', ascii ''UTC'')] new_params"

definition hostile_order :: "(bytes \<times> param_action) list" where
  "hostile_order = [(ascii ''search_path'', Reset), (ascii ''application_name'', SetTo quoted_value)]"

lemma hostile_enumerates: "enumerates hostile_order (sync_diff {} pooled_backend hostile_client)"
proof -
  have "sync_diff {} pooled_backend hostile_client = rev hostile_order" by code_simp
  then show ?thesis by (simp add: enumerates_def)
qed

lemma pooled_backend_ok: "params_ok pooled_backend" "names_ok pooled_backend"
proof -
  have "bt_inv (sp_parameters pooled_backend)"
    "list_all (\<lambda>kv. canonicalize_param_name (fst kv) = fst kv) (sp_parameters pooled_backend)"
    "list_all (\<lambda>kv. is_valid_guc_name (fst kv)) (sp_parameters pooled_backend)"
    by code_simp+
  then show "params_ok pooled_backend" "names_ok pooled_backend"
    by (auto simp: params_ok_def canonical_keys_def names_ok_def list_all_iff bt_get_def)
      (metis fst_conv map_of_SomeD)
qed

lemma new_params_names: "names_ok new_params"
  by (simp add: names_ok_def new_params_def)

theorem sync_query_no_injection_witness:
  "sql_reads (sync_query hostile_order) hostile_order
   \<and> (\<exists>kas. sql_reads (sync_query hostile_order) kas \<and> kas = hostile_order)"
  using sync_query_no_injection [OF pooled_backend_ok params_ok_new new_params_names hostile_client_def
      hostile_enumerates, of hostile_order] by blast


end
