(* ===== verification/Batch.thy ===== *)
theory Batch
  imports Backend_Messages
begin

text \<open>
  The order of ParseComplete messages in the response to a batch of the extended protocol
  (\<^verbatim>\<open>src/src/client/batch_handling.rs\<close>). The pooler does not forward a Parse whose statement the
  backend already has; \<^verbatim>\<open>reorder_parse_complete_responses\<close> puts the missing ParseComplete messages into
  the response, chunk by chunk as it arrives.

  The state is the list of operations of the batch and the numbers of messages seen in earlier chunks.
  The counters are natural numbers; a subtraction below zero, which aborts the program, is \<open>None\<close>.
\<close>

section \<open>Operations of a batch\<close>

datatype batch_operation =
    ParseSkipped bytes
  | ParseSent bytes
  | DescribeOp bytes
  | DescribePortal
  | BindOp bytes
  | Execute
  | CloseOp

record response_counts =
  rc_bind_complete :: nat
  rc_param_desc :: nat
  rc_execute :: nat
  rc_close_complete :: nat

definition no_responses :: response_counts where
  "no_responses = \<lparr>rc_bind_complete = 0, rc_param_desc = 0, rc_execute = 0, rc_close_complete = 0\<rparr>"

definition add_counts :: "response_counts \<Rightarrow> response_counts \<Rightarrow> response_counts" where
  "add_counts a b =
     \<lparr>rc_bind_complete = rc_bind_complete a + rc_bind_complete b,
      rc_param_desc = rc_param_desc a + rc_param_desc b,
      rc_execute = rc_execute a + rc_execute b,
      rc_close_complete = rc_close_complete a + rc_close_complete b\<rparr>"

section \<open>Insertion maps\<close>

type_synonym insertion_map = "(nat \<times> nat) list"

fun insertion_map_add :: "insertion_map \<Rightarrow> nat \<Rightarrow> nat \<Rightarrow> insertion_map" where
  "insertion_map_add [] i c = [(i, c)]"
| "insertion_map_add ((j, d) # m) i c =
     (if j = i then (j, d + c) # m else (j, d) # insertion_map_add m i c)"

fun insertion_map_get :: "insertion_map \<Rightarrow> nat \<Rightarrow> nat option" where
  "insertion_map_get [] i = None"
| "insertion_map_get ((j, d) # m) i = (if j = i then Some d else insertion_map_get m i)"

definition insertion_map_sum :: "insertion_map \<Rightarrow> nat" where
  "insertion_map_sum m = sum_list (map snd m)"

text \<open>The variables of the pass over the operations.\<close>

record insertion_plan =
  insert_before_bind :: insertion_map
  insert_before_param_desc :: insertion_map
  insert_before_execute :: insertion_map
  insert_before_close :: insertion_map
  pending_insertions :: nat
  bind_index :: nat
  describe_index :: nat
  execute_index :: nat
  close_index :: nat

definition empty_plan :: insertion_plan where
  "empty_plan = \<lparr>insert_before_bind = [], insert_before_param_desc = [], insert_before_execute = [],
     insert_before_close = [], pending_insertions = 0, bind_index = 0, describe_index = 0,
     execute_index = 0, close_index = 0\<rparr>"

definition note_pending :: "insertion_map \<Rightarrow> nat \<Rightarrow> nat \<Rightarrow> insertion_map" where
  "note_pending m i pending = (if pending > 0 then insertion_map_add m i pending else m)"

primrec plan_operation :: "batch_operation \<Rightarrow> insertion_plan \<Rightarrow> insertion_plan" where
  "plan_operation (ParseSkipped name) p = p\<lparr>pending_insertions := pending_insertions p + 1\<rparr>"
| "plan_operation (ParseSent name) p = p"
| "plan_operation (DescribeOp name) p =
     p\<lparr>insert_before_param_desc :=
         note_pending (insert_before_param_desc p) (describe_index p) (pending_insertions p),
       pending_insertions := 0, describe_index := describe_index p + 1\<rparr>"
| "plan_operation (BindOp name) p =
     p\<lparr>insert_before_bind := note_pending (insert_before_bind p) (bind_index p) (pending_insertions p),
       pending_insertions := 0, bind_index := bind_index p + 1\<rparr>"
| "plan_operation DescribePortal p = p"
| "plan_operation Execute p =
     p\<lparr>insert_before_execute :=
         note_pending (insert_before_execute p) (execute_index p) (pending_insertions p),
       pending_insertions := 0, execute_index := execute_index p + 1\<rparr>"
| "plan_operation CloseOp p =
     p\<lparr>insert_before_close := note_pending (insert_before_close p) (close_index p) (pending_insertions p),
       pending_insertions := 0, close_index := close_index p + 1\<rparr>"

definition plan_batch :: "batch_operation list \<Rightarrow> insertion_plan" where
  "plan_batch ops = fold plan_operation ops empty_plan"

text \<open>The entries that earlier chunks have not reached, relative to the start of this chunk.\<close>

definition relevant :: "nat \<Rightarrow> insertion_map \<Rightarrow> insertion_map" where
  "relevant offset m = map (\<lambda>(i, c). (i - offset, c)) (filter (\<lambda>(i, c). i \<ge> offset) m)"

section \<open>The pass over a chunk\<close>

definition message_len :: "bytes \<Rightarrow> nat" where
  "message_len bs = unat (frame_len bs)"

function count_messages :: "bytes \<Rightarrow> response_counts \<Rightarrow> response_counts" where
  "count_messages bs rc =
     (if length bs < 5 then rc
      else count_messages (drop (1 + message_len bs) bs)
        (let t = hd bs in
         if t = code (CHR ''2'') then rc\<lparr>rc_bind_complete := rc_bind_complete rc + 1\<rparr>
         else if t = code (CHR ''t'') then rc\<lparr>rc_param_desc := rc_param_desc rc + 1\<rparr>
         else if t = code (CHR ''C'') then rc\<lparr>rc_execute := rc_execute rc + 1\<rparr>
         else if t = code (CHR ''3'') then rc\<lparr>rc_close_complete := rc_close_complete rc + 1\<rparr>
         else rc))"
  by pat_completeness auto
termination
  by (relation "measure (\<lambda>(bs, rc). length bs)") auto

declare count_messages.simps [simp del]

record reorder_state =
  ro_counts :: response_counts
  ro_inserted :: nat
  ro_in_execute :: bool

text \<open>
  The number of ParseComplete messages that go before a message with a given code, and the state after it;
  \<open>plan\<close> holds the relevant entries.
\<close>

definition planned :: "insertion_map \<Rightarrow> nat \<Rightarrow> nat" where
  "planned m i = (case insertion_map_get m i of Some c \<Rightarrow> c | None \<Rightarrow> 0)"

definition before_message ::
  "insertion_plan \<Rightarrow> nat \<Rightarrow> u8 \<Rightarrow> reorder_state \<Rightarrow> (nat \<times> reorder_state) option" where
  "before_message plan tot t st =
     (let rc = ro_counts st; ins = ro_inserted st;
          emit = (\<lambda>n st'. Some (n, st'\<lparr>ro_inserted := ins + n\<rparr>))
      in if t = code (CHR ''2'')
         then emit (planned (insert_before_bind plan) (rc_bind_complete rc))
                (st\<lparr>ro_counts := rc\<lparr>rc_bind_complete := rc_bind_complete rc + 1\<rparr>\<rparr>)
         else if t = code (CHR ''t'')
         then emit (planned (insert_before_param_desc plan) (rc_param_desc rc))
                (st\<lparr>ro_counts := rc\<lparr>rc_param_desc := rc_param_desc rc + 1\<rparr>\<rparr>)
         else if t = code (CHR ''3'')
         then emit (planned (insert_before_close plan) (rc_close_complete rc))
                (st\<lparr>ro_counts := rc\<lparr>rc_close_complete := rc_close_complete rc + 1\<rparr>\<rparr>)
         else if t = code (CHR ''C'')
         then emit 0 (st\<lparr>ro_counts := rc\<lparr>rc_execute := rc_execute rc + 1\<rparr>, ro_in_execute := False\<rparr>)
         else if t = code (CHR ''D'') \<or> t = code (CHR ''n'') \<or> t = code (CHR ''T'')
         then emit (if ro_in_execute st then 0 else planned (insert_before_execute plan) (rc_execute rc))
                (st\<lparr>ro_in_execute := True\<rparr>)
         else if t = code (CHR ''E'')
         then (if ins \<le> tot then emit (tot - ins) st else None)
         else if t = code (CHR ''Z'')
         then (if ins \<le> tot + pending_insertions plan
               then emit (tot + pending_insertions plan - ins) st else None)
         else emit 0 st)"

function reorder_messages ::
  "insertion_plan \<Rightarrow> nat \<Rightarrow> bytes \<Rightarrow> reorder_state \<Rightarrow> (bytes \<times> reorder_state) option" where
  "reorder_messages plan tot bs st =
     (if length bs < 5 \<or> 1 + message_len bs > length bs then Some (bs, st)
      else (case before_message plan tot (hd bs) st of
              None \<Rightarrow> None
            | Some (n, st') \<Rightarrow>
                map_option (\<lambda>(r, st''). (concat (replicate n parse_complete)
                    @ take (1 + message_len bs) bs @ r, st''))
                  (reorder_messages plan tot (drop (1 + message_len bs) bs) st')))"
  by pat_completeness auto
termination
  by (relation "measure (\<lambda>(plan, tot, bs, st). length bs)") auto

declare reorder_messages.simps [simp del]

definition relevant_plan :: "response_counts \<Rightarrow> insertion_plan \<Rightarrow> insertion_plan" where
  "relevant_plan rc p =
     p\<lparr>insert_before_bind := relevant (rc_bind_complete rc) (insert_before_bind p),
       insert_before_param_desc := relevant (rc_param_desc rc) (insert_before_param_desc p),
       insert_before_execute := relevant (rc_execute rc) (insert_before_execute p),
       insert_before_close := relevant (rc_close_complete rc) (insert_before_close p)\<rparr>"

definition total_insertions :: "insertion_plan \<Rightarrow> nat" where
  "total_insertions p = insertion_map_sum (insert_before_bind p)
     + insertion_map_sum (insert_before_param_desc p)
     + insertion_map_sum (insert_before_execute p) + insertion_map_sum (insert_before_close p)"

text \<open>
  The whole function on one chunk, for a batch \<open>ops\<close>, \<open>skipped\<close> telling whether the list of skipped
  Parse messages is not empty.
\<close>

definition reorder_parse_complete_responses ::
  "batch_operation list \<Rightarrow> bool \<Rightarrow> response_counts \<Rightarrow> bytes \<Rightarrow> (bytes \<times> response_counts) option" where
  "reorder_parse_complete_responses ops skipped rc response =
     (if ops = [] \<or> \<not> skipped then Some (response, rc)
      else (let plan = relevant_plan rc (plan_batch ops); tot = total_insertions plan
            in if tot + pending_insertions plan = 0
               then Some (response, add_counts rc (count_messages response no_responses))
               else map_option (\<lambda>(r, st). (r, add_counts rc (ro_counts st)))
                      (reorder_messages plan tot response
                         \<lparr>ro_counts = no_responses, ro_inserted = 0, ro_in_execute = False\<rparr>)))"

text \<open>The chunks of one response, in order.\<close>

fun reorder_chunks ::
  "batch_operation list \<Rightarrow> bool \<Rightarrow> response_counts \<Rightarrow> bytes list \<Rightarrow> bytes option" where
  "reorder_chunks ops skipped rc [] = Some []"
| "reorder_chunks ops skipped rc (c # cs) =
     Option.bind (reorder_parse_complete_responses ops skipped rc c) (\<lambda>(r, rc').
       map_option (\<lambda>rs. r @ rs) (reorder_chunks ops skipped rc' cs))"

section \<open>The plan of a batch\<close>

text \<open>
  The reference: for each kind of operation that a ParseComplete can be put before, the number of
  skipped Parse messages immediately pending at every such operation.
\<close>

datatype target = TBind | TDesc | TExec | TClose

primrec target_of :: "batch_operation \<Rightarrow> target option" where
  "target_of (ParseSkipped name) = None"
| "target_of (ParseSent name) = None"
| "target_of (DescribeOp name) = Some TDesc"
| "target_of DescribePortal = None"
| "target_of (BindOp name) = Some TBind"
| "target_of Execute = Some TExec"
| "target_of CloseOp = Some TClose"

definition is_skipped :: "batch_operation \<Rightarrow> bool" where
  "is_skipped opn = (case opn of ParseSkipped _ \<Rightarrow> True | _ \<Rightarrow> False)"

fun counts_of :: "target \<Rightarrow> nat \<Rightarrow> batch_operation list \<Rightarrow> nat list" where
  "counts_of t k [] = []"
| "counts_of t k (opn # ops) =
     (if is_skipped opn then counts_of t (k + 1) ops
      else if target_of opn = None then counts_of t k ops
      else if target_of opn = Some t then k # counts_of t 0 ops
      else counts_of t 0 ops)"

fun pending_of :: "nat \<Rightarrow> batch_operation list \<Rightarrow> nat" where
  "pending_of k [] = k"
| "pending_of k (opn # ops) =
     (if is_skipped opn then pending_of (k + 1) ops
      else if target_of opn = None then pending_of k ops else pending_of 0 ops)"

definition plan_map :: "target \<Rightarrow> insertion_plan \<Rightarrow> insertion_map" where
  "plan_map t p = (case t of TBind \<Rightarrow> insert_before_bind p | TDesc \<Rightarrow> insert_before_param_desc p
     | TExec \<Rightarrow> insert_before_execute p | TClose \<Rightarrow> insert_before_close p)"

definition plan_index :: "target \<Rightarrow> insertion_plan \<Rightarrow> nat" where
  "plan_index t p = (case t of TBind \<Rightarrow> bind_index p | TDesc \<Rightarrow> describe_index p
     | TExec \<Rightarrow> execute_index p | TClose \<Rightarrow> close_index p)"

definition rc_at :: "target \<Rightarrow> response_counts \<Rightarrow> nat" where
  "rc_at t rc = (case t of TBind \<Rightarrow> rc_bind_complete rc | TDesc \<Rightarrow> rc_param_desc rc
     | TExec \<Rightarrow> rc_execute rc | TClose \<Rightarrow> rc_close_complete rc)"

definition positive_entries :: "nat \<Rightarrow> nat list \<Rightarrow> insertion_map" where
  "positive_entries n cs = filter (\<lambda>e. 0 < snd e) (enumerate n cs)"

lemma positive_entries_simps [simp]:
  "positive_entries n [] = []"
  "positive_entries n (c # cs) = (if 0 < c then [(n, c)] else []) @ positive_entries (Suc n) cs"
  by (simp_all add: positive_entries_def)

lemma insertion_map_add_fresh:
  "\<forall>e \<in> set m. fst e < i \<Longrightarrow> insertion_map_add m i c = m @ [(i, c)]"
  by (induction m i c rule: insertion_map_add.induct) auto

lemma note_pending_eq:
  "\<forall>e \<in> set m. fst e < i \<Longrightarrow> note_pending m i k = m @ (if 0 < k then [(i, k)] else [])"
  by (simp add: note_pending_def insertion_map_add_fresh)

definition plan_ordered :: "insertion_plan \<Rightarrow> bool" where
  "plan_ordered p \<longleftrightarrow> (\<forall>t. \<forall>e \<in> set (plan_map t p). fst e < plan_index t p)"

lemma plan_operation_step:
  assumes "plan_ordered p"
  shows "plan_map t (plan_operation opn p) = plan_map t p
      @ (if target_of opn = Some t \<and> 0 < pending_insertions p
         then [(plan_index t p, pending_insertions p)] else [])"
    and "plan_index t (plan_operation opn p) = plan_index t p + (if target_of opn = Some t then 1 else 0)"
    and "pending_insertions (plan_operation opn p) =
      (if is_skipped opn then pending_insertions p + 1
       else if target_of opn = None then pending_insertions p else 0)"
proof -
  have "note_pending (plan_map t p) (plan_index t p) k
      = plan_map t p @ (if 0 < k then [(plan_index t p, k)] else [])" for t k
    using assms by (intro note_pending_eq) (simp add: plan_ordered_def)
  from this [of TBind] this [of TDesc] this [of TExec] this [of TClose]
  show "plan_map t (plan_operation opn p) = plan_map t p
      @ (if target_of opn = Some t \<and> 0 < pending_insertions p
         then [(plan_index t p, pending_insertions p)] else [])"
    by (cases opn; cases t) (simp_all add: plan_map_def plan_index_def)
  show "plan_index t (plan_operation opn p) = plan_index t p + (if target_of opn = Some t then 1 else 0)"
    by (cases opn; cases t) (simp_all add: plan_index_def)
  show "pending_insertions (plan_operation opn p) =
      (if is_skipped opn then pending_insertions p + 1
       else if target_of opn = None then pending_insertions p else 0)"
    by (cases opn) (simp_all add: is_skipped_def)
qed

lemma plan_ordered_step: "plan_ordered p \<Longrightarrow> plan_ordered (plan_operation opn p)"
  by (auto simp: plan_ordered_def [of "plan_operation opn p"] plan_operation_step)
    (fastforce simp: plan_ordered_def less_Suc_eq)+

lemma plan_fold:
  assumes "plan_ordered p"
  shows "plan_map t (fold plan_operation ops p)
      = plan_map t p @ positive_entries (plan_index t p) (counts_of t (pending_insertions p) ops)
    \<and> pending_insertions (fold plan_operation ops p) = pending_of (pending_insertions p) ops"
  using assms
proof (induction ops arbitrary: p)
  case (Cons opn ops)
  have "target_of opn = None" if "is_skipped opn"
    using that by (cases opn) (simp_all add: is_skipped_def)
  then show ?case
    using Cons.IH [OF plan_ordered_step [OF Cons.prems], of opn] plan_operation_step [OF Cons.prems]
    by auto
qed simp

lemma plan_batch_eq:
  "plan_map t (plan_batch ops) = positive_entries 0 (counts_of t 0 ops)"
  "pending_insertions (plan_batch ops) = pending_of 0 ops"
proof -
  have start: "plan_ordered empty_plan" "plan_map t empty_plan = []" "plan_index t empty_plan = 0"
    "pending_insertions empty_plan = 0" for t
    by (auto simp: plan_ordered_def plan_map_def plan_index_def empty_plan_def split: target.splits)
  show "plan_map t (plan_batch ops) = positive_entries 0 (counts_of t 0 ops)"
    "pending_insertions (plan_batch ops) = pending_of 0 ops"
    using plan_fold [OF start(1), of t ops] by (simp_all add: plan_batch_def start)
qed

definition pick :: "nat list \<Rightarrow> nat \<Rightarrow> nat" where
  "pick cs i = (if i < length cs then cs ! i else 0)"

lemma pick_drop [simp]: "pick (drop n cs) i = pick cs (n + i)"
  by (auto simp: pick_def)

lemma sum_list_drop: "sum_list (drop n cs) = pick cs n + sum_list (drop (Suc n) cs)"
  by (cases "n < length cs") (simp_all add: pick_def Cons_nth_drop_Suc [symmetric])

lemma planned_entries: "planned (positive_entries n cs) i = (if n \<le> i then pick cs (i - n) else 0)"
proof (induction cs arbitrary: n)
  case (Cons c cs)
  then show ?case
    by (cases "i = n") (auto simp: planned_def pick_def nth_Cons' Suc_diff_Suc less_diff_conv2)
qed (simp add: planned_def pick_def)

lemma sum_entries: "insertion_map_sum (positive_entries n cs) = sum_list cs"
  by (induction cs arbitrary: n) (auto simp: insertion_map_sum_def)

lemma relevant_append: "relevant k (xs @ ys) = relevant k xs @ relevant k ys"
  by (simp add: relevant_def)

lemma relevant_entries_ge:
  "k \<le> n \<Longrightarrow> relevant k (positive_entries n cs) = positive_entries (n - k) cs"
  by (induction cs arbitrary: n) (auto simp: relevant_append Suc_diff_le, auto simp: relevant_def)

lemma relevant_entries:
  "relevant (n + k) (positive_entries n cs) = positive_entries 0 (drop k cs)"
proof (induction cs arbitrary: n k)
  case (Cons c cs)
  show ?case
  proof (cases k)
    case 0
    then show ?thesis using relevant_entries_ge [of n n "c # cs"] by simp
  next
    case (Suc j)
    then show ?thesis using Cons.IH [of "Suc n" j] by (simp add: relevant_append, simp add: relevant_def)
  qed
qed (simp add: relevant_def)

lemma relevant_batch:
  "plan_map t (relevant_plan rc (plan_batch ops)) = positive_entries 0 (drop (rc_at t rc) (counts_of t 0 ops))"
  "pending_insertions (relevant_plan rc (plan_batch ops)) = pending_of 0 ops"
proof -
  have "plan_map t (relevant_plan rc p) = relevant (rc_at t rc) (plan_map t p)" for p
    by (cases t) (simp_all add: plan_map_def relevant_plan_def rc_at_def)
  then show "plan_map t (relevant_plan rc (plan_batch ops))
      = positive_entries 0 (drop (rc_at t rc) (counts_of t 0 ops))"
    using relevant_entries [of 0] by (simp add: plan_batch_eq)
  show "pending_insertions (relevant_plan rc (plan_batch ops)) = pending_of 0 ops"
    by (simp add: relevant_plan_def plan_batch_eq)
qed

section \<open>The pass over messages\<close>

text \<open>
  The pass on the level of messages, with the counters since the start of the batch. \<open>C t\<close> are the
  insertions planned for the operations of kind \<open>t\<close>.
\<close>

definition bump :: "u8 \<Rightarrow> response_counts \<Rightarrow> response_counts" where
  "bump t rc =
     (if t = code (CHR ''2'') then rc\<lparr>rc_bind_complete := rc_bind_complete rc + 1\<rparr>
      else if t = code (CHR ''t'') then rc\<lparr>rc_param_desc := rc_param_desc rc + 1\<rparr>
      else if t = code (CHR ''C'') then rc\<lparr>rc_execute := rc_execute rc + 1\<rparr>
      else if t = code (CHR ''3'') then rc\<lparr>rc_close_complete := rc_close_complete rc + 1\<rparr>
      else rc)"

definition bumps :: "frame list \<Rightarrow> response_counts \<Rightarrow> response_counts" where
  "bumps fs = fold (\<lambda>f. bump (fst f)) fs"

definition remaining :: "(target \<Rightarrow> nat list) \<Rightarrow> response_counts \<Rightarrow> nat" where
  "remaining C rc = sum_list (drop (rc_bind_complete rc) (C TBind))
     + sum_list (drop (rc_param_desc rc) (C TDesc)) + sum_list (drop (rc_close_complete rc) (C TClose))"

definition due :: "(target \<Rightarrow> nat list) \<Rightarrow> nat \<Rightarrow> u8 \<Rightarrow> response_counts \<Rightarrow> nat" where
  "due C pend t rc =
     (if t = code (CHR ''2'') then pick (C TBind) (rc_bind_complete rc)
      else if t = code (CHR ''t'') then pick (C TDesc) (rc_param_desc rc)
      else if t = code (CHR ''3'') then pick (C TClose) (rc_close_complete rc)
      else if t = code (CHR ''Z'') then remaining C rc + pend
      else 0)"

abbreviation parse_complete_frame_msg :: frame where
  "parse_complete_frame_msg \<equiv> (code (CHR ''1''), [])"

fun walk :: "(target \<Rightarrow> nat list) \<Rightarrow> nat \<Rightarrow> response_counts \<Rightarrow> frame list \<Rightarrow> frame list" where
  "walk C pend rc [] = []"
| "walk C pend rc (f # fs) = replicate (due C pend (fst f) rc) parse_complete_frame_msg
     @ f # walk C pend (bump (fst f) rc) fs"

definition ordinary :: "frame \<Rightarrow> bool" where
  "ordinary f \<longleftrightarrow> frame_ok f \<and> fst f \<noteq> code (CHR ''E'') \<and> fst f \<noteq> code (CHR ''Z'')"

lemma walk_append: "walk C pend rc (fs @ gs) = walk C pend rc fs @ walk C pend (bumps fs rc) gs"
  by (induction fs arbitrary: rc) (simp_all add: bumps_def)

lemma bumps_append [simp]: "bumps (fs @ gs) rc = bumps gs (bumps fs rc)"
  by (simp add: bumps_def)

lemma bumps_simps [simp]: "bumps [] rc = rc" "bumps (f # fs) rc = bumps fs (bump (fst f) rc)"
  by (simp_all add: bumps_def)

lemma remaining_bump:
  "t \<noteq> code (CHR ''Z'') \<Longrightarrow> remaining C rc = due C pend t rc + remaining C (bump t rc)"
  by (auto simp: remaining_def due_def bump_def sum_list_drop [of "rc_bind_complete rc"]
      sum_list_drop [of "rc_param_desc rc"] sum_list_drop [of "rc_close_complete rc"])

lemma walk_nothing_left:
  "remaining C rc = 0 \<Longrightarrow> walk C 0 rc fs = fs \<and> remaining C (bumps fs rc) = 0"
proof (induction fs arbitrary: rc)
  case (Cons f fs)
  have "due C 0 (fst f) rc = 0 \<and> remaining C (bump (fst f) rc) = 0"
  proof (cases "fst f = code (CHR ''Z'')")
    case True
    then show ?thesis using Cons.prems by (simp add: due_def bump_def)
  next
    case False
    then show ?thesis using remaining_bump [of "fst f" C rc 0] Cons.prems by simp
  qed
  then show ?case using Cons.IH [of "bump (fst f) rc"] by simp
qed simp

lemma message_len_frame: "frame_ok f \<Longrightarrow> message_len (frame_bytes f @ r) = length (snd f) + 4"
  by (simp add: message_len_def frame_len_frame frame_ok_def unat_of_nat take_bit_nat_eq_self
      del: of_nat_add)

lemma bump_add: "bump t (add_counts a b) = add_counts a (bump t b)"
  by (simp add: bump_def add_counts_def)

lemma count_messages_frames:
  "\<forall>f \<in> set fs. frame_ok f \<Longrightarrow> count_messages (frames fs) rc = bumps fs rc"
proof (induction fs arbitrary: rc)
  case Nil
  then show ?case by (subst count_messages.simps) simp
next
  case (Cons f fs)
  then have "drop (1 + message_len (frame_bytes f @ frames fs)) (frame_bytes f @ frames fs) = frames fs"
    by (simp add: message_len_frame)
  then show ?case
    using Cons by (subst count_messages.simps) (simp add: bump_def Let_def)
qed

lemma bumps_add: "bumps fs (add_counts a b) = add_counts a (bumps fs b)"
  by (induction fs arbitrary: b) (simp_all add: bump_add)

text \<open>The state of the pass and the counters since the start of the batch.\<close>

definition counted :: "response_counts \<Rightarrow> reorder_state \<Rightarrow> response_counts" where
  "counted rc0 st = add_counts rc0 (ro_counts st)"

definition balanced :: "(target \<Rightarrow> nat list) \<Rightarrow> nat \<Rightarrow> response_counts \<Rightarrow> reorder_state \<Rightarrow> bool" where
  "balanced C tot rc0 st \<longleftrightarrow> ro_inserted st + remaining C (counted rc0 st) = tot"

abbreviation batch_counts :: "batch_operation list \<Rightarrow> target \<Rightarrow> nat list" where
  "batch_counts ops \<equiv> \<lambda>t. counts_of t 0 ops"

abbreviation chunk_plan :: "batch_operation list \<Rightarrow> response_counts \<Rightarrow> insertion_plan" where
  "chunk_plan ops rc \<equiv> relevant_plan rc (plan_batch ops)"

definition none_before_execute :: "batch_operation list \<Rightarrow> bool" where
  "none_before_execute ops \<longleftrightarrow> (\<forall>c \<in> set (counts_of TExec 0 ops). c = 0)"

lemma before_message_due:
  assumes noexec: "none_before_execute ops" and bal: "balanced (batch_counts ops) tot rc0 st"
    and t: "t \<noteq> code (CHR ''E'')" "t \<noteq> code (CHR ''Z'')"
  obtains st' where
    "before_message (chunk_plan ops rc0) tot t st
       = Some (due (batch_counts ops) pend t (counted rc0 st), st')"
    and "counted rc0 st' = bump t (counted rc0 st)"
    and "balanced (batch_counts ops) tot rc0 st'"
proof -
  define plan where "plan = chunk_plan ops rc0"
  have maps: "insert_before_bind plan = positive_entries 0 (drop (rc_bind_complete rc0) (counts_of TBind 0 ops))"
    "insert_before_param_desc plan = positive_entries 0 (drop (rc_param_desc rc0) (counts_of TDesc 0 ops))"
    "insert_before_close plan = positive_entries 0 (drop (rc_close_complete rc0) (counts_of TClose 0 ops))"
    "insert_before_execute plan = positive_entries 0 (drop (rc_execute rc0) (counts_of TExec 0 ops))"
    using relevant_batch(1) [of TBind rc0 ops] relevant_batch(1) [of TDesc rc0 ops]
      relevant_batch(1) [of TClose rc0 ops] relevant_batch(1) [of TExec rc0 ops]
    by (simp_all add: plan_def plan_map_def rc_at_def)
  have exec: "planned (insert_before_execute plan) i = 0" for i
    using noexec by (auto simp: maps planned_entries pick_def none_before_execute_def)
  let ?n = "due (batch_counts ops) pend t (counted rc0 st)"
  have "\<exists>st'. before_message plan tot t st = Some (?n, st')
      \<and> ro_counts st' = bump t (ro_counts st) \<and> ro_inserted st' = ro_inserted st + ?n"
    using t exec
    by (cases "t = code (CHR ''2'')"; cases "t = code (CHR ''t'')"; cases "t = code (CHR ''3'')";
        cases "t = code (CHR ''C'')"; cases "t = code (CHR ''D'') \<or> t = code (CHR ''n'') \<or> t = code (CHR ''T'')")
      (auto simp: before_message_def Let_def due_def bump_def counted_def add_counts_def maps
        planned_entries)
  then obtain st' where st': "before_message plan tot t st = Some (?n, st')"
    "ro_counts st' = bump t (ro_counts st)" "ro_inserted st' = ro_inserted st + ?n"
    by blast
  then have "counted rc0 st' = bump t (counted rc0 st)"
    by (simp add: counted_def bump_add)
  moreover from this have "balanced (batch_counts ops) tot rc0 st'"
    using bal st'(3) remaining_bump [OF t(2), of "batch_counts ops" "counted rc0 st" pend]
    by (simp add: balanced_def)
  ultimately show thesis using st'(1) that unfolding plan_def by blast
qed

lemma reorder_messages_frame:
  assumes "frame_ok f"
  shows "reorder_messages plan tot (frame_bytes f @ r) st =
    (case before_message plan tot (fst f) st of
       None \<Rightarrow> None
     | Some (n, st') \<Rightarrow>
         map_option (\<lambda>(s, st''). (frames (replicate n parse_complete_frame_msg @ [f]) @ s, st''))
           (reorder_messages plan tot r st'))"
proof -
  have "concat (replicate n parse_complete) = frames (replicate n parse_complete_frame_msg)" for n
    by (induction n) (simp_all add: parse_complete_frame)
  moreover have "take (1 + message_len (frame_bytes f @ r)) (frame_bytes f @ r) = frame_bytes f"
    "drop (1 + message_len (frame_bytes f @ r)) (frame_bytes f @ r) = r"
    using assms by (simp_all add: message_len_frame)
  ultimately show ?thesis
    using assms by (subst reorder_messages.simps) (auto simp: message_len_frame split: option.split)
qed

lemma reorder_messages_nil [simp]: "reorder_messages plan tot [] st = Some ([], st)"
  by (subst reorder_messages.simps) simp

lemma reorder_ordinary:
  assumes "none_before_execute ops" and "\<forall>f \<in> set fs. ordinary f"
    and "balanced (batch_counts ops) tot rc0 st"
  shows "\<exists>st'. reorder_messages (chunk_plan ops rc0) tot (frames fs @ r) st
      = map_option (\<lambda>(s, st''). (frames (walk (batch_counts ops) pend (counted rc0 st) fs) @ s, st''))
          (reorder_messages (chunk_plan ops rc0) tot r st')
    \<and> counted rc0 st' = bumps fs (counted rc0 st) \<and> balanced (batch_counts ops) tot rc0 st'"
  using assms(2,3)
proof (induction fs arbitrary: st)
  case Nil
  then show ?case by (auto simp: map_option.id [unfolded id_def] intro!: exI [of _ st])
next
  case (Cons f fs)
  have f: "frame_ok f" "fst f \<noteq> code (CHR ''E'')" "fst f \<noteq> code (CHR ''Z'')"
    using Cons.prems(1) by (simp_all add: ordinary_def)
  obtain st1 where st1: "before_message (chunk_plan ops rc0) tot (fst f) st
      = Some (due (batch_counts ops) pend (fst f) (counted rc0 st), st1)"
    "counted rc0 st1 = bump (fst f) (counted rc0 st)" "balanced (batch_counts ops) tot rc0 st1"
    using before_message_due [OF assms(1) Cons.prems(2) f(2,3)] by blast
  obtain st' where "reorder_messages (chunk_plan ops rc0) tot (frames fs @ r) st1
      = map_option (\<lambda>(s, st''). (frames (walk (batch_counts ops) pend (counted rc0 st1) fs) @ s, st''))
          (reorder_messages (chunk_plan ops rc0) tot r st')"
    and "counted rc0 st' = bumps fs (counted rc0 st1)" "balanced (batch_counts ops) tot rc0 st'"
    using Cons.IH [OF _ st1(3)] Cons.prems(1) by auto
  then show ?case
    using reorder_messages_frame [OF f(1), of "chunk_plan ops rc0" tot "frames fs @ r" st] st1
    by (auto simp: option.map_comp comp_def split_beta intro!: exI [of _ st'])
qed

lemma reorder_ready:
  assumes "balanced (batch_counts ops) tot rc0 st" and "frame_ok z" and "fst z = code (CHR ''Z'')"
  shows "\<exists>st'. reorder_messages (chunk_plan ops rc0) tot (frame_bytes z) st
      = Some (frames (walk (batch_counts ops) (pending_of 0 ops) (counted rc0 st) [z]), st')"
proof -
  have "before_message (chunk_plan ops rc0) tot (fst z) st
      = Some (remaining (batch_counts ops) (counted rc0 st) + pending_of 0 ops,
          st\<lparr>ro_inserted := ro_inserted st + (remaining (batch_counts ops) (counted rc0 st) + pending_of 0 ops)\<rparr>)"
    using assms(1,3) by (simp add: before_message_def Let_def balanced_def relevant_batch(2))
  then show ?thesis
    using assms(3) reorder_messages_frame [OF assms(2), of "chunk_plan ops rc0" tot "[]" st]
    by (simp add: due_def)
qed

lemma total_remaining:
  "none_before_execute ops \<Longrightarrow> total_insertions (chunk_plan ops rc) = remaining (batch_counts ops) rc"
proof -
  assume "none_before_execute ops"
  then have "sum_list (drop (rc_execute rc) (counts_of TExec 0 ops)) = 0"
    by (auto simp: none_before_execute_def dest: in_set_dropD)
  then show ?thesis
    using relevant_batch(1) [of TBind rc ops] relevant_batch(1) [of TDesc rc ops]
      relevant_batch(1) [of TClose rc ops] relevant_batch(1) [of TExec rc ops]
    by (simp add: total_insertions_def plan_map_def remaining_def rc_at_def sum_entries)
qed

text \<open>A whole chunk.\<close>

lemma add_no_responses [simp]: "add_counts rc no_responses = rc"
  by (simp add: add_counts_def no_responses_def)

lemma reorder_chunk:
  assumes "none_before_execute ops" and "ops \<noteq> []" and fs: "\<forall>f \<in> set fs. ordinary f"
  shows "reorder_parse_complete_responses ops True rc (frames fs)
      = Some (frames (walk (batch_counts ops) (pending_of 0 ops) rc fs), bumps fs rc)"
proof -
  let ?tot = "total_insertions (chunk_plan ops rc)"
  let ?st = "\<lparr>ro_counts = no_responses, ro_inserted = 0, ro_in_execute = False\<rparr>"
  have ok: "\<forall>f \<in> set fs. frame_ok f"
    using fs by (simp add: ordinary_def)
  have "balanced (batch_counts ops) ?tot rc ?st"
    using total_remaining [OF assms(1)] by (simp add: balanced_def counted_def)
  then obtain st' where
    "reorder_messages (chunk_plan ops rc) ?tot (frames fs @ []) ?st
       = Some (frames (walk (batch_counts ops) (pending_of 0 ops) rc fs) @ [], st')"
    and "counted rc st' = bumps fs rc"
    using reorder_ordinary [OF assms(1) fs, of ?tot rc ?st "[]" "pending_of 0 ops"]
    by (auto simp: counted_def)
  moreover have "add_counts rc (count_messages (frames fs) no_responses) = bumps fs rc"
    using bumps_add [of fs rc no_responses] by (simp add: count_messages_frames [OF ok])
  moreover have "walk (batch_counts ops) (pending_of 0 ops) rc fs = fs"
    if "?tot + pending_of 0 ops = 0"
    using that walk_nothing_left [of "batch_counts ops" rc fs] total_remaining [OF assms(1)] by simp
  ultimately show ?thesis
    using assms(2)
    by (auto simp: reorder_parse_complete_responses_def Let_def relevant_batch(2) counted_def)
qed

lemma reorder_last_chunk:
  assumes "none_before_execute ops" and "ops \<noteq> []" and fs: "\<forall>f \<in> set fs. ordinary f"
    and z: "frame_ok z" "fst z = code (CHR ''Z'')"
  shows "\<exists>rc'. reorder_parse_complete_responses ops True rc (frames (fs @ [z]))
      = Some (frames (walk (batch_counts ops) (pending_of 0 ops) rc (fs @ [z])), rc')"
proof -
  let ?tot = "total_insertions (chunk_plan ops rc)"
  let ?st = "\<lparr>ro_counts = no_responses, ro_inserted = 0, ro_in_execute = False\<rparr>"
  have "balanced (batch_counts ops) ?tot rc ?st"
    using total_remaining [OF assms(1)] by (simp add: balanced_def counted_def)
  then obtain st' where
    st': "reorder_messages (chunk_plan ops rc) ?tot (frames fs @ frame_bytes z) ?st
       = map_option (\<lambda>(s, st''). (frames (walk (batch_counts ops) (pending_of 0 ops) rc fs) @ s, st''))
           (reorder_messages (chunk_plan ops rc) ?tot (frame_bytes z) st')"
    "counted rc st' = bumps fs rc" "balanced (batch_counts ops) ?tot rc st'"
    using reorder_ordinary [OF assms(1) fs, of ?tot rc ?st "frame_bytes z" "pending_of 0 ops"]
    by (auto simp: counted_def)
  obtain st'' where "reorder_messages (chunk_plan ops rc) ?tot (frame_bytes z) st'
      = Some (frames (walk (batch_counts ops) (pending_of 0 ops) (bumps fs rc) [z]), st'')"
    using reorder_ready [OF st'(3) z] st'(2) by auto
  moreover have "frames (fs @ [z]) = frames (walk (batch_counts ops) (pending_of 0 ops) rc (fs @ [z]))"
    if "?tot + pending_of 0 ops = 0"
    using that walk_nothing_left [of "batch_counts ops" rc "fs @ [z]"] total_remaining [OF assms(1)] by simp
  ultimately show ?thesis
    using assms(2) st'(1)
    by (auto simp: reorder_parse_complete_responses_def Let_def relevant_batch(2) walk_append
        simp del: walk.simps)
qed

lemma reorder_chunks_walk:
  assumes "none_before_execute ops" and "ops \<noteq> []"
    and "\<forall>fs \<in> set chunks. \<forall>f \<in> set fs. ordinary f" and "\<forall>f \<in> set fs. ordinary f"
    and "frame_ok z" "fst z = code (CHR ''Z'')"
  shows "reorder_chunks ops True rc (map frames chunks @ [frames (fs @ [z])])
    = Some (frames (walk (batch_counts ops) (pending_of 0 ops) rc (concat chunks @ fs @ [z])))"
  using assms(3)
proof (induction chunks arbitrary: rc)
  case Nil
  then show ?case
    using reorder_last_chunk [OF assms(1,2,4-6), of rc] by auto
next
  case (Cons c chunks)
  have "reorder_parse_complete_responses ops True rc (frames c)
      = Some (frames (walk (batch_counts ops) (pending_of 0 ops) rc c), bumps c rc)"
    using Cons.prems by (intro reorder_chunk assms(1,2)) simp
  then show ?case
    using Cons by (simp add: walk_append del: walk.simps)
qed

section \<open>The responses of a server\<close>

text \<open>
  What a PostgreSQL server answers to each operation of a batch when none of them fails: one
  ParseComplete, BindComplete or CloseComplete, a description, or the rows and the completion of an
  Execute, which may be mixed with notices, notifications and copy data.
\<close>

fun answers :: "batch_operation \<Rightarrow> frame list \<Rightarrow> bool" where
  "answers (ParseSkipped name) fs \<longleftrightarrow> fs = []"
| "answers (ParseSent name) fs \<longleftrightarrow> fs = [parse_complete_frame_msg]"
| "answers (DescribeOp name) fs \<longleftrightarrow>
     (case fs of [f, g] \<Rightarrow> fst f = code (CHR ''t'') \<and> (fst g = code (CHR ''T'') \<or> fst g = code (CHR ''n''))
      | _ \<Rightarrow> False)"
| "answers DescribePortal fs \<longleftrightarrow>
     (case fs of [f] \<Rightarrow> fst f = code (CHR ''T'') \<or> fst f = code (CHR ''n'') | _ \<Rightarrow> False)"
| "answers (BindOp name) fs \<longleftrightarrow> fs = [(code (CHR ''2''), [])]"
| "answers Execute fs \<longleftrightarrow>
     list_all (\<lambda>f. fst f \<notin> code ` {CHR ''1'', CHR ''2'', CHR ''3'', CHR ''t'', CHR ''E'', CHR ''Z''}) fs"
| "answers CloseOp fs \<longleftrightarrow> fs = [(code (CHR ''3''), [])]"

text \<open>A batch with its answers; what the server sends, and what the client is owed.\<close>

definition served :: "(batch_operation \<times> frame list) list \<Rightarrow> bool" where
  "served b \<longleftrightarrow> list_all (\<lambda>(opn, fs). answers opn fs \<and> list_all frame_ok fs) b"

definition server_frames :: "(batch_operation \<times> frame list) list \<Rightarrow> frame list" where
  "server_frames b = concat (map snd b)"

definition client_frames :: "(batch_operation \<times> frame list) list \<Rightarrow> frame list" where
  "client_frames b = concat (map (\<lambda>(opn, fs). if is_skipped opn then [parse_complete_frame_msg] else fs) b)"

text \<open>
  Batches in which no skipped Parse is still pending at an Execute or at the description of a portal,
  that is, each one is followed by a Bind, a Describe or a Close of a statement, or by nothing.
\<close>

fun placeable :: "nat \<Rightarrow> batch_operation list \<Rightarrow> bool" where
  "placeable k [] = True"
| "placeable k (opn # ops) =
     (if is_skipped opn then placeable (k + 1) ops
      else case opn of
        ParseSent _ \<Rightarrow> placeable k ops
      | DescribePortal \<Rightarrow> k = 0 \<and> placeable 0 ops
      | Execute \<Rightarrow> k = 0 \<and> placeable 0 ops
      | _ \<Rightarrow> placeable 0 ops)"

lemma placeable_none_before_execute:
  "placeable k ops \<Longrightarrow> \<forall>c \<in> set (counts_of TExec k ops). c = 0"
  by (induction k ops rule: placeable.induct) (auto simp: is_skipped_def split: batch_operation.splits if_splits)

text \<open>Messages that neither consume nor trigger insertions.\<close>

definition neutral :: "frame \<Rightarrow> bool" where
  "neutral f \<longleftrightarrow> fst f \<notin> code ` {CHR ''2'', CHR ''3'', CHR ''t'', CHR ''Z''}"

definition same_place :: "response_counts \<Rightarrow> response_counts \<Rightarrow> bool" where
  "same_place a b \<longleftrightarrow> rc_bind_complete a = rc_bind_complete b \<and> rc_param_desc a = rc_param_desc b
     \<and> rc_close_complete a = rc_close_complete b"

lemma walk_neutral:
  "\<forall>f \<in> set fs. neutral f \<Longrightarrow> walk C pend rc (fs @ gs) = fs @ walk C pend (bumps fs rc) gs
     \<and> same_place (bumps fs rc) rc"
  by (induction fs arbitrary: rc) (auto simp: neutral_def due_def bump_def same_place_def split: if_splits)

definition ahead :: "(target \<Rightarrow> nat list) \<Rightarrow> response_counts \<Rightarrow> nat \<Rightarrow> batch_operation list \<Rightarrow> bool" where
  "ahead C rc k ops \<longleftrightarrow> drop (rc_bind_complete rc) (C TBind) = counts_of TBind k ops
     \<and> drop (rc_param_desc rc) (C TDesc) = counts_of TDesc k ops
     \<and> drop (rc_close_complete rc) (C TClose) = counts_of TClose k ops"

lemma ahead_same_place: "ahead C rc k ops \<Longrightarrow> same_place rc' rc \<Longrightarrow> ahead C rc' k ops"
  by (simp add: ahead_def same_place_def)

lemma drop_ConsD: "drop n cs = x # xs \<Longrightarrow> pick cs n = x \<and> drop (Suc n) cs = xs"
  by (metis drop_Suc list.sel(3) pick_def nth_via_drop drop_eq_Nil list.distinct(1) not_less tl_drop)

lemma walk_served:
  assumes "served b" and "placeable k (map fst b)" and "ahead C rc k (map fst b)"
    and "pend = pending_of k (map fst b)" and z: "fst z = code (CHR ''Z'')"
  shows "walk C pend rc (server_frames b @ [z])
    = replicate k parse_complete_frame_msg @ client_frames b @ [z]"
  using assms(1-4)
proof (induction b arbitrary: k rc)
  case Nil
  then show ?case
    using z by (simp add: server_frames_def client_frames_def due_def remaining_def ahead_def)
next
  case (Cons x b)
  obtain opn fs where x: "x = (opn, fs)" by fastforce
  have served: "served b" "answers opn fs"
    using Cons.prems(1) by (simp_all add: served_def x)
  have frames_Cons: "server_frames ((opn, fs) # b) = fs @ server_frames b"
    "client_frames ((opn, fs) # b)
      = (if is_skipped opn then [parse_complete_frame_msg] else fs) @ client_frames b" for opn fs
    by (simp_all add: server_frames_def client_frames_def)
  note IH = Cons.IH [OF served(1)]
  have neutral: ?case if "\<forall>f \<in> set fs. neutral f" and "\<not> is_skipped opn"
    "placeable 0 (map fst b)" "ahead C rc 0 (map fst b)" "pend = pending_of 0 (map fst b)" "k = 0"
    using walk_neutral [OF that(1), of C pend rc "server_frames b @ [z]"] that
      IH [of 0 "bumps fs rc"] ahead_same_place by (auto simp: x frames_Cons)
  show ?case
  proof (cases opn)
    case (ParseSkipped name)
    then show ?thesis
      using served(2) IH [of "Suc k" rc] Cons.prems
      by (simp add: frames_Cons x is_skipped_def ahead_def replicate_app_Cons_same)
  next
    case (ParseSent name)
    then show ?thesis
      using served(2) IH [of k rc] Cons.prems
      by (simp add: frames_Cons x is_skipped_def ahead_def due_def bump_def replicate_app_Cons_same)
  next
    case (DescribeOp name)
    then obtain f g where fg: "fs = [f, g]" "fst f = code (CHR ''t'')" "fst g = code (CHR ''T'') \<or> fst g = code (CHR ''n'')"
      using served(2) by (auto split: list.splits)
    then show ?thesis
      using IH [of 0 "bump (code (CHR ''t'')) rc"] Cons.prems DescribeOp drop_ConsD [of "rc_param_desc rc" "C TDesc"]
      by (auto simp: frames_Cons x is_skipped_def ahead_def due_def bump_def)
  next
    case DescribePortal
    then show ?thesis
      using neutral Cons.prems served(2)
      by (auto simp: x is_skipped_def ahead_def neutral_def split: list.splits)
  next
    case (BindOp name)
    then show ?thesis
      using served(2) IH [of 0 "bump (code (CHR ''2'')) rc"] Cons.prems drop_ConsD [of "rc_bind_complete rc" "C TBind"]
      by (auto simp: frames_Cons x is_skipped_def ahead_def due_def bump_def)
  next
    case Execute
    then show ?thesis
      using neutral Cons.prems served(2)
      by (auto simp: x is_skipped_def ahead_def neutral_def list_all_iff)
  next
    case CloseOp
    then show ?thesis
      using served(2) IH [of 0 "bump (code (CHR ''3'')) rc"] Cons.prems drop_ConsD [of "rc_close_complete rc" "C TClose"]
      by (auto simp: frames_Cons x is_skipped_def ahead_def due_def bump_def)
  qed
qed

lemma server_frames_ordinary: "served b \<Longrightarrow> \<forall>f \<in> set (server_frames b). ordinary f"
proof -
  have "ordinary f" if "answers opn fs" "list_all frame_ok fs" "f \<in> set fs" for opn fs f
    using that by (cases opn) (auto simp: ordinary_def list_all_iff split: list.splits)
  then show "served b \<Longrightarrow> \<forall>f \<in> set (server_frames b). ordinary f"
    by (fastforce simp: served_def server_frames_def list_all_iff)
qed

lemma no_skipped_frames: "\<not> list_ex is_skipped (map fst b) \<Longrightarrow> client_frames b = server_frames b"
  by (induction b) (auto simp: client_frames_def server_frames_def)

lemma reorder_chunks_idle: "reorder_chunks ops False rc cs = Some (concat cs)"
  by (induction cs arbitrary: rc) (simp_all add: reorder_parse_complete_responses_def)

lemma frames_concat: "frames (concat css) = concat (map frames css)"
  by (induction css) simp_all

section \<open>Properties\<close>

text \<open>
  C7. The client sees the responses it is owed. For a batch that the server answers without an error, in
  which no skipped Parse is pending at an Execute or at the description of a portal, the chunks of the
  server's response, split anywhere between messages, are turned into the response to the whole batch:
  each skipped Parse has its ParseComplete at its place and nothing else changes.
\<close>

theorem reorder_parse_complete_correct:
  assumes "served b" and "placeable 0 (map fst b)"
    and "server_frames b = concat chunks @ fs" and "frame_ok z" and "fst z = code (CHR ''Z'')"
  shows "reorder_chunks (map fst b) (list_ex is_skipped (map fst b)) no_responses
      (map frames chunks @ [frames (fs @ [z])])
    = Some (frames (client_frames b @ [z]))"
proof (cases "list_ex is_skipped (map fst b)")
  case True
  have "none_before_execute (map fst b)"
    using placeable_none_before_execute [OF assms(2)] by (simp add: none_before_execute_def)
  moreover have "\<forall>fs \<in> set chunks. \<forall>f \<in> set fs. ordinary f" "\<forall>f \<in> set fs. ordinary f"
    using server_frames_ordinary [OF assms(1)] by (auto simp: assms(3))
  moreover have "map fst b \<noteq> []"
    using True by auto
  ultimately have "reorder_chunks (map fst b) True no_responses (map frames chunks @ [frames (fs @ [z])])
    = Some (frames (walk (batch_counts (map fst b)) (pending_of 0 (map fst b)) no_responses
        (server_frames b @ [z])))"
    using reorder_chunks_walk assms(3-5) by simp
  moreover have "ahead (batch_counts (map fst b)) no_responses 0 (map fst b)"
    by (simp add: ahead_def no_responses_def)
  ultimately show ?thesis
    using walk_served [OF assms(1,2) _ refl assms(5)] True by simp
next
  case False
  then show ?thesis
    using assms(3) by (simp add: reorder_chunks_idle no_skipped_frames frames_concat)
qed


section \<open>Witnesses\<close>

definition example_batch :: "(batch_operation \<times> frame list) list" where
  "example_batch =
     [(ParseSent [97], [(code (CHR ''1''), [])]), (BindOp [97], [(code (CHR ''2''), [])]),
      (Execute, [(code (CHR ''D''), [0, 0]), (code (CHR ''C''), ascii ''SELECT 1'')]),
      (ParseSkipped [98], []), (DescribeOp [98], [(code (CHR ''t''), [0, 0]), (code (CHR ''n''), [])]),
      (BindOp [98], [(code (CHR ''2''), [])]), (Execute, [(code (CHR ''C''), ascii ''UPDATE 3'')]),
      (ParseSkipped [99], [])]"

theorem reorder_parse_complete_correct_witness:
  "reorder_chunks (map fst example_batch) True no_responses
     (map frames [take 3 (server_frames example_batch), take 2 (drop 3 (server_frames example_batch))]
        @ [frames (drop 5 (server_frames example_batch) @ [(code (CHR ''Z''), [code (CHR ''I'')])])])
   = Some (frames (client_frames example_batch @ [(code (CHR ''Z''), [code (CHR ''I'')])]))
   \<and> map fst (client_frames example_batch) = map code ''12DC1tn2C1''"
proof -
  have b: "served example_batch" "placeable 0 (map fst example_batch)"
    by (simp_all add: served_def example_batch_def frame_ok_def is_skipped_def)
  have chunks: "server_frames example_batch = concat [take 3 (server_frames example_batch),
      take 2 (drop 3 (server_frames example_batch))] @ drop 5 (server_frames example_batch)"
    by (simp add: server_frames_def example_batch_def)
  have z: "frame_ok (code (CHR ''Z''), [code (CHR ''I'')])"
    by (simp add: frame_ok_def)
  have skipped: "list_ex is_skipped (map fst example_batch)"
    by (simp add: example_batch_def is_skipped_def)
  have "map fst (client_frames example_batch) = map code ''12DC1tn2C1''"
    by (simp add: client_frames_def example_batch_def is_skipped_def)
  then show ?thesis
    using reorder_parse_complete_correct [OF b chunks z] skipped by (intro conjI) (simp_all only: fst_conv)
qed

end
