(* ===== verification/Collections.thy ===== *)
theory Collections
  imports Prelude "HOL-Library.AList"
begin

text \<open>
  Two collections of third-party crates, as parameters: the LRU cache of the \<^verbatim>\<open>lru\<close> crate and the
  concurrent map of the \<^verbatim>\<open>dashmap\<close> crate. A definition that uses one takes the record of its
  operations; \<open>lru_laws\<close> and \<open>dashmap_laws\<close> name the documented behaviour the code relies on. The
  operations on a map are atomic.
\<close>

section \<open>The LRU cache\<close>

text \<open>\<open>lru_iter\<close> yields the entries, the most recently used one first.\<close>

record ('l, 'k, 'v) lru =
  lru_new :: "nat \<Rightarrow> 'l"
  lru_cap :: "'l \<Rightarrow> nat"
  lru_iter :: "'l \<Rightarrow> ('k \<times> 'v) list"
  lru_len :: "'l \<Rightarrow> nat"
  lru_contains :: "'k \<Rightarrow> 'l \<Rightarrow> bool"
  lru_get :: "'k \<Rightarrow> 'l \<Rightarrow> 'v option \<times> 'l"
  lru_push :: "'k \<Rightarrow> 'v \<Rightarrow> 'l \<Rightarrow> ('k \<times> 'v) option \<times> 'l"
  lru_pop :: "'k \<Rightarrow> 'l \<Rightarrow> 'v option \<times> 'l"
  lru_clear :: "'l \<Rightarrow> 'l"

definition without :: "'k \<Rightarrow> ('k \<times> 'v) list \<Rightarrow> ('k \<times> 'v) list" where
  "without k xs = filter (\<lambda>e. fst e \<noteq> k) xs"

definition lru_ok :: "('l, 'k, 'v) lru \<Rightarrow> 'l \<Rightarrow> bool" where
  "lru_ok L l \<longleftrightarrow> distinct (map fst (lru_iter L l)) \<and> length (lru_iter L l) \<le> lru_cap L l \<and> 0 < lru_cap L l"

definition push_spec ::
  "nat \<Rightarrow> 'k \<Rightarrow> 'v \<Rightarrow> ('k \<times> 'v) list \<Rightarrow> ('k \<times> 'v) option \<times> ('k \<times> 'v) list" where
  "push_spec cap k v xs =
     (case map_of xs k of
        Some old \<Rightarrow> (Some (k, old), (k, v) # without k xs)
      | None \<Rightarrow> if length xs < cap then (None, (k, v) # xs)
                 else (Some (last xs), (k, v) # butlast xs))"

definition lru_laws :: "('l, 'k, 'v) lru \<Rightarrow> bool" where
  "lru_laws L \<longleftrightarrow>
     (\<forall>c. lru_iter L (lru_new L c) = [] \<and> lru_cap L (lru_new L c) = c) \<and>
     (\<forall>l. lru_len L l = length (lru_iter L l)) \<and>
     (\<forall>k l. lru_contains L k l \<longleftrightarrow> k \<in> fst ` set (lru_iter L l)) \<and>
     (\<forall>k l. lru_ok L l \<longrightarrow> fst (lru_get L k l) = map_of (lru_iter L l) k \<and>
        lru_cap L (snd (lru_get L k l)) = lru_cap L l \<and>
        lru_iter L (snd (lru_get L k l)) =
          (case map_of (lru_iter L l) k of
             None \<Rightarrow> lru_iter L l | Some v \<Rightarrow> (k, v) # without k (lru_iter L l))) \<and>
     (\<forall>k v l. lru_ok L l \<longrightarrow> lru_cap L (snd (lru_push L k v l)) = lru_cap L l \<and>
        (fst (lru_push L k v l), lru_iter L (snd (lru_push L k v l)))
          = push_spec (lru_cap L l) k v (lru_iter L l)) \<and>
     (\<forall>k l. lru_ok L l \<longrightarrow> fst (lru_pop L k l) = map_of (lru_iter L l) k \<and>
        lru_cap L (snd (lru_pop L k l)) = lru_cap L l \<and>
        lru_iter L (snd (lru_pop L k l)) = without k (lru_iter L l)) \<and>
     (\<forall>l. lru_iter L (lru_clear L l) = [] \<and> lru_cap L (lru_clear L l) = lru_cap L l)"

lemma lru_new_simps [simp]:
  assumes "lru_laws L"
  shows "lru_iter L (lru_new L c) = []" "lru_cap L (lru_new L c) = c"
    "lru_iter L (lru_clear L l) = []" "lru_cap L (lru_clear L l) = lru_cap L l"
  using assms unfolding lru_laws_def by blast+

lemma lru_observers:
  assumes "lru_laws L"
  shows "lru_len L l = length (lru_iter L l)" "lru_contains L k l \<longleftrightarrow> k \<in> fst ` set (lru_iter L l)"
  using assms unfolding lru_laws_def by blast+

lemma lru_get_simps:
  assumes "lru_laws L" and "lru_ok L l"
  shows "fst (lru_get L k l) = map_of (lru_iter L l) k"
    "lru_cap L (snd (lru_get L k l)) = lru_cap L l"
    "lru_iter L (snd (lru_get L k l)) =
       (case map_of (lru_iter L l) k of
          None \<Rightarrow> lru_iter L l | Some v \<Rightarrow> (k, v) # without k (lru_iter L l))"
  using assms unfolding lru_laws_def by blast+

lemma lru_push_simps:
  assumes "lru_laws L" and "lru_ok L l"
  shows "lru_cap L (snd (lru_push L k v l)) = lru_cap L l"
    "fst (lru_push L k v l) = fst (push_spec (lru_cap L l) k v (lru_iter L l))"
    "lru_iter L (snd (lru_push L k v l)) = snd (push_spec (lru_cap L l) k v (lru_iter L l))"
proof -
  have *: "lru_cap L (snd (lru_push L k v l)) = lru_cap L l \<and>
    (fst (lru_push L k v l), lru_iter L (snd (lru_push L k v l)))
          = push_spec (lru_cap L l) k v (lru_iter L l)"
    using assms unfolding lru_laws_def by blast
  then show "lru_cap L (snd (lru_push L k v l)) = lru_cap L l" by blast
  show "fst (lru_push L k v l) = fst (push_spec (lru_cap L l) k v (lru_iter L l))"
    "lru_iter L (snd (lru_push L k v l)) = snd (push_spec (lru_cap L l) k v (lru_iter L l))"
    using * by (metis fst_conv, metis snd_conv)
qed

lemma lru_pop_simps:
  assumes "lru_laws L" and "lru_ok L l"
  shows "fst (lru_pop L k l) = map_of (lru_iter L l) k"
    "lru_cap L (snd (lru_pop L k l)) = lru_cap L l"
    "lru_iter L (snd (lru_pop L k l)) = without k (lru_iter L l)"
  using assms unfolding lru_laws_def by blast+

lemma without_simps [simp]:
  "without k [] = []" "without k (e # xs) = (if fst e = k then without k xs else e # without k xs)"
  by (simp_all add: without_def)

lemma set_without [simp]: "set (without k xs) = {e \<in> set xs. fst e \<noteq> k}"
  by (auto simp: without_def)

lemma keys_without [simp]: "fst ` {e \<in> set xs. fst e \<noteq> k} = fst ` set xs - {k}"
  by auto

lemma distinct_without [simp]: "distinct (map fst xs) \<Longrightarrow> distinct (map fst (without k xs))"
  by (simp add: without_def distinct_map_filter)

lemma map_of_without: "map_of (without k xs) = (map_of xs)(k := None)"
  by (induction xs) auto

lemma length_without_present:
  assumes "distinct (map fst xs)" and "map_of xs k = Some v"
  shows "Suc (length (without k xs)) = length xs"
  using assms
proof (induction xs)
  case (Cons e xs)
  have "without k xs = xs" if "k \<notin> fst ` set xs"
    using that by (force simp: without_def intro: filter_True)
  then show ?case
    using Cons by (auto split: if_splits)
qed simp

lemma keys_push:
  assumes "distinct (map fst xs)" and "0 < cap"
  shows "fst ` set (snd (push_spec cap k v xs)) \<subseteq> insert k (fst ` set xs)"
    and "k \<in> fst ` set (snd (push_spec cap k v xs))"
    and "distinct (map fst (snd (push_spec cap k v xs)))"
    and "length xs \<le> cap \<Longrightarrow> length (snd (push_spec cap k v xs)) \<le> cap"
proof -
  have bl: "set (butlast xs) \<subseteq> set xs" "distinct (map fst (butlast xs))"
    using assms(1) by (auto simp: map_butlast distinct_butlast dest: in_set_butlastD)
  show "fst ` set (snd (push_spec cap k v xs)) \<subseteq> insert k (fst ` set xs)"
    using bl by (auto simp: push_spec_def split: option.splits)
  show "k \<in> fst ` set (snd (push_spec cap k v xs))"
    by (auto simp: push_spec_def split: option.splits)
  show "distinct (map fst (snd (push_spec cap k v xs)))"
    using assms bl by (auto simp: push_spec_def map_of_eq_None_iff split: option.splits)
  show "length (snd (push_spec cap k v xs)) \<le> cap" if "length xs \<le> cap"
    using that assms length_without_present [OF assms(1), of k]
    by (auto simp: push_spec_def split: option.splits)
qed

lemma lru_ok_preserved:
  assumes "lru_laws L" and "lru_ok L l"
  shows "lru_ok L (snd (lru_get L k l))" "lru_ok L (snd (lru_push L k v l))"
    "lru_ok L (snd (lru_pop L k l))" "lru_ok L (lru_clear L l)"
proof -
  have d: "distinct (map fst (lru_iter L l))" "length (lru_iter L l) \<le> lru_cap L l" "0 < lru_cap L l"
    using assms(2) by (simp_all add: lru_ok_def)
  show "lru_ok L (snd (lru_get L k l))"
    using d length_without_present [OF d(1), of k]
    by (auto simp: lru_ok_def lru_get_simps [OF assms] split: option.splits)
  show "lru_ok L (snd (lru_push L k v l))"
    using d keys_push(3,4) [OF d(1,3)] by (simp add: lru_ok_def lru_push_simps [OF assms])
  show "lru_ok L (snd (lru_pop L k l))"
    using d le_trans [OF length_filter_le d(2)]
    by (auto simp: lru_ok_def lru_pop_simps [OF assms] without_def distinct_map_filter)
  show "lru_ok L (lru_clear L l)"
    using d assms(1) by (simp add: lru_ok_def)
qed

lemma lru_ok_new [simp]: "lru_laws L \<Longrightarrow> 0 < c \<Longrightarrow> lru_ok L (lru_new L c)"
  by (simp add: lru_ok_def)

text \<open>An instance: the capacity and the list of entries.\<close>

definition list_lru :: "(nat \<times> ('k \<times> 'v) list, 'k, 'v) lru" where
  "list_lru =
     \<lparr>lru_new = (\<lambda>c. (c, [])), lru_cap = fst, lru_iter = snd, lru_len = (\<lambda>l. length (snd l)),
      lru_contains = (\<lambda>k l. k \<in> fst ` set (snd l)),
      lru_get = (\<lambda>k l. (map_of (snd l) k,
        case map_of (snd l) k of None \<Rightarrow> l | Some v \<Rightarrow> (fst l, (k, v) # without k (snd l)))),
      lru_push = (\<lambda>k v l. let (r, xs) = push_spec (fst l) k v (snd l) in (r, fst l, xs)),
      lru_pop = (\<lambda>k l. (map_of (snd l) k, fst l, without k (snd l))),
      lru_clear = (\<lambda>l. (fst l, []))\<rparr>"

lemma list_lru_laws: "lru_laws list_lru"
  by (auto simp: lru_laws_def list_lru_def split_beta split: option.splits)

section \<open>The concurrent map\<close>

record ('m, 'k, 'v) dashmap =
  dm_empty :: "'m"
  dm_get :: "'m \<Rightarrow> 'k \<Rightarrow> 'v option"
  dm_insert :: "'k \<Rightarrow> 'v \<Rightarrow> 'm \<Rightarrow> 'm"
  dm_remove :: "'k \<Rightarrow> 'm \<Rightarrow> 'm"
  dm_iter :: "'m \<Rightarrow> ('k \<times> 'v) list"
  dm_len :: "'m \<Rightarrow> nat"

definition dashmap_laws :: "('m, 'k, 'v) dashmap \<Rightarrow> bool" where
  "dashmap_laws D \<longleftrightarrow>
     (\<forall>k. dm_get D (dm_empty D) k = None) \<and>
     (\<forall>m k v. dm_get D (dm_insert D k v m) = (dm_get D m)(k \<mapsto> v)) \<and>
     (\<forall>m k. dm_get D (dm_remove D k m) = (dm_get D m)(k := None)) \<and>
     (\<forall>m. distinct (map fst (dm_iter D m)) \<and> map_of (dm_iter D m) = dm_get D m) \<and>
     (\<forall>m. dm_len D m = length (dm_iter D m))"

lemma dm_get_simps [simp]:
  assumes "dashmap_laws D"
  shows "dm_get D (dm_empty D) k = None"
    "dm_get D (dm_insert D k' v m) = (dm_get D m)(k' \<mapsto> v)"
    "dm_get D (dm_remove D k' m) = (dm_get D m)(k' := None)"
  using assms unfolding dashmap_laws_def by blast+

lemma dm_iter_simps:
  assumes "dashmap_laws D"
  shows "distinct (map fst (dm_iter D m))" "map_of (dm_iter D m) = dm_get D m"
    "dm_len D m = length (dm_iter D m)"
  using assms unfolding dashmap_laws_def by blast+

lemma dm_in_iter: "dashmap_laws D \<Longrightarrow> (k, v) \<in> set (dm_iter D m) \<longleftrightarrow> dm_get D m k = Some v"
  using dm_iter_simps [of D m] map_of_eq_Some_iff by fastforce

text \<open>The entries as a set determine sizes and sums.\<close>

lemma dm_len_card:
  assumes "dashmap_laws D"
  shows "dm_len D m = card (dom (dm_get D m))" and "finite (dom (dm_get D m))"
proof -
  have "dom (dm_get D m) = fst ` set (dm_iter D m)"
    unfolding dm_iter_simps(2) [OF assms, symmetric] by (rule dom_map_of_conv_image_fst)
  then show "dm_len D m = card (dom (dm_get D m))" "finite (dom (dm_get D m))"
    using dm_iter_simps(1,3) [OF assms, of m] distinct_card [of "map fst (dm_iter D m)"] by simp_all
qed

lemma dm_sum_iter:
  assumes "dashmap_laws D"
  shows "(\<Sum>(k, v)\<leftarrow>dm_iter D m. f k v) = (\<Sum>k \<in> dom (dm_get D m). f k (the (dm_get D m k)))"
proof -
  have d: "distinct (dm_iter D m)"
    using dm_iter_simps(1) [OF assms] distinct_map by blast
  have "(\<Sum>(k, v)\<leftarrow>dm_iter D m. f k v) = (\<Sum>e \<in> set (dm_iter D m). f (fst e) (snd e))"
    using sum_list_distinct_conv_sum_set [OF d, of "\<lambda>e. f (fst e) (snd e)"]
    by (simp add: case_prod_unfold)
  also have "\<dots> = (\<Sum>k \<in> dom (dm_get D m). f k (the (dm_get D m k)))"
  proof -
    have "set (dm_iter D m) = (\<lambda>k. (k, the (dm_get D m k))) ` dom (dm_get D m)"
      using dm_in_iter [OF assms] by (auto simp: image_iff)
    then show ?thesis
      by (simp add: sum.reindex inj_on_def)
  qed
  finally show ?thesis .
qed

text \<open>An instance: an association list in which the first entry of a key counts.\<close>

definition list_dashmap :: "(('k \<times> 'v) list, 'k, 'v) dashmap" where
  "list_dashmap =
     \<lparr>dm_empty = [], dm_get = map_of, dm_insert = (\<lambda>k v xs. (k, v) # xs), dm_remove = AList.delete,
      dm_iter = AList.clearjunk, dm_len = (\<lambda>xs. length (AList.clearjunk xs))\<rparr>"

lemma list_dashmap_laws: "dashmap_laws list_dashmap"
  by (simp add: dashmap_laws_def list_dashmap_def map_of_clearjunk delete_conv')

end
