(* ===== verification/Query_Cache.thy ===== *)
theory Query_Cache
  imports Collections Extended_Messages
begin

text \<open>
  The shared caches of prepared statements (\<^verbatim>\<open>src/src/server/prepared_statement_cache.rs\<close>): the two
  global interners of query texts with their mark-and-sweep collection, and the cache of a pool, which
  maps the hash of a statement to the rewritten Parse message and evicts the least recently used entry.

  The maps are parameters. The reference counts of the shared texts, the clock and the size of an entry
  in memory (computed from allocator capacities) are arguments. Counters are 64-bit words.
\<close>

section \<open>Interners\<close>

datatype gc_state = GcActive | GcMarked

record named_entry =
  ne_text :: bytes
  ne_gc_state :: gc_state
  ne_count :: u64
  ne_duration_us :: u64

record anon_entry =
  ae_text :: bytes
  ae_last_used :: u64
  ae_gc_state :: gc_state
  ae_count :: u64
  ae_duration_us :: u64

definition named_entry_new :: "bytes \<Rightarrow> named_entry" where
  "named_entry_new text = \<lparr>ne_text = text, ne_gc_state = GcActive, ne_count = 0, ne_duration_us = 0\<rparr>"

definition anon_entry_new :: "bytes \<Rightarrow> u64 \<Rightarrow> anon_entry" where
  "anon_entry_new text now = \<lparr>ae_text = text, ae_last_used = now, ae_gc_state = GcActive,
     ae_count = 0, ae_duration_us = 0\<rparr>"

definition named_touch :: "named_entry \<Rightarrow> named_entry" where
  "named_touch e = e\<lparr>ne_gc_state := GcActive\<rparr>"

definition anon_touch :: "u64 \<Rightarrow> anon_entry \<Rightarrow> anon_entry" where
  "anon_touch now e = e\<lparr>ae_last_used := now, ae_gc_state := GcActive\<rparr>"

text \<open>\<^verbatim>\<open>saturating_sub\<close> on unsigned words.\<close>

definition saturating_sub :: "u64 \<Rightarrow> u64 \<Rightarrow> u64" where
  "saturating_sub a b = (if a \<le> b then 0 else a - b)"

definition idle_ms :: "u64 \<Rightarrow> anon_entry \<Rightarrow> u64" where
  "idle_ms now e = saturating_sub now (ae_last_used e)"

record ('n, 'a) interners =
  in_named :: 'n
  in_anon :: 'a

record ('n, 'a) interner_maps =
  im_named :: "('n, u64, named_entry) dashmap"
  im_anon :: "('a, u64, anon_entry) dashmap"

definition interner_laws :: "('n, 'a) interner_maps \<Rightarrow> bool" where
  "interner_laws M \<longleftrightarrow> dashmap_laws (im_named M) \<and> dashmap_laws (im_anon M)"

definition intern_named ::
  "('n, 'a) interner_maps \<Rightarrow> bytes \<Rightarrow> u64 \<Rightarrow> ('n, 'a) interners \<Rightarrow> bytes \<times> ('n, 'a) interners" where
  "intern_named M query hash s =
     (case dm_get (im_named M) (in_named s) hash of
        Some e \<Rightarrow> (ne_text e, s\<lparr>in_named := dm_insert (im_named M) hash (named_touch e) (in_named s)\<rparr>)
      | None \<Rightarrow> (query, s\<lparr>in_named := dm_insert (im_named M) hash (named_entry_new query) (in_named s)\<rparr>))"

definition intern_anon ::
  "('n, 'a) interner_maps \<Rightarrow> u64 \<Rightarrow> bytes \<Rightarrow> u64 \<Rightarrow> ('n, 'a) interners \<Rightarrow> bytes \<times> ('n, 'a) interners" where
  "intern_anon M now query hash s =
     (case dm_get (im_anon M) (in_anon s) hash of
        Some e \<Rightarrow> (ae_text e, s\<lparr>in_anon := dm_insert (im_anon M) hash (anon_touch now e) (in_anon s)\<rparr>)
      | None \<Rightarrow> (query, s\<lparr>in_anon := dm_insert (im_anon M) hash (anon_entry_new query now) (in_anon s)\<rparr>))"

definition intern_query ::
  "('n, 'a) interner_maps \<Rightarrow> u64 \<Rightarrow> bytes \<Rightarrow> u64 \<Rightarrow> bool \<Rightarrow> ('n, 'a) interners \<Rightarrow> bytes \<times> ('n, 'a) interners" where
  "intern_query M now query hash is_anonymous s =
     (if is_anonymous then intern_anon M now query hash s else intern_named M query hash s)"

definition record_query_count ::
  "('n, 'a) interner_maps \<Rightarrow> u64 \<Rightarrow> bool \<Rightarrow> ('n, 'a) interners \<Rightarrow> ('n, 'a) interners" where
  "record_query_count M hash is_anonymous s =
     (if is_anonymous
      then (case dm_get (im_anon M) (in_anon s) hash of
              Some e \<Rightarrow> s\<lparr>in_anon := dm_insert (im_anon M) hash (e\<lparr>ae_count := ae_count e + 1\<rparr>) (in_anon s)\<rparr>
            | None \<Rightarrow> s)
      else (case dm_get (im_named M) (in_named s) hash of
              Some e \<Rightarrow> s\<lparr>in_named := dm_insert (im_named M) hash (e\<lparr>ne_count := ne_count e + 1\<rparr>) (in_named s)\<rparr>
            | None \<Rightarrow> s))"

definition record_query_duration_us ::
  "('n, 'a) interner_maps \<Rightarrow> u64 \<Rightarrow> bool \<Rightarrow> u64 \<Rightarrow> ('n, 'a) interners \<Rightarrow> ('n, 'a) interners" where
  "record_query_duration_us M hash is_anonymous micros s =
     (if is_anonymous
      then (case dm_get (im_anon M) (in_anon s) hash of
              Some e \<Rightarrow> s\<lparr>in_anon := dm_insert (im_anon M) hash
                             (e\<lparr>ae_duration_us := ae_duration_us e + micros\<rparr>) (in_anon s)\<rparr>
            | None \<Rightarrow> s)
      else (case dm_get (im_named M) (in_named s) hash of
              Some e \<Rightarrow> s\<lparr>in_named := dm_insert (im_named M) hash
                             (e\<lparr>ne_duration_us := ne_duration_us e + micros\<rparr>) (in_named s)\<rparr>
            | None \<Rightarrow> s))"

definition reset_interners_force :: "('n, 'a) interner_maps \<Rightarrow> ('n, 'a) interners" where
  "reset_interners_force M = \<lparr>in_named = dm_empty (im_named M), in_anon = dm_empty (im_anon M)\<rparr>"

record gc_stats =
  gs_marked :: u64
  gs_evicted :: u64
  gs_bytes :: u64

definition no_gc_stats :: gc_stats where
  "no_gc_stats = \<lparr>gs_marked = 0, gs_evicted = 0, gs_bytes = 0\<rparr>"

text \<open>
  One entry of a sweep: the new mark and whether the entry is removed. Removing an entry that is in the map
  succeeds; a sweep runs over a snapshot, and no other task removes entries.
\<close>

definition sweep_entry :: "bool \<Rightarrow> gc_state \<Rightarrow> u64 \<Rightarrow> gc_stats \<Rightarrow> gc_state \<times> bool \<times> gc_stats" where
  "sweep_entry is_candidate gc text_len stats =
     (if \<not> is_candidate then (GcActive, False, stats\<lparr>gs_bytes := gs_bytes stats + text_len\<rparr>)
      else if gc = GcMarked then (GcMarked, True, stats\<lparr>gs_evicted := gs_evicted stats + 1\<rparr>)
      else (GcMarked, False, stats\<lparr>gs_marked := gs_marked stats + 1, gs_bytes := gs_bytes stats + text_len\<rparr>))"

definition gc_sweep_named ::
  "('n, 'a) interner_maps \<Rightarrow> (u64 \<Rightarrow> nat) \<Rightarrow> ('n, 'a) interners \<Rightarrow> gc_stats \<times> ('n, 'a) interners" where
  "gc_sweep_named M strong_count s =
     (let (stats, m) = fold (\<lambda>(hash, e) (stats, m).
            let (gc, removed, stats') = sweep_entry (strong_count hash = 1) (ne_gc_state e)
                                          (of_nat (length (ne_text e))) stats
            in (stats', if removed then dm_remove (im_named M) hash m
                        else dm_insert (im_named M) hash (e\<lparr>ne_gc_state := gc\<rparr>) m))
          (dm_iter (im_named M) (in_named s)) (no_gc_stats, in_named s)
      in (stats, s\<lparr>in_named := m\<rparr>))"

definition gc_sweep_anon ::
  "('n, 'a) interner_maps \<Rightarrow> u64 \<Rightarrow> u64 \<Rightarrow> ('n, 'a) interners \<Rightarrow> gc_stats \<times> ('n, 'a) interners" where
  "gc_sweep_anon M now anon_idle_ttl_ms s =
     (let (stats, m) = fold (\<lambda>(hash, e) (stats, m).
            let (gc, removed, stats') = sweep_entry (idle_ms now e > anon_idle_ttl_ms) (ae_gc_state e)
                                          (of_nat (length (ae_text e))) stats
            in (stats', if removed then dm_remove (im_anon M) hash m
                        else dm_insert (im_anon M) hash (e\<lparr>ae_gc_state := gc\<rparr>) m))
          (dm_iter (im_anon M) (in_anon s)) (no_gc_stats, in_anon s)
      in (stats, s\<lparr>in_anon := m\<rparr>))"

section \<open>The cache of a pool\<close>

datatype cache_entry_kind = KindNamed | KindAnonymous | KindMixed

definition flag_named :: u8 where
  "flag_named = 1"

definition flag_anonymous :: u8 where
  "flag_anonymous = 2"

definition kind_from_bits :: "u8 \<Rightarrow> cache_entry_kind" where
  "kind_from_bits bits =
     (let b = bits AND (flag_named OR flag_anonymous)
      in if b = flag_named then KindNamed else if b = flag_anonymous then KindAnonymous else KindMixed)"

primrec kind_bits :: "cache_entry_kind \<Rightarrow> u8" where
  "kind_bits KindNamed = flag_named"
| "kind_bits KindAnonymous = flag_anonymous"
| "kind_bits KindMixed = flag_named OR flag_anonymous"

record cache_entry =
  ce_parse :: parse_msg
  ce_count_used :: u64
  ce_kind_flags :: u8
  ce_hit_count :: u64
  ce_miss_count :: u64

definition cache_entry_new :: "parse_msg \<Rightarrow> u64 \<Rightarrow> cache_entry_kind \<Rightarrow> cache_entry" where
  "cache_entry_new p timestamp kind = \<lparr>ce_parse = p, ce_count_used = timestamp,
     ce_kind_flags = kind_bits kind, ce_hit_count = 0, ce_miss_count = 0\<rparr>"

definition note_flag :: "u8 \<Rightarrow> cache_entry \<Rightarrow> cache_entry" where
  "note_flag flag e =
     (if ce_kind_flags e AND flag = 0 then e\<lparr>ce_kind_flags := ce_kind_flags e OR flag\<rparr> else e)"

definition note_named :: "cache_entry \<Rightarrow> cache_entry" where
  "note_named e = note_flag flag_named e"

definition note_anonymous :: "cache_entry \<Rightarrow> cache_entry" where
  "note_anonymous e = note_flag flag_anonymous e"

definition entry_kind :: "cache_entry \<Rightarrow> cache_entry_kind" where
  "entry_kind e = kind_from_bits (ce_kind_flags e)"

record 'c prepared_cache =
  pc_cache :: 'c
  pc_max_size :: nat
  pc_counter :: u64
  pc_memory :: u64

definition prepared_cache_new :: "('c, u64, cache_entry) dashmap \<Rightarrow> nat \<Rightarrow> 'c prepared_cache" where
  "prepared_cache_new D n = \<lparr>pc_cache = dm_empty D, pc_max_size = (if n = 0 then 1 else n),
     pc_counter = 0, pc_memory = 0\<rparr>"

text \<open>The search for the entry with the smallest timestamp below the maximum.\<close>

fun oldest_entry :: "(u64 \<times> cache_entry) list \<Rightarrow> u64 option \<Rightarrow> u64 \<Rightarrow> u64 option" where
  "oldest_entry [] oldest_key oldest_time = oldest_key"
| "oldest_entry ((k, e) # es) oldest_key oldest_time =
     (if ce_count_used e < oldest_time then oldest_entry es (Some k) (ce_count_used e)
      else oldest_entry es oldest_key oldest_time)"

definition evict_oldest ::
  "('c, u64, cache_entry) dashmap \<Rightarrow> (parse_msg \<Rightarrow> u64) \<Rightarrow> 'c prepared_cache \<Rightarrow> 'c prepared_cache" where
  "evict_oldest D entry_bytes c =
     (case oldest_entry (dm_iter D (pc_cache c)) None (- 1) of
        None \<Rightarrow> c
      | Some k \<Rightarrow>
          (case dm_get D (pc_cache c) k of
             None \<Rightarrow> c
           | Some e \<Rightarrow> c\<lparr>pc_cache := dm_remove D k (pc_cache c),
                          pc_memory := pc_memory c - entry_bytes (ce_parse e)\<rparr>))"

text \<open>The eviction loop; a loop that removes nothing never ends, which is \<open>None\<close>.\<close>

partial_function (option) evict_excess ::
  "('c, u64, cache_entry) dashmap \<Rightarrow> (parse_msg \<Rightarrow> u64) \<Rightarrow> 'c prepared_cache \<Rightarrow> 'c prepared_cache option" where
  "evict_excess D entry_bytes c =
     (if dm_len D (pc_cache c) > pc_max_size c then evict_excess D entry_bytes (evict_oldest D entry_bytes c)
      else Some c)"

text \<open>
  \<^verbatim>\<open>get_or_insert\<close>, with the interners and the global counter of statement names as part of the state.
\<close>

record ('c, 'n, 'a) cache_world =
  cw_pool :: "'c prepared_cache"
  cw_interners :: "('n, 'a) interners"
  cw_statement_counter :: u64

definition get_or_insert ::
  "('c, u64, cache_entry) dashmap \<Rightarrow> ('n, 'a) interner_maps \<Rightarrow> (parse_msg \<Rightarrow> u64) \<Rightarrow> u64
     \<Rightarrow> parse_msg \<Rightarrow> u64 \<Rightarrow> bytes option \<Rightarrow> ('c, 'n, 'a) cache_world
     \<Rightarrow> (parse_msg \<times> ('c, 'n, 'a) cache_world) option" where
  "get_or_insert D M entry_bytes now parse hash client_given_name w =
     (let c = cw_pool w; timestamp = pc_counter c; c1 = c\<lparr>pc_counter := timestamp + 1\<rparr>;
          is_anonymous = (client_given_name = None)
      in case dm_get D (pc_cache c) hash of
           Some e \<Rightarrow>
             (let e1 = e\<lparr>ce_count_used := timestamp\<rparr>;
                  e2 = (if is_anonymous then note_anonymous e1 else note_named e1)
              in Some (ce_parse e, w\<lparr>cw_pool := c1\<lparr>pc_cache := dm_insert D hash e2 (pc_cache c)\<rparr>\<rparr>))
         | None \<Rightarrow>
             (let (text, ins) = intern_query M now (p_query parse) hash is_anonymous (cw_interners w);
                  (new_parse, counter') = parse_rewrite (cw_statement_counter w) (parse\<lparr>p_query := text\<rparr>);
                  kind = (if is_anonymous then KindAnonymous else KindNamed);
                  c2 = c1\<lparr>pc_cache := dm_insert D hash (cache_entry_new new_parse timestamp kind) (pc_cache c),
                          pc_memory := pc_memory c + entry_bytes new_parse\<rparr>
              in Option.bind (evict_excess D entry_bytes c2) (\<lambda>c3.
                   Some (new_parse, w\<lparr>cw_pool := c3, cw_interners := ins, cw_statement_counter := counter'\<rparr>))))"

definition promote ::
  "('c, u64, cache_entry) dashmap \<Rightarrow> u64 \<Rightarrow> 'c prepared_cache \<Rightarrow> 'c prepared_cache" where
  "promote D hash c =
     (case dm_get D (pc_cache c) hash of
        Some e \<Rightarrow> c\<lparr>pc_cache := dm_insert D hash (e\<lparr>ce_count_used := pc_counter c\<rparr>) (pc_cache c),
                     pc_counter := pc_counter c + 1\<rparr>
      | None \<Rightarrow> c)"

definition record_hit ::
  "('c, u64, cache_entry) dashmap \<Rightarrow> u64 \<Rightarrow> 'c prepared_cache \<Rightarrow> 'c prepared_cache" where
  "record_hit D hash c =
     (case dm_get D (pc_cache c) hash of
        Some e \<Rightarrow> c\<lparr>pc_cache := dm_insert D hash (e\<lparr>ce_hit_count := ce_hit_count e + 1\<rparr>) (pc_cache c)\<rparr>
      | None \<Rightarrow> c)"

definition record_miss ::
  "('c, u64, cache_entry) dashmap \<Rightarrow> u64 \<Rightarrow> 'c prepared_cache \<Rightarrow> 'c prepared_cache" where
  "record_miss D hash c =
     (case dm_get D (pc_cache c) hash of
        Some e \<Rightarrow> c\<lparr>pc_cache := dm_insert D hash (e\<lparr>ce_miss_count := ce_miss_count e + 1\<rparr>) (pc_cache c)\<rparr>
      | None \<Rightarrow> c)"

definition lookup_by_hash ::
  "('c, u64, cache_entry) dashmap \<Rightarrow> u64 \<Rightarrow> 'c prepared_cache \<Rightarrow> (parse_msg \<times> cache_entry_kind) option" where
  "lookup_by_hash D hash c = map_option (\<lambda>e. (ce_parse e, entry_kind e)) (dm_get D (pc_cache c) hash)"

definition get_entries ::
  "('c, u64, cache_entry) dashmap \<Rightarrow> 'c prepared_cache
     \<Rightarrow> (u64 \<times> parse_msg \<times> u64 \<times> cache_entry_kind \<times> u64 \<times> u64) list" where
  "get_entries D c = map (\<lambda>(k, e). (k, ce_parse e, ce_count_used e, entry_kind e, ce_hit_count e, ce_miss_count e))
     (dm_iter D (pc_cache c))"

section \<open>The cache of a pool is an LRU list\<close>

text \<open>
  The abstract cache is the list of its hashes, the most recently used one first. \<open>cache_abs\<close> relates it
  to the cache: the timestamps decrease along the list and lie below the counter, and the byte counter is
  the sum over the entries.
\<close>

definition stamp :: "('c, u64, cache_entry) dashmap \<Rightarrow> 'c prepared_cache \<Rightarrow> u64 \<Rightarrow> u64" where
  "stamp D c k = ce_count_used (the (dm_get D (pc_cache c) k))"

definition cost :: "('c, u64, cache_entry) dashmap \<Rightarrow> (parse_msg \<Rightarrow> u64) \<Rightarrow> 'c prepared_cache \<Rightarrow> u64 \<Rightarrow> u64" where
  "cost D entry_bytes c k = entry_bytes (ce_parse (the (dm_get D (pc_cache c) k)))"

definition cache_abs ::
  "('c, u64, cache_entry) dashmap \<Rightarrow> (parse_msg \<Rightarrow> u64) \<Rightarrow> 'c prepared_cache \<Rightarrow> u64 list \<Rightarrow> bool" where
  "cache_abs D entry_bytes c xs \<longleftrightarrow>
     set xs = dom (dm_get D (pc_cache c)) \<and> sorted_wrt (\<lambda>a b. stamp D c b < stamp D c a) xs
     \<and> (\<forall>k \<in> set xs. stamp D c k < pc_counter c)
     \<and> pc_memory c = (\<Sum>k \<in> set xs. cost D entry_bytes c k)"

lemma cache_abs_distinct: "cache_abs D eb c xs \<Longrightarrow> distinct xs"
proof -
  have "sorted_wrt (\<lambda>a b. f b < (f a :: u64)) xs \<Longrightarrow> distinct xs" for f :: "u64 \<Rightarrow> u64"
    by (induction xs) auto
  then show "cache_abs D eb c xs \<Longrightarrow> distinct xs"
    unfolding cache_abs_def by blast
qed

lemma cache_abs_len: "dashmap_laws D \<Longrightarrow> cache_abs D eb c xs \<Longrightarrow> dm_len D (pc_cache c) = length xs"
  using cache_abs_distinct [of D eb c xs] dm_len_card(1) [of D "pc_cache c"] distinct_card [of xs]
  by (simp add: cache_abs_def)

lemma oldest_entry_cases:
  "(oldest_entry es key t = key \<and> (\<forall>x \<in> set es. t \<le> ce_count_used (snd x)))
   \<or> (\<exists>y \<in> set es. oldest_entry es key t = Some (fst y) \<and> ce_count_used (snd y) < t
        \<and> (\<forall>x \<in> set es. ce_count_used (snd y) \<le> ce_count_used (snd x)))"
proof (induction es key t rule: oldest_entry.induct)
  case (2 k e es key t)
  show ?case
  proof (cases "ce_count_used e < t")
    case True
    from 2(1) [OF True] consider
        "oldest_entry es (Some k) (ce_count_used e) = Some k" "\<forall>x \<in> set es. ce_count_used e \<le> ce_count_used (snd x)"
      | y where "y \<in> set es" "oldest_entry es (Some k) (ce_count_used e) = Some (fst y)"
        "ce_count_used (snd y) < ce_count_used e" "\<forall>x \<in> set es. ce_count_used (snd y) \<le> ce_count_used (snd x)"
      by blast
    then show ?thesis
    proof cases
      case 1
      then show ?thesis using True by simp
    next
      case 2
      then show ?thesis using True by (intro disjI2 bexI [of _ y]) auto
    qed
  next
    case False
    from 2(2) [OF False] show ?thesis
      using False by (elim disjE bexE) (auto simp: not_less intro: less_imp_le less_le_trans)
  qed
qed simp

lemma word_less_max: "(a :: u64) < b \<Longrightarrow> a < - 1"
  by (metis less_le_trans word_n1_ge)

lemma evict_oldest_abs:
  assumes D: "dashmap_laws D" and abs: "cache_abs D eb c xs" and "xs \<noteq> []"
  shows "cache_abs D eb (evict_oldest D eb c) (butlast xs)"
    and "pc_max_size (evict_oldest D eb c) = pc_max_size c"
    and "pc_counter (evict_oldest D eb c) = pc_counter c"
proof -
  obtain ys y where xs: "xs = ys @ [y]"
    using \<open>xs \<noteq> []\<close> by (metis append_butlast_last_id)
  have y: "y \<notin> set ys" "distinct ys"
    using cache_abs_distinct [OF abs] by (simp_all add: xs)
  have least: "stamp D c y < stamp D c k" if "k \<in> set ys" for k
    using abs that by (auto simp: cache_abs_def xs sorted_wrt_append)
  have dom: "set xs = dom (dm_get D (pc_cache c))"
    using abs by (simp add: cache_abs_def)
  obtain ey where ey: "dm_get D (pc_cache c) y = Some ey"
    using dom xs by auto
  have "(y, ey) \<in> set (dm_iter D (pc_cache c))" "ce_count_used ey < - 1"
    using ey abs word_less_max by (auto simp: dm_in_iter [OF D] cache_abs_def xs stamp_def)
  then have "\<exists>y \<in> set (dm_iter D (pc_cache c)). oldest_entry (dm_iter D (pc_cache c)) None (- 1) = Some (fst y)
      \<and> ce_count_used (snd y) \<le> ce_count_used ey"
    using oldest_entry_cases [of "dm_iter D (pc_cache c)" None "- 1"] by (elim disjE) fastforce+
  then obtain k e where ke: "(k, e) \<in> set (dm_iter D (pc_cache c))"
    "oldest_entry (dm_iter D (pc_cache c)) None (- 1) = Some k" "ce_count_used e \<le> ce_count_used ey"
    by auto
  then have "dm_get D (pc_cache c) k = Some e"
    by (simp add: dm_in_iter [OF D])
  then have "k = y"
    using least [of k] ke(3) dom ey by (auto simp: xs stamp_def)
  then have c': "evict_oldest D eb c = c\<lparr>pc_cache := dm_remove D y (pc_cache c),
      pc_memory := pc_memory c - eb (ce_parse ey)\<rparr>"
    using ke(2) ey by (simp add: evict_oldest_def)
  define c2 where "c2 = evict_oldest D eb c"
  have c2: "dm_get D (pc_cache c2) = (dm_get D (pc_cache c))(y := None)" "pc_counter c2 = pc_counter c"
    "pc_max_size c2 = pc_max_size c" "pc_memory c2 = pc_memory c - cost D eb c y"
    using ey by (simp_all add: c2_def c' D cost_def)
  have same: "stamp D c2 k = stamp D c k" "cost D eb c2 k = cost D eb c k" if "k \<in> set ys" for k
    using that y(1) by (auto simp: stamp_def cost_def c2(1))
  have "sorted_wrt (\<lambda>a b. stamp D c b < stamp D c a) ys"
    using abs by (simp add: cache_abs_def xs sorted_wrt_append)
  then have "sorted_wrt (\<lambda>a b. stamp D c2 b < stamp D c2 a) ys"
    by (rule sorted_wrt_mono_rel [rotated]) (simp add: same)
  moreover have "set ys = dom (dm_get D (pc_cache c2))"
    using dom y(1) unfolding c2(1) xs by auto
  moreover have "pc_memory c = cost D eb c y + (\<Sum>k \<in> set ys. cost D eb c k)"
    using abs y by (simp add: cache_abs_def xs add.commute)
  then have "pc_memory c2 = (\<Sum>k \<in> set ys. cost D eb c2 k)"
    using sum.cong [OF refl same(2), of "set ys"] by (simp add: c2(4))
  moreover have "\<forall>k \<in> set ys. stamp D c2 k < pc_counter c2"
    using abs same(1) by (simp add: cache_abs_def xs c2(2))
  ultimately show "cache_abs D eb (evict_oldest D eb c) (butlast xs)"
    by (simp add: cache_abs_def xs c2_def [symmetric])
  show "pc_max_size (evict_oldest D eb c) = pc_max_size c" "pc_counter (evict_oldest D eb c) = pc_counter c"
    using c2(2,3) by (simp_all add: c2_def)
qed

lemma evict_oldest_sub: "dashmap_laws D \<Longrightarrow> dm_get D (pc_cache (evict_oldest D eb c)) \<subseteq>\<^sub>m dm_get D (pc_cache c)"
  by (auto simp: evict_oldest_def map_le_def split: option.splits)

lemma evict_excess_abs:
  assumes D: "dashmap_laws D" and "cache_abs D eb c xs"
  shows "\<exists>c'. evict_excess D eb c = Some c' \<and> cache_abs D eb c' (take (pc_max_size c) xs)
    \<and> pc_max_size c' = pc_max_size c \<and> pc_counter c' = pc_counter c
    \<and> dm_get D (pc_cache c') \<subseteq>\<^sub>m dm_get D (pc_cache c)"
  using assms(2)
proof (induction "length xs" arbitrary: c xs)
  case 0
  then show ?case
    using cache_abs_len [OF D 0(2)] by (subst evict_excess.simps) simp
next
  case (Suc n)
  show ?case
  proof (cases "length xs \<le> pc_max_size c")
    case True
    then show ?thesis
      using cache_abs_len [OF D Suc.prems] Suc.prems by (subst evict_excess.simps) simp
  next
    case False
    have xs: "xs \<noteq> []" using Suc.hyps(2) by auto
    have "take (pc_max_size c) (butlast xs) = take (pc_max_size c) xs"
      using False by (simp add: take_butlast)
    then show ?thesis
      using False Suc.hyps(1) [of "butlast xs" "evict_oldest D eb c"] Suc.hyps(2) evict_oldest_abs [OF D Suc.prems xs]
        cache_abs_len [OF D Suc.prems] map_le_trans [OF _ evict_oldest_sub [OF D]]
      by (subst evict_excess.simps) fastforce
  qed
qed

lemma word_Suc_greater: "(a :: u64) < b \<Longrightarrow> b \<noteq> - 1 \<Longrightarrow> a < b + 1"
  and word_less_Suc: "(b :: u64) \<noteq> - 1 \<Longrightarrow> b < b + 1"
proof -
  show "b < b + 1" if "b \<noteq> - 1" for b :: u64
    using that inc_less_eq_self_iff_eq [of b] by (simp add: not_le)
  then show "(a :: u64) < b \<Longrightarrow> b \<noteq> - 1 \<Longrightarrow> a < b + 1"
    using less_trans by blast
qed

text \<open>An entry that is stamped with the counter moves to the front.\<close>

lemma cache_abs_front:
  assumes abs: "cache_abs D eb c xs" and get: "dm_get D (pc_cache c2) = (dm_get D (pc_cache c))(h \<mapsto> e)"
    and e: "ce_count_used e = pc_counter c" and counter: "pc_counter c2 = pc_counter c + 1" "pc_counter c \<noteq> - 1"
    and mem: "pc_memory c2 = pc_memory c + eb (ce_parse e) - (if h \<in> set xs then cost D eb c h else 0)"
  shows "cache_abs D eb c2 (h # removeAll h xs)"
proof -
  have same: "stamp D c2 k = stamp D c k" "cost D eb c2 k = cost D eb c k" if "k \<noteq> h" for k
    using that by (simp_all add: stamp_def cost_def get)
  have new: "stamp D c2 h = pc_counter c" "cost D eb c2 h = eb (ce_parse e)"
    using e by (simp_all add: stamp_def cost_def get)
  have below: "stamp D c k < pc_counter c" if "k \<in> set xs" for k
    using abs that by (simp add: cache_abs_def)
  have "sorted_wrt (\<lambda>a b. stamp D c b < stamp D c a) (removeAll h xs)"
    using abs by (simp add: cache_abs_def removeAll_filter_not_eq sorted_wrt_filter)
  then have "sorted_wrt (\<lambda>a b. stamp D c2 b < stamp D c2 a) (removeAll h xs)"
    by (rule sorted_wrt_mono_rel [rotated]) (simp add: same)
  then have "sorted_wrt (\<lambda>a b. stamp D c2 b < stamp D c2 a) (h # removeAll h xs)"
    using below by (simp add: same new)
  moreover have "set (h # removeAll h xs) = dom (dm_get D (pc_cache c2))"
    using abs by (auto simp: cache_abs_def get)
  moreover have "\<forall>k \<in> set (h # removeAll h xs). stamp D c2 k < pc_counter c2"
  proof
    fix k assume "k \<in> set (h # removeAll h xs)"
    then show "stamp D c2 k < pc_counter c2"
      using below [of k] word_Suc_greater [OF _ counter(2)] word_less_Suc [OF counter(2)]
      by (cases "k = h") (auto simp: same new counter(1))
  qed
  moreover have "pc_memory c2 = (\<Sum>k \<in> set (h # removeAll h xs). cost D eb c2 k)"
  proof -
    have "pc_memory c = (\<Sum>k \<in> set xs - {h}. cost D eb c k) + (if h \<in> set xs then cost D eb c h else 0)"
      using abs by (auto simp: cache_abs_def sum.remove add.commute)
    moreover have "(\<Sum>k \<in> set xs - {h}. cost D eb c2 k) = (\<Sum>k \<in> set xs - {h}. cost D eb c k)"
      by (intro sum.cong) (simp_all add: same)
    ultimately show ?thesis
      by (simp add: mem new sum.insert_remove)
  qed
  ultimately show ?thesis
    unfolding cache_abs_def by blast
qed

lemma cache_abs_same_stamp:
  assumes "cache_abs D eb c xs" and "dm_get D (pc_cache c) h = Some e"
    and get: "dm_get D (pc_cache c2) = (dm_get D (pc_cache c))(h \<mapsto> f)"
    and "ce_count_used f = ce_count_used e" "ce_parse f = ce_parse e"
    and "pc_counter c2 = pc_counter c" "pc_memory c2 = pc_memory c"
  shows "cache_abs D eb c2 xs"
proof -
  have "stamp D c2 = stamp D c" "cost D eb c2 = cost D eb c"
    using assms(2,4,5) by (auto simp: stamp_def cost_def get fun_eq_iff)
  moreover have "dom (dm_get D (pc_cache c2)) = dom (dm_get D (pc_cache c))"
    using assms(2) by (auto simp: get)
  ultimately show ?thesis
    using assms(1,6,7) by (simp add: cache_abs_def)
qed

lemma note_simps [simp]:
  "ce_parse (note_named e) = ce_parse e" "ce_parse (note_anonymous e) = ce_parse e"
  "ce_count_used (note_named e) = ce_count_used e" "ce_count_used (note_anonymous e) = ce_count_used e"
  by (simp_all add: note_named_def note_anonymous_def note_flag_def)

lemma cache_abs_mem: "cache_abs D eb c xs \<Longrightarrow> h \<in> set xs \<longleftrightarrow> (\<exists>e. dm_get D (pc_cache c) h = Some e)"
  by (auto simp: cache_abs_def)

lemma promote_abs:
  assumes D: "dashmap_laws D" and abs: "cache_abs D eb c xs" and "pc_counter c \<noteq> - 1"
  shows "cache_abs D eb (promote D h c) (if h \<in> set xs then h # removeAll h xs else xs)"
    and "pc_max_size (promote D h c) = pc_max_size c"
    and "pc_counter (promote D h c) \<in> {pc_counter c, pc_counter c + 1}"
proof -
  show "cache_abs D eb (promote D h c) (if h \<in> set xs then h # removeAll h xs else xs)"
  proof (cases "dm_get D (pc_cache c) h")
    case None
    then show ?thesis using abs cache_abs_mem [OF abs, of h] by (simp add: promote_def)
  next
    case (Some e)
    moreover have "h \<in> set xs" using cache_abs_mem [OF abs] Some by blast
    moreover have "cache_abs D eb (promote D h c) (h # removeAll h xs)"
      using Some D assms(3) \<open>h \<in> set xs\<close>
      by (intro cache_abs_front [OF abs, where e = "e\<lparr>ce_count_used := pc_counter c\<rparr>"])
        (simp_all add: promote_def cost_def)
    ultimately show ?thesis by simp
  qed
qed (auto simp: promote_def split: option.splits)

lemma record_abs:
  assumes D: "dashmap_laws D" and abs: "cache_abs D eb c xs"
  shows "cache_abs D eb (record_hit D h c) xs" "cache_abs D eb (record_miss D h c) xs"
proof -
  show "cache_abs D eb (record_hit D h c) xs"
  proof (cases "dm_get D (pc_cache c) h")
    case (Some e)
    then show ?thesis
      using D by (intro cache_abs_same_stamp [OF abs Some, where f = "e\<lparr>ce_hit_count := ce_hit_count e + 1\<rparr>"])
        (simp_all add: record_hit_def)
  qed (simp add: record_hit_def abs)
  show "cache_abs D eb (record_miss D h c) xs"
  proof (cases "dm_get D (pc_cache c) h")
    case (Some e)
    then show ?thesis
      using D by (intro cache_abs_same_stamp [OF abs Some, where f = "e\<lparr>ce_miss_count := ce_miss_count e + 1\<rparr>"])
        (simp_all add: record_miss_def)
  qed (simp add: record_miss_def abs)
qed

lemma record_simps [simp]:
  "pc_counter (record_hit D h c) = pc_counter c" "pc_counter (record_miss D h c) = pc_counter c"
  "pc_max_size (record_hit D h c) = pc_max_size c" "pc_max_size (record_miss D h c) = pc_max_size c"
  by (simp_all add: record_hit_def record_miss_def split: option.splits)

lemma get_or_insert_abs:
  assumes D: "dashmap_laws D" and abs: "cache_abs D eb (cw_pool w) xs" and ctr: "pc_counter (cw_pool w) \<noteq> - 1"
    and len: "length xs \<le> pc_max_size (cw_pool w)"
  obtains p w' where "get_or_insert D M eb now parse h name w = Some (p, w')"
    and "cache_abs D eb (cw_pool w') (take (pc_max_size (cw_pool w)) (h # removeAll h xs))"
    and "pc_max_size (cw_pool w') = pc_max_size (cw_pool w)"
    and "pc_counter (cw_pool w') = pc_counter (cw_pool w) + 1"
proof (cases "dm_get D (pc_cache (cw_pool w)) h")
  case (Some e)
  have h: "h \<in> set xs" using cache_abs_mem [OF abs] Some by blast
  have "length (h # removeAll h xs) \<le> pc_max_size (cw_pool w)"
    using len length_removeAll_less [OF h] by simp
  moreover obtain w' where w': "get_or_insert D M eb now parse h name w = Some (ce_parse e, w')"
    "dm_get D (pc_cache (cw_pool w')) = (dm_get D (pc_cache (cw_pool w)))(h \<mapsto>
       (if name = None then note_anonymous (e\<lparr>ce_count_used := pc_counter (cw_pool w)\<rparr>)
        else note_named (e\<lparr>ce_count_used := pc_counter (cw_pool w)\<rparr>)))"
    "pc_max_size (cw_pool w') = pc_max_size (cw_pool w)" "pc_counter (cw_pool w') = pc_counter (cw_pool w) + 1"
    "pc_memory (cw_pool w') = pc_memory (cw_pool w)"
    using Some D by (auto simp: get_or_insert_def Let_def)
  moreover from w' have "cache_abs D eb (cw_pool w') (h # removeAll h xs)"
    using ctr h Some by (intro cache_abs_front [OF abs w'(2)]) (simp_all add: cost_def)
  ultimately show thesis using that by simp
next
  case None
  have h: "h \<notin> set xs" using cache_abs_mem [OF abs] None by simp
  obtain t ins where iq: "intern_query M now (p_query parse) h (name = None) (cw_interners w) = (t, ins)"
    by fastforce
  obtain np ctr' where np: "parse_rewrite (cw_statement_counter w) (parse\<lparr>p_query := t\<rparr>) = (np, ctr')"
    by fastforce
  define e where "e = cache_entry_new np (pc_counter (cw_pool w)) (if name = None then KindAnonymous else KindNamed)"
  define c2 where "c2 = (cw_pool w)\<lparr>pc_counter := pc_counter (cw_pool w) + 1,
    pc_cache := dm_insert D h e (pc_cache (cw_pool w)), pc_memory := pc_memory (cw_pool w) + eb np\<rparr>"
  have "cache_abs D eb c2 (h # removeAll h xs)"
    using h ctr D by (intro cache_abs_front [OF abs, where e = e])
      (simp_all add: c2_def e_def cache_entry_new_def)
  then obtain c3 where "evict_excess D eb c2 = Some c3"
    "cache_abs D eb c3 (take (pc_max_size (cw_pool w)) (h # removeAll h xs))"
    "pc_max_size c3 = pc_max_size (cw_pool w)" "pc_counter c3 = pc_counter (cw_pool w) + 1"
    using evict_excess_abs [OF D] by (fastforce simp: c2_def)
  then show thesis
    using that None iq np by (simp add: get_or_insert_def Let_def c2_def e_def)
qed

section \<open>Runs of the cache\<close>

datatype cache_op =
    OpGetOrInsert parse_msg u64 "bytes option" u64
  | OpPromote u64
  | OpHit u64
  | OpMiss u64

primrec cache_step ::
  "('c, u64, cache_entry) dashmap \<Rightarrow> ('n, 'a) interner_maps \<Rightarrow> (parse_msg \<Rightarrow> u64) \<Rightarrow> cache_op
     \<Rightarrow> ('c, 'n, 'a) cache_world \<Rightarrow> ('c, 'n, 'a) cache_world option" where
  "cache_step D M eb (OpGetOrInsert parse h name now) w =
     map_option snd (get_or_insert D M eb now parse h name w)"
| "cache_step D M eb (OpPromote h) w = Some (w\<lparr>cw_pool := promote D h (cw_pool w)\<rparr>)"
| "cache_step D M eb (OpHit h) w = Some (w\<lparr>cw_pool := record_hit D h (cw_pool w)\<rparr>)"
| "cache_step D M eb (OpMiss h) w = Some (w\<lparr>cw_pool := record_miss D h (cw_pool w)\<rparr>)"

fun cache_run ::
  "('c, u64, cache_entry) dashmap \<Rightarrow> ('n, 'a) interner_maps \<Rightarrow> (parse_msg \<Rightarrow> u64) \<Rightarrow> cache_op list
     \<Rightarrow> ('c, 'n, 'a) cache_world \<Rightarrow> ('c, 'n, 'a) cache_world option" where
  "cache_run D M eb [] w = Some w"
| "cache_run D M eb (opn # ops) w = Option.bind (cache_step D M eb opn w) (cache_run D M eb ops)"

definition initial_world ::
  "('c, u64, cache_entry) dashmap \<Rightarrow> ('n, 'a) interner_maps \<Rightarrow> nat \<Rightarrow> ('c, 'n, 'a) cache_world" where
  "initial_world D M n = \<lparr>cw_pool = prepared_cache_new D n, cw_interners = reset_interners_force M,
     cw_statement_counter = 0\<rparr>"

text \<open>The reference: a list of hashes with move-to-front, cut to its capacity.\<close>

primrec lru_list_step :: "nat \<Rightarrow> cache_op \<Rightarrow> u64 list \<Rightarrow> u64 list" where
  "lru_list_step n (OpGetOrInsert parse h name now) xs = take n (h # removeAll h xs)"
| "lru_list_step n (OpPromote h) xs = (if h \<in> set xs then h # removeAll h xs else xs)"
| "lru_list_step n (OpHit h) xs = xs"
| "lru_list_step n (OpMiss h) xs = xs"

lemma counter_room: "unat (c :: u64) + Suc k < 2 ^ 64 \<Longrightarrow> c \<noteq> - 1 \<and> unat (c + 1) = Suc (unat c)"
proof -
  assume room: "unat c + Suc k < 2 ^ 64"
  then have "unat (c + 1) = Suc (unat c)"
    by (simp add: unat_word_ariths take_bit_nat_eq_self)
  moreover have "c \<noteq> - 1"
    using calculation by auto
  ultimately show "c \<noteq> - 1 \<and> unat (c + 1) = Suc (unat c)" by blast
qed

lemma cache_step_abs:
  assumes D: "dashmap_laws D" and abs: "cache_abs D eb (cw_pool w) xs"
    and room: "unat (pc_counter (cw_pool w)) + Suc k < 2 ^ 64"
    and len: "length xs \<le> pc_max_size (cw_pool w)"
  obtains w' where "cache_step D M eb opn w = Some w'"
    and "cache_abs D eb (cw_pool w') (lru_list_step (pc_max_size (cw_pool w)) opn xs)"
    and "pc_max_size (cw_pool w') = pc_max_size (cw_pool w)"
    and "unat (pc_counter (cw_pool w')) \<le> Suc (unat (pc_counter (cw_pool w)))"
    and "length (lru_list_step (pc_max_size (cw_pool w)) opn xs) \<le> pc_max_size (cw_pool w)"
proof (cases opn)
  case (OpGetOrInsert parse h name now)
  obtain p w' where "get_or_insert D M eb now parse h name w = Some (p, w')"
    and "cache_abs D eb (cw_pool w') (take (pc_max_size (cw_pool w)) (h # removeAll h xs))"
    and "pc_max_size (cw_pool w') = pc_max_size (cw_pool w)"
    and "pc_counter (cw_pool w') = pc_counter (cw_pool w) + 1"
    using get_or_insert_abs [OF D abs _ len] counter_room [OF room] by blast
  then show thesis
    using that counter_room [OF room] by (simp add: OpGetOrInsert)
next
  case (OpPromote h)
  have "length (h # removeAll h xs) \<le> length xs" if "h \<in> set xs"
    using length_removeAll_less [OF that] by simp
  then show thesis
    using promote_abs [OF D abs, of h] counter_room [OF room] len
    by (intro that [of "w\<lparr>cw_pool := promote D h (cw_pool w)\<rparr>"]) (auto simp: OpPromote)
qed (use that abs record_abs [OF D abs] len in simp_all)

lemma cache_run_abs:
  assumes D: "dashmap_laws D" and "cache_abs D eb (cw_pool w) xs"
    and "unat (pc_counter (cw_pool w)) + length ops < 2 ^ 64" and "length xs \<le> pc_max_size (cw_pool w)"
  shows "\<exists>w'. cache_run D M eb ops w = Some w'
    \<and> cache_abs D eb (cw_pool w') (fold (lru_list_step (pc_max_size (cw_pool w))) ops xs)
    \<and> length (fold (lru_list_step (pc_max_size (cw_pool w))) ops xs) \<le> pc_max_size (cw_pool w)"
  using assms(2-4)
proof (induction ops arbitrary: w xs)
  case (Cons opn ops)
  obtain w' where w': "cache_step D M eb opn w = Some w'"
    "cache_abs D eb (cw_pool w') (lru_list_step (pc_max_size (cw_pool w)) opn xs)"
    "pc_max_size (cw_pool w') = pc_max_size (cw_pool w)"
    "unat (pc_counter (cw_pool w')) \<le> Suc (unat (pc_counter (cw_pool w)))"
    "length (lru_list_step (pc_max_size (cw_pool w)) opn xs) \<le> pc_max_size (cw_pool w)"
    using cache_step_abs [OF D Cons.prems(1) _ Cons.prems(3), of "length ops"] Cons.prems(2) by auto
  then show ?case
    using Cons.IH [OF w'(2)] Cons.prems(2) by auto
qed simp

lemma initial_abs: "dashmap_laws D \<Longrightarrow> cache_abs D eb (cw_pool (initial_world D M n)) []"
  by (simp add: cache_abs_def initial_world_def prepared_cache_new_def dom_def)

section \<open>Statements and their names\<close>

definition statement_of :: "parse_msg \<Rightarrow> bytes \<times> u16 \<times> u32 list" where
  "statement_of p = (p_query p, p_num_params p, p_param_types p)"

text \<open>
  \<open>Q\<close> is the statement of a hash, as long as no two statements share one. The texts in the interners and
  the statements in the cache are those of their hashes, and the names given out are distinct.
\<close>

definition interned_ok :: "('n, 'a) interner_maps \<Rightarrow> (u64 \<Rightarrow> bytes \<times> u16 \<times> u32 list) \<Rightarrow> ('n, 'a) interners \<Rightarrow> bool" where
  "interned_ok M Q s \<longleftrightarrow>
     (\<forall>h e. dm_get (im_named M) (in_named s) h = Some e \<longrightarrow> ne_text e = fst (Q h))
     \<and> (\<forall>h e. dm_get (im_anon M) (in_anon s) h = Some e \<longrightarrow> ae_text e = fst (Q h))"

definition cached_ok ::
  "('c, u64, cache_entry) dashmap \<Rightarrow> (u64 \<Rightarrow> bytes \<times> u16 \<times> u32 list) \<Rightarrow> 'c prepared_cache \<Rightarrow> u64 \<Rightarrow> bool" where
  "cached_ok D Q c counter \<longleftrightarrow>
     (\<forall>h e. dm_get D (pc_cache c) h = Some e \<longrightarrow>
        statement_of (ce_parse e) = Q h \<and> (\<exists>k < counter. p_name (ce_parse e) = doorman_name k))
     \<and> (\<forall>h h' e e'. dm_get D (pc_cache c) h = Some e \<longrightarrow> dm_get D (pc_cache c) h' = Some e' \<longrightarrow>
          p_name (ce_parse e) = p_name (ce_parse e') \<longrightarrow> h = h')"

lemma intern_query_ok:
  assumes "interner_laws M" and "interned_ok M Q s" and "q = fst (Q h)"
    and "intern_query M now q h anon s = (t, s')"
  shows "t = q" and "interned_ok M Q s'"
  using assms
  by (auto simp: intern_query_def intern_anon_def intern_named_def interned_ok_def interner_laws_def
      anon_touch_def named_touch_def anon_entry_new_def named_entry_new_def split: if_splits option.splits)

lemma cached_okD:
  "cached_ok D Q c k \<Longrightarrow> dm_get D (pc_cache c) h = Some e \<Longrightarrow>
     statement_of (ce_parse e) = Q h \<and> (\<exists>j < k. p_name (ce_parse e) = doorman_name j)"
  unfolding cached_ok_def by blast

lemma cached_ok_mono:
  assumes "cached_ok D Q c k" and "dm_get D (pc_cache c') \<subseteq>\<^sub>m dm_get D (pc_cache c)"
  shows "cached_ok D Q c' k"
proof -
  have "dm_get D (pc_cache c) h = Some e" if "dm_get D (pc_cache c') h = Some e" for h e
    using assms(2) that by (metis domI map_le_def)
  then show ?thesis
    using assms(1) unfolding cached_ok_def by blast
qed

text \<open>Fresh names: the new entry of a hash has the next number.\<close>

lemma cached_ok_insert:
  assumes "cached_ok D Q c k" and "dm_get D (pc_cache c') = (dm_get D (pc_cache c))(h \<mapsto> e)"
    and "statement_of (ce_parse e) = Q h" "p_name (ce_parse e) = doorman_name k" "k < k'"
  shows "cached_ok D Q c' k'"
  using assms(1,3-5) unfolding cached_ok_def assms(2)
  by (auto 0 3 intro: less_trans split: if_splits)

lemma cached_ok_update:
  assumes "cached_ok D Q c k" and "dm_get D (pc_cache c) h = Some e" and "ce_parse e' = ce_parse e"
    and "dm_get D (pc_cache c') = (dm_get D (pc_cache c))(h \<mapsto> e')"
  shows "cached_ok D Q c' k"
  using assms(1-3) unfolding cached_ok_def assms(4) by (auto split: if_splits)

lemma get_or_insert_ok:
  assumes D: "dashmap_laws D" and M: "interner_laws M" and abs: "cache_abs D eb (cw_pool w) xs"
    and ctr: "pc_counter (cw_pool w) \<noteq> - 1" and names: "cw_statement_counter w \<noteq> - 1"
    and ok: "cached_ok D Q (cw_pool w) (cw_statement_counter w)" "interned_ok M Q (cw_interners w)"
    and parse: "statement_of parse = Q h" and goi: "get_or_insert D M eb now parse h name w = Some (p, w')"
  shows "cached_ok D Q (cw_pool w') (cw_statement_counter w') \<and> interned_ok M Q (cw_interners w')
    \<and> statement_of p = Q h \<and> (\<exists>k < cw_statement_counter w'. p_name p = doorman_name k)
    \<and> cw_statement_counter w' \<in> {cw_statement_counter w, cw_statement_counter w + 1}"
proof (cases "dm_get D (pc_cache (cw_pool w)) h")
  case (Some e)
  then have p: "p = ce_parse e" "cw_statement_counter w' = cw_statement_counter w" "cw_interners w' = cw_interners w"
    "dm_get D (pc_cache (cw_pool w')) = (dm_get D (pc_cache (cw_pool w)))(h \<mapsto>
       (if name = None then note_anonymous (e\<lparr>ce_count_used := pc_counter (cw_pool w)\<rparr>)
        else note_named (e\<lparr>ce_count_used := pc_counter (cw_pool w)\<rparr>)))"
    using goi D by (auto simp: get_or_insert_def Let_def)
  have "cached_ok D Q (cw_pool w') (cw_statement_counter w)"
    by (rule cached_ok_update [OF ok(1) Some _ p(4)]) simp
  then show ?thesis
    using cached_okD [OF ok(1) Some] ok(2) unfolding p(1-3) by blast
next
  case None
  obtain t ins where iq: "intern_query M now (p_query parse) h (name = None) (cw_interners w) = (t, ins)"
    by fastforce
  have t: "t = p_query parse" "interned_ok M Q ins"
    using intern_query_ok [OF M ok(2) _ iq] parse by (simp_all add: statement_of_def prod_eq_iff)
  define np where "np = parse\<lparr>p_name := doorman_name (cw_statement_counter w)\<rparr>"
  define e where "e = cache_entry_new np (pc_counter (cw_pool w)) (if name = None then KindAnonymous else KindNamed)"
  define c2 where "c2 = (cw_pool w)\<lparr>pc_counter := pc_counter (cw_pool w) + 1,
    pc_cache := dm_insert D h e (pc_cache (cw_pool w)), pc_memory := pc_memory (cw_pool w) + eb np\<rparr>"
  have get2: "dm_get D (pc_cache c2) = (dm_get D (pc_cache (cw_pool w)))(h \<mapsto> e)"
    using D by (simp add: c2_def)
  have "cache_abs D eb c2 (h # removeAll h xs)"
    using ctr None cache_abs_mem [OF abs, of h]
    by (intro cache_abs_front [OF abs get2]) (simp_all add: c2_def e_def cache_entry_new_def)
  then obtain c3 where c3: "evict_excess D eb c2 = Some c3"
    "dm_get D (pc_cache c3) \<subseteq>\<^sub>m dm_get D (pc_cache c2)"
    using evict_excess_abs [OF D] by blast
  have w': "p = np" "cw_pool w' = c3" "cw_interners w' = ins" "cw_statement_counter w' = cw_statement_counter w + 1"
    using goi None iq t(1) c3(1)
    by (auto simp: get_or_insert_def Let_def parse_rewrite_def np_def c2_def e_def)
  have less: "cw_statement_counter w < cw_statement_counter w + 1"
    using word_less_Suc [OF names] .
  have np: "statement_of np = Q h" "p_name np = doorman_name (cw_statement_counter w)"
    using parse by (simp_all add: np_def statement_of_def)
  have "cached_ok D Q c2 (cw_statement_counter w + 1)"
    using np less by (intro cached_ok_insert [OF ok(1) get2]) (simp_all add: e_def cache_entry_new_def)
  then show ?thesis
    using cached_ok_mono [OF _ c3(2)] t(2) w' np less by auto
qed

section \<open>Collection of interned texts\<close>

definition gc_next :: "bool \<Rightarrow> gc_state \<Rightarrow> gc_state option" where
  "gc_next candidate gc =
     (if \<not> candidate then Some GcActive else if gc = GcMarked then None else Some GcMarked)"

lemma sweep_entry_next:
  "sweep_entry candidate gc n st =
     (case gc_next candidate gc of
        None \<Rightarrow> (GcMarked, True, st\<lparr>gs_evicted := gs_evicted st + 1\<rparr>)
      | Some gc' \<Rightarrow> (gc', False, st\<lparr>gs_marked := gs_marked st + (if candidate then 1 else 0),
                                  gs_bytes := gs_bytes st + n\<rparr>))"
  by (simp add: sweep_entry_def gc_next_def)

lemma fold_sweep:
  fixes D :: "('m, u64, 'e) dashmap" and candidate :: "u64 \<Rightarrow> 'e \<Rightarrow> bool" and gc_of :: "'e \<Rightarrow> gc_state"
    and len :: "'e \<Rightarrow> u64" and upd :: "gc_state \<Rightarrow> 'e \<Rightarrow> 'e"
  defines "step \<equiv> \<lambda>(h, e) (st, m).
      let (gc, removed, st') = sweep_entry (candidate h e) (gc_of e) (len e) st
      in (st', if removed then dm_remove D h m else dm_insert D h (upd gc e) m)"
  assumes D: "dashmap_laws D" and "distinct (map fst es)"
  shows "dm_get D (snd (fold step es (st, m))) k =
      (case map_of es k of
         None \<Rightarrow> dm_get D m k
       | Some e \<Rightarrow> map_option (\<lambda>gc. upd gc e) (gc_next (candidate k e) (gc_of e)))"
    and "gs_evicted (fst (fold step es (st, m))) = gs_evicted st
       + of_nat (length (filter (\<lambda>(h, e). gc_next (candidate h e) (gc_of e) = None) es))"
    and "gs_bytes (fst (fold step es (st, m))) = gs_bytes st
       + (\<Sum>(h, e)\<leftarrow>es. if gc_next (candidate h e) (gc_of e) = None then 0 else len e)"
proof -
  have step: "step (h, e) (st, m) =
      (case gc_next (candidate h e) (gc_of e) of
         None \<Rightarrow> (st\<lparr>gs_evicted := gs_evicted st + 1\<rparr>, dm_remove D h m)
       | Some gc \<Rightarrow> (st\<lparr>gs_marked := gs_marked st + (if candidate h e then 1 else 0),
                       gs_bytes := gs_bytes st + len e\<rparr>, dm_insert D h (upd gc e) m))" for h e st m
    by (simp add: step_def sweep_entry_next split: option.split)
  show "dm_get D (snd (fold step es (st, m))) k =
      (case map_of es k of
         None \<Rightarrow> dm_get D m k
       | Some e \<Rightarrow> map_option (\<lambda>gc. upd gc e) (gc_next (candidate k e) (gc_of e)))"
    using assms(3)
  proof (induction es arbitrary: st m)
    case (Cons x es)
    obtain h e where x: "x = (h, e)" by fastforce
    have "map_of es h = None" using Cons.prems by (simp add: x map_of_eq_None_iff)
    then show ?case
      using Cons D by (auto simp: x step split: option.splits)
  qed simp
  show "gs_evicted (fst (fold step es (st, m))) = gs_evicted st
       + of_nat (length (filter (\<lambda>(h, e). gc_next (candidate h e) (gc_of e) = None) es))"
    by (induction es arbitrary: st m) (auto simp: step split: option.splits)
  show "gs_bytes (fst (fold step es (st, m))) = gs_bytes st
       + (\<Sum>(h, e)\<leftarrow>es. if gc_next (candidate h e) (gc_of e) = None then 0 else len e)"
    by (induction es arbitrary: st m) (auto simp: step split: option.splits)
qed

lemma gc_sweep_named_get:
  assumes "interner_laws M"
  shows "dm_get (im_named M) (in_named (snd (gc_sweep_named M strong s))) h =
    Option.bind (dm_get (im_named M) (in_named s) h) (\<lambda>e.
      map_option (\<lambda>gc. e\<lparr>ne_gc_state := gc\<rparr>) (gc_next (strong h = 1) (ne_gc_state e)))"
proof -
  have D: "dashmap_laws (im_named M)"
    using assms by (simp add: interner_laws_def)
  show ?thesis
    using fold_sweep(1) [OF D dm_iter_simps(1) [OF D], where candidate = "\<lambda>h e. strong h = 1"
        and gc_of = ne_gc_state and upd = "\<lambda>gc e. e\<lparr>ne_gc_state := gc\<rparr>" and len = "\<lambda>e. of_nat (length (ne_text e))"]
    by (simp add: gc_sweep_named_def split_beta dm_iter_simps(2) [OF D] split: option.split)
qed

lemma gc_sweep_anon_get:
  assumes "interner_laws M"
  shows "dm_get (im_anon M) (in_anon (snd (gc_sweep_anon M now ttl s))) h =
    Option.bind (dm_get (im_anon M) (in_anon s) h) (\<lambda>e.
      map_option (\<lambda>gc. e\<lparr>ae_gc_state := gc\<rparr>) (gc_next (idle_ms now e > ttl) (ae_gc_state e)))"
proof -
  have D: "dashmap_laws (im_anon M)"
    using assms by (simp add: interner_laws_def)
  show ?thesis
    using fold_sweep(1) [OF D dm_iter_simps(1) [OF D], where candidate = "\<lambda>h e. idle_ms now e > ttl"
        and gc_of = ae_gc_state and upd = "\<lambda>gc e. e\<lparr>ae_gc_state := gc\<rparr>" and len = "\<lambda>e. of_nat (length (ae_text e))"]
    by (simp add: gc_sweep_anon_def split_beta dm_iter_simps(2) [OF D] split: option.split)
qed

lemma intern_get:
  assumes "interner_laws M"
  shows "\<exists>e. dm_get (im_named M) (in_named (snd (intern_query M now q h False s))) h = Some e
      \<and> ne_gc_state e = GcActive"
    and "\<exists>e. dm_get (im_anon M) (in_anon (snd (intern_query M now q h True s))) h = Some e
      \<and> ae_gc_state e = GcActive \<and> ae_last_used e = now"
  using assms
  by (auto simp: intern_query_def intern_named_def intern_anon_def interner_laws_def named_touch_def
      anon_touch_def named_entry_new_def anon_entry_new_def split: option.splits)

section \<open>Properties\<close>

text \<open>
  C12. The cache of a pool behaves as a list with move-to-front and a bounded length: after any sequence of
  lookups, insertions, promotions and statistics updates from the empty cache, of fewer than \<open>2^64\<close>
  operations, every operation has returned (the eviction loop ends), the entries are those of the reference
  list in the order of their timestamps, there are never more than the configured number of them (one, if
  that is zero), and the byte counter is the sum over the entries.
\<close>

theorem pool_cache_is_lru:
  assumes "dashmap_laws D" and "length ops < 2 ^ 64"
  shows "\<exists>w. cache_run D M entry_bytes ops (initial_world D M n) = Some w
    \<and> cache_abs D entry_bytes (cw_pool w) (fold (lru_list_step (max 1 n)) ops [])
    \<and> dm_len D (pc_cache (cw_pool w)) \<le> max 1 n"
proof -
  have "pc_max_size (cw_pool (initial_world D M n)) = max 1 n" "pc_counter (cw_pool (initial_world D M n)) = 0"
    by (simp_all add: initial_world_def prepared_cache_new_def)
  then obtain w where "cache_run D M entry_bytes ops (initial_world D M n) = Some w"
    "cache_abs D entry_bytes (cw_pool w) (fold (lru_list_step (max 1 n)) ops [])"
    "length (fold (lru_list_step (max 1 n)) ops []) \<le> max 1 n"
    using cache_run_abs [OF assms(1) initial_abs [OF assms(1)], where ops = ops and M1 = M and M = M
        and n1 = n and eb = entry_bytes] assms(2) by auto
  then show ?thesis
    using cache_abs_len [OF assms(1)] by fastforce
qed

text \<open>
  C8. A cache shared by all clients hands out the right statements. If no two statements share a hash, the Parse
  message that \<^verbatim>\<open>get_or_insert\<close> returns has the text and the parameter types of the client's, under a name that
  the global counter has given out; the invariant it needs is kept: the interned texts and the cached
  statements are those of their hashes, and no two cached statements have the same name.
\<close>

theorem pool_cache_statements:
  assumes "dashmap_laws D" and "interner_laws M" and "cache_abs D entry_bytes (cw_pool w) xs"
    and "pc_counter (cw_pool w) \<noteq> - 1" and "cw_statement_counter w \<noteq> - 1"
    and "length xs \<le> pc_max_size (cw_pool w)"
    and "cached_ok D Q (cw_pool w) (cw_statement_counter w)" and "interned_ok M Q (cw_interners w)"
    and "statement_of parse = Q h"
  shows "\<exists>p w'. get_or_insert D M entry_bytes now parse h name w = Some (p, w')
    \<and> statement_of p = statement_of parse \<and> (\<exists>k < cw_statement_counter w'. p_name p = doorman_name k)
    \<and> cached_ok D Q (cw_pool w') (cw_statement_counter w') \<and> interned_ok M Q (cw_interners w')"
proof -
  obtain p w' where "get_or_insert D M entry_bytes now parse h name w = Some (p, w')"
    using get_or_insert_abs [OF assms(1,3,4,6)] by metis
  then show ?thesis
    using get_or_insert_ok [OF assms(1-5,7-9)] assms(9) by metis
qed

text \<open>
  C27. Interned texts are collected in two cycles. A named text disappears in two sweeps exactly when both find it
  unreferenced, or the first does and an earlier sweep had marked it; an anonymous one likewise with the idle
  time. An entry that is interned between the sweeps is kept.
\<close>

theorem interner_gc_two_cycles:
  assumes "interner_laws M" and "dm_get (im_named M) (in_named s) h = Some e"
    and "dm_get (im_anon M) (in_anon s) k = Some a"
  shows "(dm_get (im_named M) (in_named (snd (gc_sweep_named M r2 (snd (gc_sweep_named M r1 s))))) h = None
      \<longleftrightarrow> r1 h = 1 \<and> (ne_gc_state e = GcMarked \<or> r2 h = 1))
    \<and> (dm_get (im_anon M) (in_anon (snd (gc_sweep_anon M t2 ttl (snd (gc_sweep_anon M t1 ttl s))))) k = None
      \<longleftrightarrow> idle_ms t1 a > ttl \<and> (ae_gc_state a = GcMarked \<or> idle_ms t2 a > ttl))
    \<and> dm_get (im_named M) (in_named (snd (gc_sweep_named M r2
        (snd (intern_query M t q h False (snd (gc_sweep_named M r1 s))))))) h \<noteq> None
    \<and> dm_get (im_anon M) (in_anon (snd (gc_sweep_anon M t2 ttl
        (snd (intern_query M t q k True (snd (gc_sweep_anon M t1 ttl s))))))) k \<noteq> None"
proof -
  have idle: "idle_ms t (a\<lparr>ae_gc_state := g\<rparr>) = idle_ms t a" for t a g
    by (simp add: idle_ms_def)
  have "dm_get (im_named M) (in_named (snd (gc_sweep_named M r2
        (snd (intern_query M t q h False s'))))) h \<noteq> None" for s'
    using intern_get(1) [OF assms(1), of t q h s'] by (auto simp: gc_sweep_named_get [OF assms(1)] gc_next_def)
  moreover have "dm_get (im_anon M) (in_anon (snd (gc_sweep_anon M t2 ttl
        (snd (intern_query M t q k True s'))))) k \<noteq> None" for s'
    using intern_get(2) [OF assms(1), of t q k s'] by (auto simp: gc_sweep_anon_get [OF assms(1)] gc_next_def)
  ultimately show ?thesis
    using assms(2,3)
    by (auto simp: gc_sweep_named_get [OF assms(1)] gc_sweep_anon_get [OF assms(1)] gc_next_def idle)
qed

section \<open>Witnesses\<close>

definition list_interners ::
  "((u64 \<times> named_entry) list, (u64 \<times> anon_entry) list) interner_maps" where
  "list_interners = \<lparr>im_named = list_dashmap, im_anon = list_dashmap\<rparr>"

lemma list_interners_laws: "interner_laws list_interners"
  by (simp add: interner_laws_def list_interners_def list_dashmap_laws)

theorem pool_cache_is_lru_witness:
  "\<exists>w. cache_run list_dashmap list_interners (\<lambda>p. 64)
      [OpGetOrInsert (parse_from_parts [65] []) 7 None 0, OpGetOrInsert (parse_from_parts [66] []) 8 (Some [97]) 0,
       OpPromote 7, OpGetOrInsert (parse_from_parts [67] []) 9 None 0] (initial_world list_dashmap list_interners 2) = Some w
    \<and> cache_abs list_dashmap (\<lambda>p. 64) (cw_pool w) [9, 7]"
  using pool_cache_is_lru [OF list_dashmap_laws, of
      "[OpGetOrInsert (parse_from_parts [65] []) 7 None 0, OpGetOrInsert (parse_from_parts [66] []) 8 (Some [97]) 0,
       OpPromote 7, OpGetOrInsert (parse_from_parts [67] []) 9 None 0]" list_interners "\<lambda>p. 64" 2]
  by (simp del: cache_run.simps) blast

theorem pool_cache_statements_witness:
  "\<exists>p w'. get_or_insert list_dashmap list_interners (\<lambda>p. 64) 5 (parse_from_parts [65] [23]) 7 None
      (initial_world list_dashmap list_interners 1) = Some (p, w')
    \<and> statement_of p = ([65], 1, [23]) \<and> (\<exists>k < cw_statement_counter w'. p_name p = doorman_name k)"
proof -
  have "\<exists>p w'. get_or_insert list_dashmap list_interners (\<lambda>p. 64) 5 (parse_from_parts [65] [23]) 7 None
      (initial_world list_dashmap list_interners 1) = Some (p, w')
    \<and> statement_of p = statement_of (parse_from_parts [65] [23])
    \<and> (\<exists>k < cw_statement_counter w'. p_name p = doorman_name k)
    \<and> cached_ok list_dashmap (\<lambda>h. ([65], 1, [23])) (cw_pool w') (cw_statement_counter w')
    \<and> interned_ok list_interners (\<lambda>h. ([65], 1, [23])) (cw_interners w')"
    using list_interners_laws
    by (intro pool_cache_statements [OF list_dashmap_laws list_interners_laws initial_abs [OF list_dashmap_laws]])
      (simp_all add: initial_world_def prepared_cache_new_def cached_ok_def interned_ok_def interner_laws_def
        reset_interners_force_def list_dashmap_laws statement_of_def parse_from_parts_def)
  then show ?thesis
    by (auto simp: statement_of_def parse_from_parts_def)
qed

definition interned_example :: "((u64 \<times> named_entry) list, (u64 \<times> anon_entry) list) interners" where
  "interned_example = \<lparr>in_named = [(1, named_entry_new [65])], in_anon = [(2, anon_entry_new [66] 10)]\<rparr>"

theorem interner_gc_two_cycles_witness:
  "dm_get list_dashmap (in_named (snd (gc_sweep_named list_interners (\<lambda>h. 1)
      (snd (gc_sweep_named list_interners (\<lambda>h. 1) interned_example))))) 1 = None
   \<and> dm_get list_dashmap (in_anon (snd (gc_sweep_anon list_interners 60 40
      (snd (gc_sweep_anon list_interners 30 40 interned_example))))) 2 \<noteq> None"
proof -
  have named: "dm_get (im_named list_interners) (in_named interned_example) 1 = Some (named_entry_new [65])"
    and anon: "dm_get (im_anon list_interners) (in_anon interned_example) 2 = Some (anon_entry_new [66] 10)"
    by (simp_all add: list_interners_def list_dashmap_def interned_example_def)
  show ?thesis
    using interner_gc_two_cycles [OF list_interners_laws named anon, of "\<lambda>h. 1" "\<lambda>h. 1" 60 40 30 0 "[]"]
    by (simp add: list_interners_def named_entry_new_def anon_entry_new_def idle_ms_def saturating_sub_def)
qed

end
