(* ===== verification/Socket.thy ===== *)
theory Socket imports Backend_Messages begin

text \<open>
  Reading and copying messages: \<^verbatim>\<open>src/src/messages/socket.rs\<close>.

  A stream that is read is the list of bytes the peer delivers before it closes, so a read either
  finds its bytes or meets the end of the stream. The reusable buffer of a connection is cleared
  before it is filled; only its capacity, which is not modelled, survives a call. The global memory
  counter is an argument and a result.
\<close>

section \<open>Errors\<close>

datatype error =
    SocketErr
  | SyncErr
  | CurrentMemoryUsage
  | ProxyTimeout
  | MaxMessageSize
  | FlushTimeout
  | QueryError
  | PreparedStatementError
  | ClientError
  | CodecErr codec_error
  | PanicErr

section \<open>Reading a message\<close>

definition MAX_MESSAGE_SIZE :: u32 where
  "MAX_MESSAGE_SIZE = 256 * 1024 * 1024"

definition read_message_header :: "bytes \<Rightarrow> error + ((u8 \<times> u32) \<times> bytes)" where
  "read_message_header s =
     (case s of
        c # a # b # d # e # r \<Rightarrow> Inr ((c, be32 a b d e), r)
      | _ \<Rightarrow> Inl SocketErr)"

text \<open>\<^verbatim>\<open>read_exact\<close> on the rest of a buffer of \<^verbatim>\<open>len + 1\<close> bytes that already holds the header.\<close>

definition read_exact_body :: "u8 \<Rightarrow> u32 \<Rightarrow> bytes \<Rightarrow> error + (bytes \<times> bytes)" where
  "read_exact_body c len s =
     (let n = nat (sint len) - 4
      in if length s < n then Inl SocketErr
         else Inr (c # put_i32 len @ take n s, drop n s))"

definition read_message_body_reuse :: "u8 \<Rightarrow> u32 \<Rightarrow> bytes \<Rightarrow> error + (bytes \<times> bytes)" where
  "read_message_body_reuse c len s =
     (if len <s 4 then Inl SyncErr else read_exact_body c len s)"

definition read_message_data :: "u8 \<Rightarrow> u32 \<Rightarrow> bytes \<Rightarrow> error + (bytes \<times> bytes)" where
  "read_message_data c len s =
     (if len <s 4 then Inl SyncErr
      else if MAX_MESSAGE_SIZE <s len then Inl SyncErr
      else read_exact_body c len s)"

text \<open>
  The memory accounting around a read: \<^verbatim>\<open>fetch_add\<close>, the limit on the sum read as an unsigned
  number, and \<^verbatim>\<open>fetch_sub\<close> on both ways out.
\<close>

definition accounted :: "u64 \<Rightarrow> u32 \<Rightarrow> error + 'a \<Rightarrow> u64 \<Rightarrow> (error + 'a) \<times> u64" where
  "accounted max_memory_usage len result memory =
     (let prev = memory; memory = memory + scast len
      in if max_memory_usage < prev + scast len then (Inl CurrentMemoryUsage, memory - scast len)
         else (result, memory - scast len))"

definition read_message :: "u64 \<Rightarrow> bytes \<Rightarrow> u64 \<Rightarrow> (error + (bytes \<times> bytes)) \<times> u64" where
  "read_message max_memory_usage s memory =
     (case read_message_header s of
        Inl e \<Rightarrow> (Inl e, memory)
      | Inr ((c, len), r) \<Rightarrow> accounted max_memory_usage len (read_message_data c len r) memory)"

definition read_message_reuse :: "u64 \<Rightarrow> bytes \<Rightarrow> u64 \<Rightarrow> (error + (bytes \<times> bytes)) \<times> u64" where
  "read_message_reuse max_memory_usage s memory =
     (case read_message_header s of
        Inl e \<Rightarrow> (Inl e, memory)
      | Inr ((c, len), r) \<Rightarrow>
          if len <s 4 then (Inl SyncErr, memory)
          else if MAX_MESSAGE_SIZE <s len then (Inl SyncErr, memory)
          else accounted max_memory_usage len (read_exact_body c len r) memory)"

section \<open>Copying a payload\<close>

text \<open>
  What one call of \<^verbatim>\<open>read\<close> or \<^verbatim>\<open>write\<close> does: it moves at most the given number of bytes, or
  fails, or the deadline of the caller expires first. The copy without a deadline never meets
  \<open>Expire\<close>.
\<close>

datatype io_event = Progress nat | Fail | Expire

definition MAX_BUFFER_CHUNK :: nat where
  "MAX_BUFFER_CHUNK = 4096"

text \<open>Writing one chunk: the outcome, the bytes that reached the writer, and the next write.\<close>

function write_chunk :: "(nat \<Rightarrow> io_event) \<Rightarrow> nat \<Rightarrow> bytes \<Rightarrow> error option \<times> bytes \<times> nat" where
  "write_chunk wr j bs =
     (if bs = [] then (None, [], j)
      else (case wr j of
              Fail \<Rightarrow> (Some SocketErr, [], Suc j)
            | Expire \<Rightarrow> (Some ProxyTimeout, [], Suc j)
            | Progress k \<Rightarrow>
                if k = 0 then (Some SocketErr, [], Suc j)
                else (let n = min k (length bs); (e, out, j') = write_chunk wr (Suc j) (drop n bs)
                      in (e, take n bs @ out, j'))))"
  by pat_completeness auto
termination
  by (relation "measure (\<lambda>(wr, j, bs). length bs)") auto

declare write_chunk.simps [simp del]

definition bytes_read :: "nat \<Rightarrow> nat \<Rightarrow> bytes \<Rightarrow> nat" where
  "bytes_read k buffer_size s = min (max 1 k) (min buffer_size (length s))"

function copy_loop ::
  "(nat \<Rightarrow> io_event) \<Rightarrow> (nat \<Rightarrow> io_event) \<Rightarrow> nat \<Rightarrow> nat \<Rightarrow> nat \<Rightarrow> nat \<Rightarrow> bytes
     \<Rightarrow> error option \<times> bytes \<times> bytes" where
  "copy_loop rd wr i j buffer_size bytes_remained s =
     (case rd i of
        Fail \<Rightarrow> (Some SocketErr, [], s)
      | Expire \<Rightarrow> (Some ProxyTimeout, [], s)
      | Progress k \<Rightarrow>
          (let n = bytes_read k buffer_size s
           in if n = 0 then (Some SocketErr, [], s)
              else (let (e, out, j') = write_chunk wr j (take n s); remained = bytes_remained - n
                    in if e \<noteq> None then (e, out, drop n s)
                       else if remained = 0 then (None, out, drop n s)
                       else (let (e', out', s') =
                               copy_loop rd wr (Suc i) j'
                                 (if remained < buffer_size then remained else buffer_size)
                                 remained (drop n s)
                             in (e', out @ out', s')))))"
  by pat_completeness auto
termination
  by (relation "measure (\<lambda>(rd, wr, i, j, b, n, s). length s)") (auto simp: bytes_read_def)

declare copy_loop.simps [simp del]

text \<open>The outcome, the bytes that reached the writer (\<^verbatim>\<open>copied\<close> is their number), and the unread rest.\<close>

definition proxy_copy_data ::
  "(nat \<Rightarrow> io_event) \<Rightarrow> (nat \<Rightarrow> io_event) \<Rightarrow> nat \<Rightarrow> bytes \<Rightarrow> error option \<times> bytes \<times> bytes" where
  "proxy_copy_data rd wr len s = copy_loop rd wr 0 0 (min MAX_BUFFER_CHUNK len) len s"

section \<open>What the readers deliver\<close>

text \<open>A message that was read is one frame of the stream, and reading it leaves what follows.\<close>

lemma read_header_Inr:
  "read_message_header s = Inr ((c, len), r) \<longleftrightarrow> s = c # put_i32 len @ r"
proof
  show "read_message_header s = Inr ((c, len), r) \<Longrightarrow> s = c # put_i32 len @ r"
    by (auto simp: read_message_header_def split: list.splits)
  show "s = c # put_i32 len @ r \<Longrightarrow> read_message_header s = Inr ((c, len), r)"
    by (simp add: read_message_header_def put_i32_def)
qed

lemma sint_len_bounds:
  assumes "\<not> (len :: u32) <s 4"
  shows "4 \<le> unat len" "nat (sint len) = unat len"
proof -
  have ge: "4 \<le> sint len"
    using assms by (simp add: word_sless_alt)
  moreover have "sint len < 2 ^ 31"
    using sint_lt [of len] by simp
  ultimately have "uint len = sint len"
    unfolding uint_sint by (simp add: take_bit_int_eq_self)
  with ge show "4 \<le> unat len" "nat (sint len) = unat len"
    by (simp_all flip: nat_uint_eq)
qed

lemma read_exact_body_frame:
  assumes "\<not> len <s 4"
  shows "read_exact_body c len s = Inr (msg, r) \<longleftrightarrow>
    (\<exists>p. msg = frame_bytes (c, p) \<and> s = p @ r \<and> unat len = 4 + length p)"
proof -
  have len: "of_nat (length p) + 4 = len" if "unat len = 4 + length p" for p :: bytes
    using that by (metis add.commute of_nat_add of_nat_numeral of_nat_unat ucast_id)
  have "\<exists>p. msg = frame_bytes (c, p) \<and> s = p @ r \<and> unat len = 4 + length p"
    if "read_exact_body c len s = Inr (msg, r)"
  proof (intro exI conjI)
    let ?p = "take (unat len - 4) s"
    show n: "unat len = 4 + length ?p" and "s = ?p @ r"
      using that sint_len_bounds [OF assms]
      by (auto simp: read_exact_body_def Let_def split: if_splits)
    show "msg = frame_bytes (c, ?p)"
      using that sint_len_bounds [OF assms] len [OF n]
      by (auto simp: read_exact_body_def Let_def frame_bytes_def split: if_splits)
  qed
  moreover have "read_exact_body c len (p @ r) = Inr (frame_bytes (c, p), r)"
    if "unat len = 4 + length p" for p
    using that len [OF that] sint_len_bounds [OF assms]
    by (simp add: read_exact_body_def Let_def frame_bytes_def)
  ultimately show ?thesis by blast
qed

lemma signed_len_unsigned:
  assumes "\<not> (len :: u32) <s 4"
  shows "(scast len :: u64) = of_nat (unat len)"
proof -
  have "0 \<le> sint len"
    using assms by (simp add: word_sless_alt)
  then have "sint len = int (unat len)"
    using sint_len_bounds(2) [OF assms] by linarith
  then show ?thesis
    by (simp only: scast_eq of_int_of_nat_eq)
qed

lemma MAX_MESSAGE_SIZE_less:
  assumes "\<not> (len :: u32) <s 4"
  shows "\<not> MAX_MESSAGE_SIZE <s len \<longleftrightarrow> unat len \<le> 256 * 1024 * 1024"
proof -
  have "0 \<le> sint len"
    using assms by (simp add: word_sless_alt)
  moreover have "sint MAX_MESSAGE_SIZE = 256 * 1024 * 1024"
    by (simp add: MAX_MESSAGE_SIZE_def)
  ultimately show ?thesis
    using sint_len_bounds(2) [OF assms] by (simp add: word_sless_alt nat_le_iff linorder_not_less flip: sint_len_bounds(2) [OF assms])
qed


section \<open>What the copy delivers\<close>

lemma write_chunk_prefix:
  "write_chunk wr j bs = (e, out, j') \<Longrightarrow> \<exists>rest. bs = out @ rest \<and> (e = None \<longrightarrow> rest = [])"
proof (induction wr j bs arbitrary: e out j' rule: write_chunk.induct)
  case (1 wr j bs)
  show ?case
  proof (cases "bs \<noteq> [] \<and> (\<exists>k. wr j = Progress k \<and> k \<noteq> 0)")
    case True
    then obtain k where k: "wr j = Progress k" "k \<noteq> 0" "bs \<noteq> []" by blast
    let ?n = "min k (length bs)"
    obtain e2 out2 j2 where w: "write_chunk wr (Suc j) (drop ?n bs) = (e2, out2, j2)"
      by (rule prod_cases3)
    have "drop ?n bs = out2 @ drop (length out2) (drop ?n bs) \<and> (e2 = None \<longrightarrow> length out2 \<ge> length (drop ?n bs))"
      using "1.IH" [OF k(3,1,2) refl w] by force
    moreover have "e = e2" "out = take ?n bs @ out2"
      using "1.prems" k w by (simp_all add: write_chunk.simps [of wr j bs] Let_def)
    ultimately show ?thesis
      by (metis append.assoc append_take_drop_id drop_all)
  next
    case False
    then show ?thesis
      using "1.prems" by (auto simp: write_chunk.simps [of wr j bs] split: io_event.splits if_splits)
  qed
qed

lemma write_chunk_completes:
  "\<forall>j. \<exists>k > 0. wr j = Progress k \<Longrightarrow> fst (write_chunk wr j bs) = None"
proof (induction wr j bs rule: write_chunk.induct)
  case (1 wr j bs)
  obtain k where k: "wr j = Progress k" "k \<noteq> 0"
    using "1.prems" by blast
  show ?case
  proof (cases "bs = []")
    case False
    have "fst (write_chunk wr (Suc j) (drop (min k (length bs)) bs)) = None"
      by (rule "1.IH" [OF False k(1) k(2) refl "1.prems"])
    then show ?thesis
      using k False by (auto simp: write_chunk.simps [of wr j bs] Let_def split: prod.split)
  qed (simp add: write_chunk.simps)
qed

lemma copy_loop_Progress:
  assumes "rd i = Progress k" and "n = bytes_read k b s" and "n \<noteq> 0"
    and "write_chunk wr j (take n s) = (e1, out1, j1)"
    and "copy_loop rd wr (Suc i) j1 (min (m - n) b) (m - n) (drop n s) = (e2, out2, s2)"
  shows "copy_loop rd wr i j b m s =
    (if e1 \<noteq> None then (e1, out1, drop n s)
     else if m - n = 0 then (None, out1, drop n s)
     else (e2, out1 @ out2, s2))"
proof -
  have "min (m - n) b = (if m - n < b then m - n else b)" by simp
  then show ?thesis
    using assms unfolding copy_loop.simps [of rd wr i j b m s] by (simp only: Let_def io_event.case prod.case) auto
qed

lemma copy_loop_prefix:
  "copy_loop rd wr i j b m s = (e, out, s') \<Longrightarrow> b \<le> m \<Longrightarrow> 0 < m \<Longrightarrow>
    \<exists>mid. s = out @ mid @ s' \<and> length (out @ mid) \<le> m \<and> (e = None \<longrightarrow> mid = [] \<and> length out = m)"
proof (induction s arbitrary: i j b m e out s' rule: length_induct)
  case (1 s)
  show ?case
  proof (cases "\<exists>k. rd i = Progress k \<and> bytes_read k b s \<noteq> 0")
    case True
    then obtain k n where k: "rd i = Progress k" "n = bytes_read k b s" "n \<noteq> 0" by blast
    obtain e1 out1 j1 where w: "write_chunk wr j (take n s) = (e1, out1, j1)" by (rule prod_cases3)
    obtain e2 out2 s2 where c:
      "copy_loop rd wr (Suc i) j1 (min (m - n) b) (m - n) (drop n s) = (e2, out2, s2)"
      by (rule prod_cases3)
    note step = copy_loop_Progress [OF k w c]
    have n: "n \<le> length s" "n \<le> m" "0 < n"
      using k "1.prems" by (auto simp: bytes_read_def)
    obtain rest where rest: "take n s = out1 @ rest" "e1 = None \<longrightarrow> rest = []"
      using write_chunk_prefix [OF w] by blast
    then have s: "s = out1 @ rest @ drop n s"
      by (metis append.assoc append_take_drop_id)
    have out1: "length out1 + length rest = n"
      using arg_cong [OF rest(1), of length] n by simp
    show ?thesis
    proof (cases "e1 = None \<and> m - n \<noteq> 0")
      case True
      have "\<exists>mid. drop n s = out2 @ mid @ s2 \<and> length (out2 @ mid) \<le> m - n \<and>
          (e2 = None \<longrightarrow> mid = [] \<and> length out2 = m - n)"
        using "1.IH" [rule_format, of "drop n s", OF _ c] True n by simp
      then obtain mid where d: "drop n s = out2 @ mid @ s2" "length (out2 @ mid) \<le> m - n"
          "e2 = None \<longrightarrow> mid = [] \<and> length out2 = m - n" by blast
      then show ?thesis
        using step "1.prems"(1) True rest(2) out1 n trans [OF s, of "out1 @ rest @ out2 @ mid @ s2"]
        by (intro exI [of _ mid]) auto
    next
      case False
      then show ?thesis
        using step "1.prems" s rest n out1 by (intro exI [of _ rest]) (auto split: if_splits)
    qed
  next
    case False
    then show ?thesis
      using "1.prems" by (auto simp: copy_loop.simps [of rd wr i j b m s] Let_def split: io_event.splits)
  qed
qed

lemma copy_loop_completes:
  assumes "\<forall>i. \<exists>k. rd i = Progress k" and "\<forall>j. \<exists>k > 0. wr j = Progress k"
  shows "0 < b \<Longrightarrow> b \<le> m \<Longrightarrow> m \<le> length s \<Longrightarrow> fst (copy_loop rd wr i j b m s) = None"
proof (induction s arbitrary: i j b m rule: length_induct)
  case (1 s)
  obtain k where r: "rd i = Progress k"
    using assms(1) by blast
  define n where "n = bytes_read k b s"
  have n: "0 < n" "n \<le> b" "n \<le> length s"
    using "1.prems" by (auto simp: bytes_read_def n_def)
  have k: "rd i = Progress k" "n = bytes_read k b s" "n \<noteq> 0"
    using r n by (simp_all add: n_def)
  obtain e1 out1 j1 where w: "write_chunk wr j (take n s) = (e1, out1, j1)" by (rule prod_cases3)
  obtain e2 out2 s2 where c:
    "copy_loop rd wr (Suc i) j1 (min (m - n) b) (m - n) (drop n s) = (e2, out2, s2)"
    by (rule prod_cases3)
  have "e1 = None"
    using write_chunk_completes [OF assms(2), of j "take n s"] w by simp
  moreover have "e2 = None" if "m - n \<noteq> 0"
    using "1.IH" [rule_format, of "drop n s" "min (m - n) b" "m - n" "Suc i" j1] that c n "1.prems"
    by simp
  ultimately show ?case
    by (simp add: copy_loop_Progress [OF k w c])
qed

lemma proxy_copy_data_Ok:
  assumes "proxy_copy_data rd wr len s = (None, out, rest)"
  shows "s = out @ rest" "length out = len" "0 < len"
proof -
  have "\<not> 0 < len \<Longrightarrow> fst (copy_loop rd wr 0 0 (min MAX_BUFFER_CHUNK len) len s) \<noteq> None"
    by (simp add: copy_loop.simps bytes_read_def split: io_event.split)
  with assms show "0 < len"
    unfolding proxy_copy_data_def by (metis fst_conv)
  then have "\<exists>mid. s = out @ mid @ rest \<and> mid = [] \<and> length out = len"
    using copy_loop_prefix [OF assms [unfolded proxy_copy_data_def]] by auto
  then show "s = out @ rest" "length out = len" by auto
qed



end
