(* ===== verification/Server_Session.thy ===== *)
theory Server_Session imports Socket Session_Parameters Collections begin

text \<open>
  A connection to a PostgreSQL server: \<^verbatim>\<open>src/src/server/protocol_io.rs\<close>,
  \<^verbatim>\<open>server_backend.rs\<close> (everything after the startup of the connection), \<^verbatim>\<open>cleanup.rs\<close>,
  \<^verbatim>\<open>prepared_statements.rs\<close>, and the error parser of \<^verbatim>\<open>src/src/messages/error.rs\<close>.

  The state of a connection holds the bytes the server is still going to deliver, the messages that
  were flushed to it and the number of flushes the socket still takes; statistics, logging and
  timestamps are left out. The cache of prepared statements is the third-party \<^verbatim>\<open>LruCache\<close>, a
  parameter. Messages that pg\_doorman drops are read into a sink that takes everything.
\<close>

section \<open>Error responses\<close>

record pg_error =
  severity_localized :: bytes
  severity :: bytes
  e_code :: bytes
  e_message :: bytes
  detail :: "bytes option"
  hint :: "bytes option"
  e_position :: "u32 option"
  internal_position :: "u32 option"
  internal_query :: "bytes option"
  where_context :: "bytes option"
  schema_name :: "bytes option"
  table_name :: "bytes option"
  column_name :: "bytes option"
  data_type_name :: "bytes option"
  constraint_name :: "bytes option"
  file_name :: "bytes option"
  e_line :: "u32 option"
  routine :: "bytes option"

definition empty_pg_error :: pg_error where
  "empty_pg_error = \<lparr>severity_localized = [], severity = [], e_code = [], e_message = [],
     detail = None, hint = None, e_position = None, internal_position = None, internal_query = None,
     where_context = None, schema_name = None, table_name = None, column_name = None,
     data_type_name = None, constraint_name = None, file_name = None, e_line = None, routine = None\<rparr>"

text \<open>\<^verbatim>\<open>u32::from_str(..).unwrap_or(0)\<close>.\<close>

definition number_or_zero :: "bytes \<Rightarrow> u32" where
  "number_or_zero v =
     (case parse_uint (2 ^ 32) (map (\<lambda>b. char_of (unat b)) v) of Some n \<Rightarrow> of_nat n | None \<Rightarrow> 0)"

definition set_error_field :: "u8 \<Rightarrow> bytes \<Rightarrow> pg_error \<Rightarrow> pg_error" where
  "set_error_field t v e =
     (if t = code (CHR ''S'') then e\<lparr>severity_localized := v\<rparr>
      else if t = code (CHR ''V'') then e\<lparr>severity := v\<rparr>
      else if t = code (CHR ''C'') then e\<lparr>e_code := v\<rparr>
      else if t = code (CHR ''M'') then e\<lparr>e_message := v\<rparr>
      else if t = code (CHR ''D'') then e\<lparr>detail := Some v\<rparr>
      else if t = code (CHR ''H'') then e\<lparr>hint := Some v\<rparr>
      else if t = code (CHR ''P'') then e\<lparr>e_position := Some (number_or_zero v)\<rparr>
      else if t = code (CHR ''p'') then e\<lparr>internal_position := Some (number_or_zero v)\<rparr>
      else if t = code (CHR ''q'') then e\<lparr>internal_query := Some v\<rparr>
      else if t = code (CHR ''W'') then e\<lparr>where_context := Some v\<rparr>
      else if t = code (CHR ''s'') then e\<lparr>schema_name := Some v\<rparr>
      else if t = code (CHR ''t'') then e\<lparr>table_name := Some v\<rparr>
      else if t = code (CHR ''c'') then e\<lparr>column_name := Some v\<rparr>
      else if t = code (CHR ''d'') then e\<lparr>data_type_name := Some v\<rparr>
      else if t = code (CHR ''n'') then e\<lparr>constraint_name := Some v\<rparr>
      else if t = code (CHR ''F'') then e\<lparr>file_name := Some v\<rparr>
      else if t = code (CHR ''L'') then e\<lparr>e_line := Some (number_or_zero v)\<rparr>
      else if t = code (CHR ''R'') then e\<lparr>routine := Some v\<rparr>
      else e)"

function error_fields_loop :: "bytes \<Rightarrow> pg_error \<Rightarrow> pg_error" where
  "error_fields_loop [] out = out"
| "error_fields_loop (t # r) out =
     (if t = 0 then out
      else (let v = takeWhile (\<lambda>b. b \<noteq> 0) r
            in error_fields_loop (drop (length v + 1) r) (set_error_field t v out)))"
  by pat_completeness auto
termination
  by (relation "measure (\<lambda>(bs, out). length bs)") auto

definition pg_error_parse :: "bytes \<Rightarrow> pg_error" where
  "pg_error_parse error_msg = error_fields_loop error_msg empty_pg_error"

section \<open>The state of a connection\<close>

record cleanup_state =
  needs_cleanup_set :: bool
  needs_cleanup_prepare :: bool
  needs_cleanup_declare :: bool

definition cleanup_new :: cleanup_state where
  "cleanup_new = \<lparr>needs_cleanup_set = False, needs_cleanup_prepare = False, needs_cleanup_declare = False\<rparr>"

definition needs_cleanup :: "cleanup_state \<Rightarrow> bool" where
  "needs_cleanup c \<longleftrightarrow> needs_cleanup_set c \<or> needs_cleanup_prepare c \<or> needs_cleanup_declare c"

definition cleanup_set_true :: "cleanup_state \<Rightarrow> cleanup_state" where
  "cleanup_set_true c =
     c\<lparr>needs_cleanup_set := True, needs_cleanup_prepare := True, needs_cleanup_declare := True\<rparr>"

definition cleanup_reset :: "cleanup_state \<Rightarrow> cleanup_state" where
  "cleanup_reset c =
     c\<lparr>needs_cleanup_set := False, needs_cleanup_prepare := False, needs_cleanup_declare := False\<rparr>"

datatype cleanup_mode = CleanupOff | Adaptive | Always

record 'l server =
  sv_stream :: bytes
  sv_sent :: "bytes list"
  sv_writable :: nat
  sv_buffer :: bytes
  in_transaction :: bool
  data_available :: bool
  in_copy_mode :: bool
  async_mode :: bool
  expected_responses :: u32
  bad :: bool
  cleanup_st :: cleanup_state
  cleanup_connections :: cleanup_mode
  cleanup_server_query :: "bytes option"
  used_since_cleanup :: bool
  resetting :: bool
  prepared_cache_of :: "'l option"
  registering_prepared_statement :: "bytes list"
  has_pending_cache_entries :: bool
  deferred_eviction_closes :: "bytes list"
  session_mode :: bool
  max_message_size :: u32
  pending_large_message :: "(u8 \<times> u32) option"
  operator_managed_startup_keys :: "bytes set"
  last_sql_error :: "(bytes \<times> bytes) option"
  server_parameters :: server_params

definition mark_bad :: "'l server \<Rightarrow> 'l server" where
  "mark_bad sv = sv\<lparr>bad := True\<rparr>"

definition mark_dirty :: "'l server \<Rightarrow> 'l server" where
  "mark_dirty sv = sv\<lparr>cleanup_st := cleanup_set_true (cleanup_st sv)\<rparr>"

definition decrement_expected :: "'l server \<Rightarrow> 'l server" where
  "decrement_expected sv =
     sv\<lparr>expected_responses := (if expected_responses sv = 0 then 0 else expected_responses sv - 1)\<rparr>"

definition custom_cleanup_enabled :: "'l server \<Rightarrow> bool" where
  "custom_cleanup_enabled sv \<longleftrightarrow>
     cleanup_connections sv \<noteq> CleanupOff \<and> cleanup_server_query sv \<noteq> None"

text \<open>The \<^verbatim>\<open>?\<close> operator on a computation that also changes a state.\<close>

definition and_then :: "(error + 'a) \<times> 's \<Rightarrow> ('a \<Rightarrow> 's \<Rightarrow> (error + 'b) \<times> 's) \<Rightarrow> (error + 'b) \<times> 's" where
  "and_then m f = (case fst m of Inl e \<Rightarrow> (Inl e, snd m) | Inr x \<Rightarrow> f x (snd m))"

lemma and_then_Inr:
  "and_then m f = (Inr x, s') \<longleftrightarrow> (\<exists>y s. m = (Inr y, s) \<and> f y s = (Inr x, s'))"
  by (cases m; cases "fst m") (auto simp: and_then_def)

section \<open>Writing\<close>

text \<open>\<^verbatim>\<open>protocol_io::send_and_flush\<close>: a flush succeeds or the connection is broken.\<close>

definition send_bytes :: "bytes \<Rightarrow> 'l server \<Rightarrow> (error + unit) \<times> 'l server" where
  "send_bytes messages sv =
     (if sv_writable sv = 0 then (Inl SocketErr, mark_bad sv)
      else (Inr (), sv\<lparr>sv_sent := sv_sent sv @ [messages], sv_writable := sv_writable sv - 1\<rparr>))"

definition send_bytes_timeout :: "bool \<Rightarrow> bytes \<Rightarrow> 'l server \<Rightarrow> (error + unit) \<times> 'l server" where
  "send_bytes_timeout expired messages sv =
     (if expired then (Inl FlushTimeout, mark_bad sv) else send_bytes messages sv)"

definition note_use :: "'l server \<Rightarrow> 'l server" where
  "note_use sv = sv\<lparr>used_since_cleanup := used_since_cleanup sv \<or> cleanup_connections sv = Always\<rparr>"

definition send_and_flush :: "bytes \<Rightarrow> 'l server \<Rightarrow> (error + unit) \<times> 'l server" where
  "send_and_flush messages sv = send_bytes messages (note_use sv)"

definition send_and_flush_timeout :: "bool \<Rightarrow> bytes \<Rightarrow> 'l server \<Rightarrow> (error + unit) \<times> 'l server" where
  "send_and_flush_timeout expired messages sv = send_bytes_timeout expired messages (note_use sv)"

section \<open>The names a server knows\<close>

type_synonym 'l names = "('l, bytes, unit) lru"

definition add_to_cache :: "'l names \<Rightarrow> bytes \<Rightarrow> 'l option \<Rightarrow> bytes option \<times> 'l option" where
  "add_to_cache L name cache =
     (case cache of
        None \<Rightarrow> (None, None)
      | Some l \<Rightarrow>
          (let (evicted, l') = lru_push L name () l
           in (case evicted of
                 Some (evicted_name, _) \<Rightarrow> if evicted_name \<noteq> name then Some evicted_name else None
               | None \<Rightarrow> None, Some l')))"

definition remove_from_cache :: "'l names \<Rightarrow> bytes \<Rightarrow> 'l option \<Rightarrow> 'l option" where
  "remove_from_cache L name cache = map_option (\<lambda>l. snd (lru_pop L name l)) cache"

definition has_in_cache :: "'l names \<Rightarrow> bytes \<Rightarrow> 'l option \<Rightarrow> bool \<times> 'l option" where
  "has_in_cache L name cache =
     (case cache of
        None \<Rightarrow> (False, None)
      | Some l \<Rightarrow> (let (v, l') = lru_get L name l in (v \<noteq> None, Some l')))"

definition remove_prepared_statement :: "'l names \<Rightarrow> bytes \<Rightarrow> 'l server \<Rightarrow> 'l server" where
  "remove_prepared_statement L name sv =
     sv\<lparr>prepared_cache_of := remove_from_cache L name (prepared_cache_of sv)\<rparr>"

definition has_prepared_statement :: "'l names \<Rightarrow> bytes \<Rightarrow> 'l server \<Rightarrow> bool \<times> 'l server" where
  "has_prepared_statement L name sv =
     (if name \<in> set (deferred_eviction_closes sv) then (True, sv)
      else (let (b, cache) = has_in_cache L name (prepared_cache_of sv)
            in (b, sv\<lparr>prepared_cache_of := cache\<rparr>)))"

section \<open>Handlers of server messages\<close>

definition handle_ready_for_query :: "bytes \<Rightarrow> 'l server \<Rightarrow> (error + unit) \<times> 'l server" where
  "handle_ready_for_query message sv =
     (case message of
        [] \<Rightarrow> (Inl PanicErr, sv)
      | t # _ \<Rightarrow>
          if t = code (CHR ''T'') then (Inr (), sv\<lparr>in_transaction := True, data_available := False\<rparr>)
          else if t = code (CHR ''I'') then (Inr (), sv\<lparr>in_transaction := False, data_available := False\<rparr>)
          else if t = code (CHR ''E'') then (Inr (), sv\<lparr>in_transaction := True, data_available := False\<rparr>)
          else (Inl SyncErr, mark_bad sv))"

definition handle_error_response :: "'l names \<Rightarrow> bytes \<Rightarrow> 'l server \<Rightarrow> 'l server" where
  "handle_error_response L message sv =
     (let msg = pg_error_parse message;
          sv = sv\<lparr>last_sql_error := Some (e_code msg, e_message msg)\<rparr>;
          sv = sv\<lparr>in_copy_mode := False\<rparr>;
          sv = (if prepared_cache_of sv \<noteq> None
                then sv\<lparr>cleanup_st := (cleanup_st sv)\<lparr>needs_cleanup_prepare := True\<rparr>\<rparr> else sv);
          sv = (if registering_prepared_statement sv \<noteq> []
                then (fold (remove_prepared_statement L) (registering_prepared_statement sv) sv)
                       \<lparr>registering_prepared_statement := [], has_pending_cache_entries := False\<rparr>
                else sv)
      in if async_mode sv
         then (let sv = sv\<lparr>data_available := False\<rparr>
               in if session_mode sv then sv else mark_bad sv)
         else sv)"

datatype command_complete_effect =
    NoEffect | ArmSet | ArmDeclare | DisarmSet | DisarmDeclare | DisarmPrepare | DisarmAll

definition classify_command_complete :: "bytes \<Rightarrow> command_complete_effect" where
  "classify_command_complete tag =
     (if tag = ascii ''SET'' @ [0] then ArmSet
      else if tag = ascii ''RESET'' @ [0] then DisarmSet
      else if tag = ascii ''DECLARE CURSOR'' @ [0] then ArmDeclare
      else if tag = ascii ''CLOSE CURSOR ALL'' @ [0] then DisarmDeclare
      else if tag = ascii ''DEALLOCATE ALL'' @ [0] then DisarmPrepare
      else if tag = ascii ''DISCARD ALL'' @ [0] then DisarmAll
      else NoEffect)"

definition drop_prepared_statement_cache_on_reset :: "'l names \<Rightarrow> 'l server \<Rightarrow> 'l server" where
  "drop_prepared_statement_cache_on_reset L sv =
     sv\<lparr>registering_prepared_statement := [],
        prepared_cache_of := map_option (lru_clear L) (prepared_cache_of sv)\<rparr>"

definition handle_command_complete :: "'l names \<Rightarrow> bytes \<Rightarrow> 'l server \<Rightarrow> 'l server" where
  "handle_command_complete L message sv =
     (let sv = sv\<lparr>in_copy_mode := False\<rparr>; c = cleanup_st sv
      in case classify_command_complete message of
           NoEffect \<Rightarrow> sv
         | ArmSet \<Rightarrow> sv\<lparr>cleanup_st := c\<lparr>needs_cleanup_set := True\<rparr>\<rparr>
         | ArmDeclare \<Rightarrow> sv\<lparr>cleanup_st := c\<lparr>needs_cleanup_declare := True\<rparr>\<rparr>
         | DisarmSet \<Rightarrow>
             if \<not> custom_cleanup_enabled sv \<or> resetting sv
             then sv\<lparr>cleanup_st := c\<lparr>needs_cleanup_set := False\<rparr>\<rparr> else sv
         | DisarmDeclare \<Rightarrow> sv\<lparr>cleanup_st := c\<lparr>needs_cleanup_declare := False\<rparr>\<rparr>
         | DisarmPrepare \<Rightarrow>
             drop_prepared_statement_cache_on_reset L
               (sv\<lparr>cleanup_st := c\<lparr>needs_cleanup_prepare := False\<rparr>\<rparr>)
         | DisarmAll \<Rightarrow>
             (let sv = drop_prepared_statement_cache_on_reset L (sv\<lparr>cleanup_st := cleanup_reset c\<rparr>)
              in if custom_cleanup_enabled sv \<and> \<not> resetting sv
                 then sv\<lparr>cleanup_st := (cleanup_st sv)\<lparr>needs_cleanup_set := True\<rparr>\<rparr> else sv))"

text \<open>The \<^verbatim>\<open>unwrap\<close> of the two strings panics when a terminator is missing.\<close>

definition handle_parameter_status ::
  "bytes \<Rightarrow> 'l server \<Rightarrow> server_params option
     \<Rightarrow> (error + unit) \<times> 'l server \<times> server_params option" where
  "handle_parameter_status message sv ps =
     (case rbind (split_string message) (\<lambda>(key, r). rbind (split_string r) (\<lambda>(v, r). Inr (key, v))) of
        Inl e \<Rightarrow> (Inl PanicErr, sv, ps)
      | Inr (key, v) \<Rightarrow>
          (Inr (), sv\<lparr>server_parameters := fst (set_param key v False (server_parameters sv))\<rparr>,
           map_option (\<lambda>p. fst (set_param key v False p)) ps))"

section \<open>Receiving\<close>

text \<open>
  The client side of a transfer: what was written to it, whether it still takes a flush, and how the
  single reads and writes of a streamed payload go. \<^verbatim>\<open>tokio::io::sink\<close> takes everything.
\<close>

record client_stream =
  cs_out :: bytes
  cs_open :: bool
  cs_reads :: "nat \<Rightarrow> io_event"
  cs_writes :: "nat \<Rightarrow> io_event"

definition noop_sink :: client_stream where
  "noop_sink = \<lparr>cs_out = [], cs_open = True, cs_reads = \<lambda>i. Progress MAX_BUFFER_CHUNK,
     cs_writes = \<lambda>j. Progress MAX_BUFFER_CHUNK\<rparr>"

text \<open>
  The three handlers of large messages differ in whether they announce more data and in the deadline
  of the copy.
\<close>

definition handle_large ::
  "bool \<Rightarrow> u8 \<Rightarrow> u32 \<Rightarrow> 'l server \<Rightarrow> client_stream \<Rightarrow> (error + bytes) \<times> 'l server \<times> client_stream" where
  "handle_large announces c len sv cs =
     (let sv = sv\<lparr>sv_buffer := sv_buffer sv @ c # put_i32 len\<rparr>; prev_bad = bad sv;
          sv = sv\<lparr>bad := True\<rparr>
      in if \<not> cs_open cs then (Inl SocketErr, sv, cs)
         else (let cs = cs\<lparr>cs_out := cs_out cs @ sv_buffer sv\<rparr>;
                   (e, copied, rest) =
                     proxy_copy_data (cs_reads cs) (cs_writes cs) (unat (scast len - 4 :: u64)) (sv_stream sv);
                   cs = cs\<lparr>cs_out := cs_out cs @ copied\<rparr>; sv = sv\<lparr>sv_stream := rest\<rparr>
               in case e of
                    Some err \<Rightarrow> (Inl err, sv, cs)
                  | None \<Rightarrow>
                      (Inr [], sv\<lparr>bad := prev_bad, data_available := data_available sv \<or> announces,
                                  sv_buffer := []\<rparr>, cs)))"

definition handle_large_data_row ::
  "u8 \<Rightarrow> u32 \<Rightarrow> 'l server \<Rightarrow> client_stream \<Rightarrow> (error + bytes) \<times> 'l server \<times> client_stream" where
  "handle_large_data_row = handle_large True"

definition handle_large_function_call_response ::
  "u8 \<Rightarrow> u32 \<Rightarrow> 'l server \<Rightarrow> client_stream \<Rightarrow> (error + bytes) \<times> 'l server \<times> client_stream" where
  "handle_large_function_call_response = handle_large True"

definition handle_large_copy_data ::
  "u8 \<Rightarrow> u32 \<Rightarrow> 'l server \<Rightarrow> client_stream \<Rightarrow> (error + bytes) \<times> 'l server \<times> client_stream" where
  "handle_large_copy_data = handle_large False"

definition handle_large_message ::
  "u8 \<Rightarrow> u32 \<Rightarrow> 'l server \<Rightarrow> client_stream \<Rightarrow> (error + bytes) \<times> 'l server \<times> client_stream" where
  "handle_large_message c len sv cs =
     (if c = code (CHR ''D'') then handle_large_data_row c len sv cs
      else if c = code (CHR ''d'') then handle_large_copy_data c len sv cs
      else if c = code (CHR ''V'') then handle_large_function_call_response c len sv cs
      else (Inl PanicErr, sv, cs))"

definition is_large :: "u8 \<Rightarrow> u32 \<Rightarrow> 'l server \<Rightarrow> bool" where
  "is_large c len sv \<longleftrightarrow> 0 <s max_message_size sv \<and> max_message_size sv <s len \<and>
     (c = code (CHR ''D'') \<or> c = code (CHR ''d'') \<or> c = code (CHR ''V''))"

definition BUFFER_FLUSH_THRESHOLD :: nat where
  "BUFFER_FLUSH_THRESHOLD = 8192"

datatype flow = Continue | Break | Raise error

definition ends_operation :: "u8 \<Rightarrow> bool" where
  "ends_operation c \<longleftrightarrow> c \<in> set (map code ''23tsnT'')"

definition answered :: "'l server \<Rightarrow> 'l server" where
  "answered sv = (if async_mode sv then decrement_expected sv else sv)"

definition flush_or_continue :: "'l server \<Rightarrow> flow" where
  "flush_or_continue sv =
     (if BUFFER_FLUSH_THRESHOLD \<le> length (sv_buffer sv) then Break else Continue)"

text \<open>The \<^verbatim>\<open>match\<close> on the code of a message that was appended to the buffer.\<close>

definition recv_dispatch ::
  "'l names \<Rightarrow> u8 \<Rightarrow> bytes \<Rightarrow> 'l server \<Rightarrow> server_params option
     \<Rightarrow> flow \<times> 'l server \<times> server_params option" where
  "recv_dispatch L c message sv ps =
     (if c = code (CHR ''Z'') then
        (case handle_ready_for_query message sv of
           (Inl e, sv) \<Rightarrow> (Raise e, sv, ps)
         | (Inr u, sv) \<Rightarrow> (Break, sv, ps))
      else if c = code (CHR ''E'') then
        (let sv = handle_error_response L message sv
         in (Continue, if async_mode sv then sv\<lparr>expected_responses := 0\<rparr> else sv, ps))
      else if c = code (CHR ''C'') then (Continue, answered (handle_command_complete L message sv), ps)
      else if c = code (CHR ''S'') then
        (case handle_parameter_status message sv ps of
           (Inl e, sv, ps) \<Rightarrow> (Raise e, sv, ps)
         | (Inr u, sv, ps) \<Rightarrow> (Continue, sv, ps))
      else if c = code (CHR ''D'') then
        (flush_or_continue sv, sv\<lparr>data_available := True\<rparr>, ps)
      else if c = code (CHR ''G'') then (Break, sv\<lparr>in_copy_mode := True\<rparr>, ps)
      else if c = code (CHR ''H'') then
        (Break, sv\<lparr>in_copy_mode := True, data_available := True\<rparr>, ps)
      else if c = code (CHR ''d'') then (flush_or_continue sv, sv, ps)
      else if c = code (CHR ''1'') then
        (Continue,
         answered (sv\<lparr>registering_prepared_statement := tl (registering_prepared_statement sv)\<rparr>), ps)
      else if ends_operation c then (Continue, answered sv, ps)
      else if c = code (CHR ''I'') then
        (Continue,
         answered (if resetting sv
           then sv\<lparr>last_sql_error := Some (ascii ''XX000'', ascii ''empty backend reset'')\<rparr> else sv),
         ps)
      else (Continue, sv, ps))"

type_synonym 'l received = "(error + bytes) \<times> 'l server \<times> client_stream \<times> server_params option"

definition take_buffer :: "'l server \<Rightarrow> client_stream \<Rightarrow> server_params option \<Rightarrow> 'l received" where
  "take_buffer sv cs ps = (Inr (sv_buffer sv), sv\<lparr>sv_buffer := []\<rparr>, cs, ps)"

text \<open>One round: it ends \<^verbatim>\<open>recv\<close>, or goes on with the next message.\<close>

definition recv_round ::
  "'l names \<Rightarrow> client_stream \<Rightarrow> 'l server \<Rightarrow> server_params option
     \<Rightarrow> 'l received + ('l server \<times> server_params option)" where
  "recv_round L cs sv ps =
     (if async_mode sv \<and> expected_responses sv = 0
      then Inl (take_buffer (sv\<lparr>data_available := False\<rparr>) cs ps)
      else (case read_message_header (sv_stream sv) of
         Inl e \<Rightarrow> Inl (Inl e, sv, cs, ps)
       | Inr ((c, len), r) \<Rightarrow>
           (let sv = sv\<lparr>sv_stream := r\<rparr>
            in if is_large c len sv then
                 (if sv_buffer sv \<noteq> []
                  then Inl (take_buffer
                         (sv\<lparr>pending_large_message := Some (c, len), data_available := True\<rparr>) cs ps)
                  else (let (res, sv, cs) = handle_large_message c len sv cs in Inl (res, sv, cs, ps)))
               else if MAX_MESSAGE_SIZE <s len then Inl (Inl MaxMessageSize, mark_bad sv, cs, ps)
               else (case read_message_body_reuse c len r of
                  Inl e \<Rightarrow>
                    Inl (Inl e, mark_bad (sv\<lparr>sv_stream := (if e = SocketErr then [] else r)\<rparr>), cs, ps)
                | Inr (message, r') \<Rightarrow>
                    (let sv = sv\<lparr>sv_stream := r', sv_buffer := sv_buffer sv @ message\<rparr>
                     in case recv_dispatch L c (drop 5 message) sv ps of
                          (Raise e, sv, ps) \<Rightarrow> Inl (Inl e, sv, cs, ps)
                        | (Break, sv, ps) \<Rightarrow> Inl (take_buffer sv cs ps)
                        | (Continue, sv, ps) \<Rightarrow> Inr (sv, ps))))))"

text \<open>A handler neither reads nor touches the buffer.\<close>

definition same_stream :: "'l server \<Rightarrow> 'l server \<Rightarrow> bool" where
  "same_stream sv sv' \<longleftrightarrow> sv_stream sv' = sv_stream sv \<and> sv_buffer sv' = sv_buffer sv \<and>
     pending_large_message sv' = pending_large_message sv \<and> max_message_size sv' = max_message_size sv \<and>
     async_mode sv' = async_mode sv \<and> resetting sv' = resetting sv \<and>
     sv_sent sv' = sv_sent sv \<and> sv_writable sv' = sv_writable sv"

lemma fold_remove_prepared [simp]:
  "fold (remove_prepared_statement L) ns sv =
     sv\<lparr>prepared_cache_of := fold (remove_from_cache L) ns (prepared_cache_of sv)\<rparr>"
  by (induction ns arbitrary: sv) (simp_all add: remove_prepared_statement_def)

lemma same_stream_handlers:
  "same_stream sv (snd (handle_ready_for_query m sv))"
  "same_stream sv (handle_error_response L m sv)"
  "same_stream sv (handle_command_complete L m sv)"
  "same_stream sv (fst (snd (handle_parameter_status m sv ps)))"
  "same_stream sv (answered sv)"
proof -
  show "same_stream sv (snd (handle_ready_for_query m sv))"
    by (simp add: handle_ready_for_query_def same_stream_def mark_bad_def split: list.split)
  show "same_stream sv (handle_error_response L m sv)"
    by (simp add: same_stream_def handle_error_response_def Let_def mark_bad_def)
  show "same_stream sv (handle_command_complete L m sv)"
    by (simp add: handle_command_complete_def same_stream_def Let_def
        drop_prepared_statement_cache_on_reset_def split: command_complete_effect.split)
  show "same_stream sv (fst (snd (handle_parameter_status m sv ps)))"
    by (simp add: handle_parameter_status_def same_stream_def split: sum.split prod.split)
  show "same_stream sv (answered sv)"
    by (simp add: answered_def same_stream_def decrement_expected_def)
qed

lemma same_stream_trans: "same_stream a b \<Longrightarrow> same_stream b c \<Longrightarrow> same_stream a c"
  by (simp add: same_stream_def)

lemma dispatch_stream:
  "same_stream sv (fst (snd (recv_dispatch L c m sv ps)))"
proof -
  have upd: "same_stream sv (sv\<lparr>data_available := a\<rparr>)" "same_stream sv (sv\<lparr>in_copy_mode := True\<rparr>)"
    "same_stream sv (sv\<lparr>in_copy_mode := True, data_available := a\<rparr>)" "same_stream sv sv"
    "same_stream sv (answered (sv\<lparr>registering_prepared_statement := r\<rparr>))"
    "same_stream sv (answered (if resetting sv then sv\<lparr>last_sql_error := e\<rparr> else sv))" for a r e
    by (simp_all add: same_stream_def answered_def decrement_expected_def)
  have err: "same_stream sv (if async_mode (handle_error_response L m sv)
      then (handle_error_response L m sv)\<lparr>expected_responses := 0\<rparr> else handle_error_response L m sv)"
    using same_stream_handlers(2) [of sv L m] by (simp add: same_stream_def)
  show ?thesis
    using same_stream_handlers(1) [of sv m] same_stream_handlers(4) [of sv m ps]
      same_stream_trans [OF same_stream_handlers(3,5)] upd err same_stream_handlers(5) [of sv]
    unfolding recv_dispatch_def Let_def
    by (auto split: sum.split prod.split)
qed

lemma drop_frame_header [simp]: "drop 5 (frame_bytes (c, p)) = p"
  by (simp add: frame_bytes_def put_i32_def)

lemma is_large_stream [simp]: "is_large c len (sv\<lparr>sv_stream := r\<rparr>) = is_large c len sv"
  by (simp add: is_large_def)

text \<open>The ways a round can go: a message is streamed, or it is one frame that is dispatched.\<close>

lemma recv_round_cases:
  obtains
    (idle) "recv_round L cs sv ps = Inl (take_buffer (sv\<lparr>data_available := False\<rparr>) cs ps)"
  | (eof) e where "recv_round L cs sv ps = Inl (Inl e, sv, cs, ps)"
  | (deferred) c len r where "sv_stream sv = c # put_i32 len @ r"
      "recv_round L cs sv ps = Inl (take_buffer
         (sv\<lparr>sv_stream := r, pending_large_message := Some (c, len), data_available := True\<rparr>) cs ps)"
  | (large) c len r res sv' cs' where "sv_stream sv = c # put_i32 len @ r" "sv_buffer sv = []"
      "handle_large_message c len (sv\<lparr>sv_stream := r\<rparr>) cs = (res, sv', cs')"
      "recv_round L cs sv ps = Inl (res, sv', cs', ps)"
  | (failed) e r where "recv_round L cs sv ps = Inl (Inl e, sv\<lparr>sv_stream := r, bad := True\<rparr>, cs, ps)"
  | (frame) c p r f sv' ps' where "sv_stream sv = frame_bytes (c, p) @ r"
      "recv_dispatch L c p (sv\<lparr>sv_stream := r, sv_buffer := sv_buffer sv @ frame_bytes (c, p)\<rparr>) ps
         = (f, sv', ps')"
      "recv_round L cs sv ps =
         (case f of Raise e \<Rightarrow> Inl (Inl e, sv', cs, ps')
          | Break \<Rightarrow> Inl (take_buffer sv' cs ps') | Continue \<Rightarrow> Inr (sv', ps'))"
proof (cases "async_mode sv \<and> expected_responses sv = 0")
  case True
  then show thesis
    by (intro idle) (simp add: recv_round_def)
next
  case run: False
  show thesis
  proof (cases "read_message_header (sv_stream sv)")
    case (Inl e)
    with run show thesis
      by (intro eof [of e]) (auto simp: recv_round_def)
  next
    case (Inr h)
    then obtain c len r where h: "read_message_header (sv_stream sv) = Inr ((c, len), r)"
      by (metis prod.exhaust)
    then have st: "sv_stream sv = c # put_i32 len @ r"
      by (simp add: read_header_Inr)
    consider "is_large c len sv" "sv_buffer sv \<noteq> []" | "is_large c len sv" "sv_buffer sv = []"
      | "\<not> is_large c len sv" "MAX_MESSAGE_SIZE <s len"
      | e where "\<not> is_large c len sv" "\<not> MAX_MESSAGE_SIZE <s len" "read_message_body_reuse c len r = Inl e"
      | m r' where "\<not> is_large c len sv" "\<not> MAX_MESSAGE_SIZE <s len" "read_message_body_reuse c len r = Inr (m, r')"
      by (cases "read_message_body_reuse c len r") auto
    then show thesis
    proof cases
      case 1
      with run h st show thesis
        by (intro deferred [of c len r]) (auto simp: recv_round_def Let_def)
    next
      case 2
      with run h st show thesis
        by (cases "handle_large_message c len (sv\<lparr>sv_stream := r\<rparr>) cs")
          (intro large [of c len r], auto simp: recv_round_def Let_def)
    next
      case 3
      with run h show thesis
        by (intro failed [of MaxMessageSize r]) (auto simp: recv_round_def Let_def mark_bad_def)
    next
      case (4 e)
      with run h show thesis
        by (intro failed [of e "if e = SocketErr then [] else r"]) (auto simp: recv_round_def Let_def mark_bad_def)
    next
      case (5 m r')
      then have len: "\<not> len <s 4" and "read_exact_body c len r = Inr (m, r')"
        by (auto simp: read_message_body_reuse_def split: if_splits)
      then obtain p where p: "m = frame_bytes (c, p)" "r = p @ r'" "unat len = 4 + length p"
        using read_exact_body_frame by blast
      have "of_nat (length p) + 4 = len"
        using p(3) by (metis add.commute of_nat_add of_nat_numeral of_nat_unat ucast_id)
      with st p have s: "sv_stream sv = frame_bytes (c, p) @ r'"
        by (simp add: frame_bytes_def)
      obtain f sv' ps' where "recv_dispatch L c p (sv\<lparr>sv_stream := r', sv_buffer := sv_buffer sv @ m\<rparr>) ps
          = (f, sv', ps')"
        by (rule prod_cases3)
      with 5 run h s p(1) show thesis
        by (intro frame [of c p r' f sv' ps']) (auto simp: recv_round_def Let_def split: flow.split)
    qed
  qed
qed

lemma dispatch_frame:
  assumes "recv_dispatch L c p (sv\<lparr>sv_stream := r, sv_buffer := b\<rparr>) ps = (f, sv', ps')"
  shows "sv_stream sv' = r" "sv_buffer sv' = b" "pending_large_message sv' = pending_large_message sv"
  using dispatch_stream [of "sv\<lparr>sv_stream := r, sv_buffer := b\<rparr>" L c p ps] assms
  by (simp_all add: same_stream_def)

lemma recv_round_consumes:
  assumes "recv_round L cs sv ps = Inr (sv', ps')"
  shows "length (sv_stream sv') < length (sv_stream sv)"
  using assms
  by (cases rule: recv_round_cases [of L cs sv ps])
    (auto simp: take_buffer_def frame_bytes_def dest: dispatch_frame split: flow.splits)

function recv_loop ::
  "'l names \<Rightarrow> client_stream \<Rightarrow> 'l server \<Rightarrow> server_params option \<Rightarrow> 'l received" where
  "recv_loop L cs sv ps =
     (case recv_round L cs sv ps of
        Inl done_ \<Rightarrow> done_
      | Inr (sv', ps') \<Rightarrow> recv_loop L cs sv' ps')"
  by pat_completeness auto
termination
  by (relation "measure (\<lambda>(L, cs, sv, ps). length (sv_stream sv))") (auto dest: recv_round_consumes)

declare recv_loop.simps [simp del]

definition recv ::
  "'l names \<Rightarrow> client_stream \<Rightarrow> 'l server \<Rightarrow> server_params option \<Rightarrow> 'l received" where
  "recv L cs sv ps =
     (case pending_large_message sv of
        Some (c, len) \<Rightarrow>
          (let (res, sv, cs) = handle_large_message c len sv cs
           in (res, if isl res then sv else sv\<lparr>pending_large_message := None\<rparr>, cs, ps))
      | None \<Rightarrow> recv_loop L cs sv ps)"

text \<open>The header of a large message that was read but not yet forwarded.\<close>

definition inflight :: "'l server \<Rightarrow> bytes" where
  "inflight sv = (case pending_large_message sv of None \<Rightarrow> [] | Some (c, len) \<Rightarrow> c # put_i32 len)"

lemma handle_large_Ok:
  assumes "handle_large_message c len sv cs = (Inr b, sv', cs')"
  obtains p where "b = []" "cs_out cs' = cs_out cs @ sv_buffer sv @ c # put_i32 len @ p"
    "sv_stream sv = p @ sv_stream sv'" "p \<noteq> []" "sv_buffer sv' = []"
    "pending_large_message sv' = pending_large_message sv"
proof -
  obtain a where h: "handle_large a c len sv cs = (Inr b, sv', cs')"
    using assms
    by (auto simp: handle_large_message_def handle_large_data_row_def handle_large_copy_data_def
        handle_large_function_call_response_def split: if_splits)
  let ?n = "unat (scast len - 4 :: u64)"
  obtain e out rest where c: "proxy_copy_data (cs_reads cs) (cs_writes cs) ?n (sv_stream sv) = (e, out, rest)"
    by (rule prod_cases3)
  have e: "e = None" and f: "b = []" "sv_buffer sv' = []" "sv_stream sv' = rest"
      "pending_large_message sv' = pending_large_message sv"
      "cs_out cs' = cs_out cs @ sv_buffer sv @ c # put_i32 len @ out"
    using h c by (auto simp: handle_large_def Let_def split: if_splits option.splits)
  have "sv_stream sv = out @ sv_stream sv'" "out \<noteq> []"
    using proxy_copy_data_Ok [of "cs_reads cs" "cs_writes cs" ?n "sv_stream sv" out rest] c e f(3) by auto
  with that f show thesis by blast
qed

text \<open>
  The bytes of a connection before and after a call: what was buffered or still to be read is what the
  client got, followed by what is buffered, held back or still to be read now.
\<close>

definition forwards ::
  "'l server \<Rightarrow> client_stream \<Rightarrow> bytes \<Rightarrow> 'l server \<Rightarrow> client_stream \<Rightarrow> bool" where
  "forwards sv cs b sv' cs' \<longleftrightarrow>
     (\<exists>out. cs_out cs' = cs_out cs @ out \<and>
        sv_buffer sv @ inflight sv @ sv_stream sv
          = out @ b @ sv_buffer sv' @ inflight sv' @ sv_stream sv') \<and>
     (data_available sv' \<longrightarrow> length (sv_stream sv') < length (sv_stream sv))"

lemma recv_round_Inl:
  assumes "recv_round L cs sv ps = Inl (Inr b, sv', cs', ps')" and "pending_large_message sv = None"
  shows "forwards sv cs b sv' cs'"
proof (cases rule: recv_round_cases [of L cs sv ps])
  case (large c len r res sv2 cs2)
  then have "handle_large_message c len (sv\<lparr>sv_stream := r\<rparr>) cs = (Inr b, sv', cs')"
    using assms(1) by simp
  from handle_large_Ok [OF this] obtain q where
    "b = []" "cs_out cs' = cs_out cs @ c # put_i32 len @ q" "r = q @ sv_stream sv'"
    "sv_buffer sv' = []" "pending_large_message sv' = None"
    using large(2) assms(2) by auto
  then show ?thesis
    using large(1,2) assms(2) by (simp add: forwards_def inflight_def)
next
  case (frame c p r f sv2 ps2)
  have "f = Break"
    using assms(1) frame(3) by (cases f) auto
  then have "b = sv_buffer sv2" "sv' = sv2\<lparr>sv_buffer := []\<rparr>" "cs' = cs"
    using assms(1) frame(3) by (simp_all add: take_buffer_def)
  then show ?thesis
    using assms(2) dispatch_frame [OF frame(2)] frame(1)
    by (simp add: forwards_def inflight_def frame_bytes_def)
next
  case (deferred c len r)
  then have "b = sv_buffer sv" "cs' = cs" "sv' = sv\<lparr>sv_stream := r, pending_large_message := Some (c, len),
      data_available := True, sv_buffer := []\<rparr>"
    using assms(1) by (simp_all add: take_buffer_def)
  then show ?thesis
    using deferred(1) assms(2) by (simp add: forwards_def inflight_def)
next
  case idle
  then show ?thesis
    using assms by (auto simp: forwards_def inflight_def take_buffer_def)
qed (use assms(1) in simp_all)

lemma recv_round_Continue:
  assumes "recv_round L cs sv ps = Inr (sv', ps')"
  shows "pending_large_message sv' = pending_large_message sv"
    and "sv_buffer sv' @ sv_stream sv' = sv_buffer sv @ sv_stream sv"
proof -
  have "pending_large_message sv' = pending_large_message sv \<and>
    sv_buffer sv' @ sv_stream sv' = sv_buffer sv @ sv_stream sv"
  proof (cases rule: recv_round_cases [of L cs sv ps])
    case (frame c p r f sv2 ps2)
    have "f = Continue"
      using assms frame(3) by (cases f) auto
    then have "sv' = sv2"
      using assms frame(3) by simp
    then show ?thesis
      using dispatch_frame [OF frame(2)] frame(1) by simp
  qed (use assms in simp_all)
  then show "pending_large_message sv' = pending_large_message sv"
    and "sv_buffer sv' @ sv_stream sv' = sv_buffer sv @ sv_stream sv" by auto
qed

lemma recv_loop_Ok:
  "recv_loop L cs sv ps = (Inr b, sv', cs', ps') \<Longrightarrow> pending_large_message sv = None \<Longrightarrow>
    forwards sv cs b sv' cs'"
proof (induction L cs sv ps rule: recv_loop.induct)
  case (1 L cs sv ps)
  show ?case
  proof (cases "recv_round L cs sv ps")
    case (Inl a)
    then show ?thesis
      using "1.prems" recv_round_Inl [of L cs sv ps b sv' cs' ps'] by (simp add: recv_loop.simps [of L cs sv ps])
  next
    case (Inr a)
    obtain sv2 ps2 where a: "a = (sv2, ps2)" by (cases a)
    have "recv_loop L cs sv2 ps2 = (Inr b, sv', cs', ps')"
      using "1.prems"(1) Inr a by (simp add: recv_loop.simps [of L cs sv ps])
    moreover have r: "recv_round L cs sv ps = Inr (sv2, ps2)"
      using Inr a by simp
    ultimately have "forwards sv2 cs b sv' cs'"
      using "1.IH" [OF Inr a [symmetric]] recv_round_Continue(1) [OF r] "1.prems"(2) by simp
    then show ?thesis
      using recv_round_Continue [OF r] recv_round_consumes [OF r] "1.prems"(2)
      by (auto simp: forwards_def inflight_def)
  qed
qed

lemma recv_Ok:
  assumes "recv L cs sv ps = (Inr b, sv', cs', ps')"
  shows "forwards sv cs b sv' cs'"
proof (cases "pending_large_message sv")
  case None
  then show ?thesis
    using assms recv_loop_Ok [of L cs sv ps b sv' cs' ps'] by (simp add: recv_def)
next
  case (Some p)
  then obtain sv2 where "handle_large_message (fst p) (snd p) sv cs = (Inr b, sv2, cs')"
    "sv' = sv2\<lparr>pending_large_message := None\<rparr>"
    using assms(1) by (auto simp: recv_def split: prod.splits if_splits)
  then show ?thesis
    using Some by (elim handle_large_Ok) (auto simp: forwards_def inflight_def split: prod.split)
qed

lemma recv_consumes:
  "recv L cs sv ps = (Inr b, sv', cs', ps') \<Longrightarrow> data_available sv' \<Longrightarrow>
    length (sv_stream sv') < length (sv_stream sv)"
  using recv_Ok [of L cs sv ps b sv' cs' ps'] by (simp add: forwards_def)

section \<open>Internal queries\<close>

text \<open>
  The loops that read the answer to messages of pg\_doorman itself, until no more data is announced.
  The loop of a simple query also stops when the server enters COPY mode during a reset.
\<close>

function drain :: "'l names \<Rightarrow> bool \<Rightarrow> 'l server \<Rightarrow> (error + unit) \<times> 'l server" where
  "drain L query sv =
     (case recv L noop_sink sv None of
        (Inl e, sv', cs, ps) \<Rightarrow> (Inl e, sv')
      | (Inr b, sv', cs, ps) \<Rightarrow>
          if query \<and> resetting sv' \<and> in_copy_mode sv' then (Inl QueryError, sv')
          else if data_available sv' then drain L query sv' else (Inr (), sv'))"
  by pat_completeness auto
termination
  by (relation "measure (\<lambda>(L, query, sv). length (sv_stream sv))") (auto intro: recv_consumes [OF sym])

declare drain.simps [simp del]

definition small_simple_query :: "'l names \<Rightarrow> bytes \<Rightarrow> 'l server \<Rightarrow> (error + unit) \<times> 'l server" where
  "small_simple_query L query sv =
     and_then (send_bytes (simple_query query) (sv\<lparr>last_sql_error := None\<rparr>)) (\<lambda>u sv.
     and_then (drain L True sv) (\<lambda>u sv.
       (case last_sql_error sv of
          Some e \<Rightarrow> (Inl QueryError, sv\<lparr>last_sql_error := None\<rparr>)
        | None \<Rightarrow> (Inr (), sv))))"

definition check_alive :: "'l names \<Rightarrow> bool \<Rightarrow> 'l server \<Rightarrow> (error + unit) \<times> 'l server" where
  "check_alive L expired sv =
     and_then (send_bytes_timeout expired (simple_query (ascii '';'')) sv) (\<lambda>u sv. drain L False sv)"

function wait_available :: "'l names \<Rightarrow> 'l server \<Rightarrow> 'l server" where
  "wait_available L sv =
     (if \<not> data_available sv then sv
      else (case recv L noop_sink sv None of
              (Inl e, sv', cs, ps) \<Rightarrow> sv'
            | (Inr b, sv', cs, ps) \<Rightarrow> if data_available sv' then wait_available L sv' else sv'))"
  by pat_completeness auto
termination
  by (relation "measure (\<lambda>(L, sv). length (sv_stream sv))") (auto intro: recv_consumes [OF sym])

declare wait_available.simps [simp del]

text \<open>
  Messages of pg\_doorman itself that end with a Sync. While they are exchanged an asynchronous client
  pipeline is suspended; an error leaves it suspended.
\<close>

definition exchange :: "'l names \<Rightarrow> bytes \<Rightarrow> 'l server \<Rightarrow> (error + unit) \<times> 'l server" where
  "exchange L messages sv =
     (let was_async = async_mode sv; saved_expected = expected_responses sv
      in and_then (send_and_flush messages (if was_async then sv\<lparr>async_mode := False\<rparr> else sv)) (\<lambda>u sv.
         and_then (drain L False sv) (\<lambda>u sv.
           (Inr (), if was_async then sv\<lparr>async_mode := True, expected_responses := saved_expected\<rparr>
                    else sv))))"

definition defer_eviction :: "'l names \<Rightarrow> bytes option \<Rightarrow> 'l server \<Rightarrow> 'l server" where
  "defer_eviction L evicted sv =
     (case evicted of
        None \<Rightarrow> sv
      | Some n \<Rightarrow> (remove_prepared_statement L n sv)
                    \<lparr>deferred_eviction_closes := deferred_eviction_closes sv @ [n]\<rparr>)"

definition register_prepared_statement ::
  "'l names \<Rightarrow> parse_msg \<Rightarrow> bytes \<Rightarrow> bool \<Rightarrow> 'l server \<Rightarrow> (error + unit) \<times> 'l server" where
  "register_prepared_statement L parse server_name send sv =
     (let (present, sv) = has_prepared_statement L server_name sv
      in and_then
        (if present then (Inr (), sv)
         else (let sv = sv\<lparr>registering_prepared_statement := registering_prepared_statement sv @ [server_name]\<rparr>
               in case (if send then to_bytes_with_name parse server_name else Inr []) of
                    Inl e \<Rightarrow> (Inl (CodecErr e), sv)
                  | Inr messages \<Rightarrow>
                      (let sv = (if send then sv else sv\<lparr>has_pending_cache_entries := True\<rparr>);
                           (evicted, cache) = add_to_cache L server_name (prepared_cache_of sv);
                           sv = defer_eviction L evicted (sv\<lparr>prepared_cache_of := cache\<rparr>)
                       in if messages \<noteq> [] then exchange L (messages @ sync_msg) sv else (Inr (), sv))))
        (\<lambda>u sv. let (present, sv) = has_prepared_statement L server_name sv
                in (if present then Inr () else Inl PreparedStatementError, sv)))"

fun close_messages :: "bytes list \<Rightarrow> codec_error + bytes" where
  "close_messages [] = Inr []"
| "close_messages (n # ns) =
     rbind (close_into (close_new n)) (\<lambda>b. rbind (close_messages ns) (\<lambda>bs. Inr (b @ bs)))"

definition send_deferred_eviction_closes :: "'l names \<Rightarrow> 'l server \<Rightarrow> (error + unit) \<times> 'l server" where
  "send_deferred_eviction_closes L sv =
     (if deferred_eviction_closes sv = [] then (Inr (), sv)
      else (let names = deferred_eviction_closes sv; sv = sv\<lparr>deferred_eviction_closes := []\<rparr>
            in case close_messages names of
                 Inl e \<Rightarrow> (Inl (CodecErr e), sv)
               | Inr messages \<Rightarrow> exchange L (messages @ sync_msg) sv))"

section \<open>Cleanup at checkin\<close>

definition reset_string :: "cleanup_state \<Rightarrow> bytes" where
  "reset_string c = ascii ''RESET ROLE;''
     @ (if needs_cleanup_set c then ascii ''RESET ALL;'' else [])
     @ (if needs_cleanup_prepare c then ascii ''DEALLOCATE ALL;'' else [])
     @ (if needs_cleanup_declare c then ascii ''CLOSE ALL;'' else [])"

definition reconcile_cache :: "'l server \<Rightarrow> 'l server" where
  "reconcile_cache sv =
     (let sv = (if has_pending_cache_entries sv
                then sv\<lparr>cleanup_st := (cleanup_st sv)\<lparr>needs_cleanup_prepare := True\<rparr>,
                        has_pending_cache_entries := False\<rparr> else sv)
      in if deferred_eviction_closes sv \<noteq> []
         then sv\<lparr>cleanup_st := (cleanup_st sv)\<lparr>needs_cleanup_prepare := True\<rparr>,
                 deferred_eviction_closes := []\<rparr> else sv)"

definition cleanup_legacy :: "'l names \<Rightarrow> 'l server \<Rightarrow> (error + unit) \<times> 'l server" where
  "cleanup_legacy L sv =
     and_then (if in_transaction sv then small_simple_query L (ascii ''ROLLBACK'') sv else (Inr (), sv)) (\<lambda>u sv.
       let sv = reconcile_cache sv
       in and_then
            (if needs_cleanup (cleanup_st sv) \<and> cleanup_connections sv \<noteq> CleanupOff
             then (let reset_all = needs_cleanup_set (cleanup_st sv)
                   in and_then (small_simple_query L (reset_string (cleanup_st sv)) sv) (\<lambda>u sv.
                        (Inr (), sv\<lparr>server_parameters :=
                             (if reset_all then forget_untracked (server_parameters sv)
                              else remove_param (ascii ''role'') (server_parameters sv)),
                           cleanup_st := cleanup_reset (cleanup_st sv)\<rparr>)))
             else (Inr (), sv))
            (\<lambda>u sv. (Inr (), sv\<lparr>in_transaction := False, in_copy_mode := False\<rparr>)))"

definition begin_reset :: "'l server \<Rightarrow> 'l server" where
  "begin_reset sv = sv\<lparr>bad := True, resetting := True, async_mode := False, expected_responses := 0\<rparr>"

text \<open>
  The configured cleanup query. When the deadline \<open>expired\<close> the exchange is cut off somewhere; the
  connection is bad then, and the rest of its state is not looked at again.
\<close>

definition reset_exchange :: "'l names \<Rightarrow> bytes option \<Rightarrow> 'l server \<Rightarrow> (error + unit) \<times> 'l server" where
  "reset_exchange L query sv =
     and_then
       (if in_transaction sv
        then and_then (small_simple_query L (ascii ''ROLLBACK'') sv) (\<lambda>u sv.
               (if in_transaction sv then Inl QueryError else Inr (), sv))
        else (Inr (), sv)) (\<lambda>u sv.
     and_then (case query of Some q \<Rightarrow> small_simple_query L q sv | None \<Rightarrow> (Inr (), sv)) (\<lambda>u sv.
       (if in_transaction sv \<or> in_copy_mode sv \<or> data_available sv then Inl QueryError else Inr (), sv)))"

definition reset_with_query ::
  "'l names \<Rightarrow> bool \<Rightarrow> bytes option \<Rightarrow> 'l server \<Rightarrow> (error + unit) \<times> 'l server" where
  "reset_with_query L expired query sv =
     (let sv = begin_reset sv;
          (result, sv) = (if expired then (Inl QueryError, sv) else reset_exchange L query sv);
          sv = sv\<lparr>resetting := False\<rparr>
      in case result of
           Inl e \<Rightarrow> (Inl e, sv)
         | Inr u \<Rightarrow>
             (let sv = (if query \<noteq> None
                        then sv\<lparr>registering_prepared_statement := [], has_pending_cache_entries := False,
                                deferred_eviction_closes := [],
                                prepared_cache_of := map_option (lru_clear L) (prepared_cache_of sv),
                                server_parameters := forget_untracked (server_parameters sv),
                                cleanup_st := cleanup_reset (cleanup_st sv)\<rparr>
                        else sv)
              in (Inr (), sv\<lparr>used_since_cleanup := False, bad := False\<rparr>)))"

definition unfinished_cache :: "'l server \<Rightarrow> bool" where
  "unfinished_cache sv \<longleftrightarrow> needs_cleanup (cleanup_st sv) \<or> has_pending_cache_entries sv
     \<or> deferred_eviction_closes sv \<noteq> []"

definition checkin_cleanup_inner :: "'l names \<Rightarrow> bool \<Rightarrow> 'l server \<Rightarrow> (error + unit) \<times> 'l server" where
  "checkin_cleanup_inner L expired sv =
     (let sv = sv\<lparr>pending_large_message := None\<rparr>
      in if in_copy_mode sv then (Inl SyncErr, mark_bad sv)
         else if data_available sv then (Inl SyncErr, mark_bad sv)
         else if sv_buffer sv \<noteq> [] then (Inl SyncErr, mark_bad sv)
         else if bad sv then (Inr (), sv)
         else if custom_cleanup_enabled sv then
           (let needed = unfinished_cache sv \<or> (cleanup_connections sv = Always \<and> used_since_cleanup sv);
                query = (if needed then cleanup_server_query sv else None)
            in if query \<noteq> None \<or> in_transaction sv then reset_with_query L expired query sv
               else (Inr (), sv))
         else if \<not> (in_transaction sv \<or> cleanup_connections sv \<noteq> CleanupOff \<and> unfinished_cache sv)
         then (Inr (), sv)
         else (let (result, sv) = cleanup_legacy L (begin_reset sv); sv = sv\<lparr>resetting := False\<rparr>
               in (result, if isl result then sv else sv\<lparr>bad := False\<rparr>)))"

definition checkin_cleanup :: "'l names \<Rightarrow> bool \<Rightarrow> 'l server \<Rightarrow> (error + unit) \<times> 'l server" where
  "checkin_cleanup L expired sv =
     (let (result, sv) = checkin_cleanup_inner L expired sv
      in (result, if isl result then sv\<lparr>bad := True\<rparr> else sv))"

definition cleanup_after_response :: "'l names \<Rightarrow> bool \<Rightarrow> 'l server \<Rightarrow> (error + unit) \<times> 'l server" where
  "cleanup_after_response L expired sv =
     (let response_complete = (\<not> in_transaction sv \<and> \<not> in_copy_mode sv \<and> \<not> data_available sv
            \<and> sv_buffer sv = [] \<and> \<not> async_mode sv);
          (result, sv) = checkin_cleanup L expired sv
      in (if isl result \<and> response_complete then Inr () else result, sv))"

text \<open>The parameters of a client are set on the server at checkout, in the iteration order of the difference.\<close>

definition server_sync_parameters ::
  "'l names \<Rightarrow> (bytes \<times> param_action) list \<Rightarrow> server_params \<Rightarrow> 'l server \<Rightarrow> (error + unit) \<times> 'l server" where
  "server_sync_parameters L order parameters sv =
     (if sync_diff (operator_managed_startup_keys sv) (server_parameters sv) parameters = [] then (Inr (), sv)
      else (let (res, sv) = small_simple_query L (sync_query order) sv;
                sv = (if isl res then sv
                      else sv\<lparr>server_parameters := fold mirror_action order (server_parameters sv)\<rparr>)
            in (res, sv\<lparr>cleanup_st := cleanup_reset (cleanup_st sv)\<rparr>)))"

section \<open>What an exchange leaves unchanged\<close>

text \<open>Receiving changes neither the configuration of a connection nor the evictions it has deferred.\<close>

definition same_config :: "'l server \<Rightarrow> 'l server \<Rightarrow> bool" where
  "same_config sv sv' \<longleftrightarrow> async_mode sv' = async_mode sv \<and> resetting sv' = resetting sv \<and>
     cleanup_connections sv' = cleanup_connections sv \<and>
     cleanup_server_query sv' = cleanup_server_query sv \<and> session_mode sv' = session_mode sv \<and>
     max_message_size sv' = max_message_size sv \<and>
     deferred_eviction_closes sv' = deferred_eviction_closes sv \<and>
     operator_managed_startup_keys sv' = operator_managed_startup_keys sv \<and>
     (has_pending_cache_entries sv' \<longrightarrow> has_pending_cache_entries sv) \<and>
     (prepared_cache_of sv' = None \<longleftrightarrow> prepared_cache_of sv = None)"

lemma same_config_refl [simp]: "same_config sv sv"
  by (simp add: same_config_def)

lemma same_config_trans: "same_config a b \<Longrightarrow> same_config b c \<Longrightarrow> same_config a c"
  by (simp add: same_config_def)

lemma fold_remove_None [simp]:
  "fold (remove_from_cache L) ns c = None \<longleftrightarrow> c = None"
  by (induction ns arbitrary: c) (simp_all add: remove_from_cache_def)

lemma same_config_handlers:
  "same_config sv (snd (handle_ready_for_query m sv))"
  "same_config sv (handle_error_response L m sv)"
  "same_config sv (handle_command_complete L m sv)"
  "same_config sv (fst (snd (handle_parameter_status m sv ps)))"
  "same_config sv (answered sv)"
proof -
  show "same_config sv (snd (handle_ready_for_query m sv))"
    by (simp add: handle_ready_for_query_def same_config_def mark_bad_def split: list.split)
  show "same_config sv (handle_error_response L m sv)"
    by (simp add: same_config_def handle_error_response_def Let_def mark_bad_def)
  show "same_config sv (handle_command_complete L m sv)"
    by (simp add: handle_command_complete_def same_config_def Let_def
        drop_prepared_statement_cache_on_reset_def split: command_complete_effect.split)
  show "same_config sv (fst (snd (handle_parameter_status m sv ps)))"
    by (simp add: handle_parameter_status_def same_config_def split: sum.split prod.split)
  show "same_config sv (answered sv)"
    by (simp add: answered_def same_config_def decrement_expected_def)
qed

lemma same_config_dispatch: "same_config sv (fst (snd (recv_dispatch L c m sv ps)))"
proof -
  have upd: "same_config sv (sv\<lparr>data_available := a\<rparr>)" "same_config sv (sv\<lparr>in_copy_mode := True\<rparr>)"
    "same_config sv (sv\<lparr>in_copy_mode := True, data_available := a\<rparr>)"
    "same_config sv (answered (sv\<lparr>registering_prepared_statement := r\<rparr>))"
    "same_config sv (answered (if resetting sv then sv\<lparr>last_sql_error := e\<rparr> else sv))" for a r e
    by (simp_all add: same_config_def answered_def decrement_expected_def)
  have err: "same_config sv (if async_mode (handle_error_response L m sv)
      then (handle_error_response L m sv)\<lparr>expected_responses := 0\<rparr> else handle_error_response L m sv)"
    using same_config_handlers(2) [of sv L m] by (simp add: same_config_def)
  show ?thesis
    using same_config_handlers(1) [of sv m] same_config_handlers(4) [of sv m ps]
      same_config_trans [OF same_config_handlers(3,5)] upd err same_config_handlers(5) [of sv]
    unfolding recv_dispatch_def Let_def
    by (auto split: sum.split prod.split)
qed

lemma same_config_stream: "same_config (sv\<lparr>sv_stream := s, sv_buffer := b\<rparr>) sv' \<Longrightarrow> same_config sv sv'"
  by (simp add: same_config_def)

lemma handle_large_config:
  assumes "handle_large_message c len sv cs = (res, sv', cs')"
  shows "same_config sv sv'"
proof -
  have "same_config sv (fst (snd (handle_large a c len sv cs)))" for a c
    by (auto simp: handle_large_def Let_def same_config_def split: prod.split option.split)
  then have "same_config sv (fst (snd (handle_large_message c len sv cs)))"
    by (simp add: handle_large_message_def handle_large_data_row_def handle_large_copy_data_def
        handle_large_function_call_response_def)
  with assms show ?thesis by simp
qed

lemma recv_round_config:
  "(case recv_round L cs sv ps of Inl (res, sv', cs', ps') \<Rightarrow> same_config sv sv'
     | Inr (sv', ps') \<Rightarrow> same_config sv sv')"
proof (cases rule: recv_round_cases [of L cs sv ps])
  case (large c len r res sv2 cs2)
  then show ?thesis
    using handle_large_config [OF large(3)] by (simp add: same_config_def)
next
  case (frame c p r f sv2 ps2)
  let ?sv = "sv\<lparr>sv_stream := r, sv_buffer := sv_buffer sv @ frame_bytes (c, p)\<rparr>"
  have "same_config ?sv sv2"
    using same_config_dispatch [of ?sv L c p ps] frame(2) by simp
  then have "same_config sv sv2" "same_config sv (sv2\<lparr>sv_buffer := []\<rparr>)"
    by (simp_all add: same_config_def)
  then show ?thesis
    using frame(3) by (auto simp: take_buffer_def split: flow.split)
qed (simp_all add: take_buffer_def same_config_def)

lemma recv_loop_config: "same_config sv (fst (snd (recv_loop L cs sv ps)))"
proof (induction L cs sv ps rule: recv_loop.induct)
  case (1 L cs sv ps)
  show ?case
  proof (cases "recv_round L cs sv ps")
    case (Inl a)
    then show ?thesis
      using recv_round_config [of sv L cs ps] by (auto simp: recv_loop.simps [of L cs sv ps])
  next
    case (Inr a)
    obtain sv2 ps2 where a: "a = (sv2, ps2)" by (cases a)
    then have "same_config sv sv2"
      using recv_round_config [of sv L cs ps] Inr by simp
    then show ?thesis
      using "1.IH" [OF Inr a [symmetric]] Inr a
      by (auto simp: recv_loop.simps [of L cs sv ps] intro: same_config_trans)
  qed
qed

lemma recv_config:
  assumes "recv L cs sv ps = (res, sv', cs', ps')"
  shows "same_config sv sv'"
proof (cases "pending_large_message sv")
  case None
  then show ?thesis
    using assms recv_loop_config [of sv L cs ps] by (simp add: recv_def)
next
  case (Some p)
  obtain r sv2 cs2 where h: "handle_large_message (fst p) (snd p) sv cs = (r, sv2, cs2)"
    by (rule prod_cases3)
  then have "sv' = (if isl r then sv2 else sv2\<lparr>pending_large_message := None\<rparr>)"
    using assms Some by (cases p) (simp add: recv_def, metis)
  moreover have "same_config sv2 (sv2\<lparr>pending_large_message := None\<rparr>)"
    by (simp add: same_config_def)
  ultimately show ?thesis
    using handle_large_config [OF h] same_config_trans by auto
qed

end
