(* ===== verification/Server_Exchange.thy ===== *)
theory Server_Exchange imports Server_Session begin

text \<open>
  What the server side of a connection guarantees: a client receives exactly the bytes of the server,
  the queries of pg\_doorman itself consume exactly their answers, and a connection that goes back to
  the pool is clean.
\<close>

lemma and_then_unit:
  "and_then m f = (Inr x, s') \<longleftrightarrow> (\<exists>s. m = (Inr (), s) \<and> f () s = (Inr x, s'))"
  by (simp add: and_then_Inr)

section \<open>The end of a read\<close>

lemma handle_large_finished:
  assumes "handle_large_message c len sv cs = (Inr b, sv', cs')"
  shows "sv_buffer sv' = [] \<and> pending_large_message sv' = pending_large_message sv"
  by (rule handle_large_Ok [OF assms]) simp

lemma recv_round_finished:
  assumes "recv_round L cs sv ps = Inl (Inr b, sv', cs', ps')" and "pending_large_message sv = None"
  shows "sv_buffer sv' = [] \<and> (pending_large_message sv' \<noteq> None \<longrightarrow> data_available sv')"
proof (cases rule: recv_round_cases [of L cs sv ps])
  case (large c len r res sv2 cs2)
  then have "handle_large_message c len (sv\<lparr>sv_stream := r\<rparr>) cs = (Inr b, sv', cs')"
    using assms(1) by simp
  from handle_large_finished [OF this] show ?thesis
    using assms(2) by simp
next
  case (frame c p r f sv2 ps2)
  have "f = Break"
    using assms(1) frame(3) by (cases f) auto
  then have "sv' = sv2\<lparr>sv_buffer := []\<rparr>"
    using assms(1) frame(3) by (simp add: take_buffer_def)
  then show ?thesis
    using dispatch_frame [OF frame(2)] assms(2) by simp
qed (use assms in \<open>auto simp: take_buffer_def\<close>)

lemma recv_loop_finished:
  "recv_loop L cs sv ps = (Inr b, sv', cs', ps') \<Longrightarrow> pending_large_message sv = None \<Longrightarrow>
    sv_buffer sv' = [] \<and> (pending_large_message sv' \<noteq> None \<longrightarrow> data_available sv')"
proof (induction L cs sv ps rule: recv_loop.induct)
  case (1 L cs sv ps)
  show ?case
  proof (cases "recv_round L cs sv ps")
    case (Inl a)
    then show ?thesis
      using "1.prems" recv_round_finished [of L cs sv ps b sv' cs' ps'] by (simp add: recv_loop.simps [of L cs sv ps])
  next
    case (Inr a)
    obtain sv2 ps2 where a: "a = (sv2, ps2)" by (cases a)
    then show ?thesis
      using "1.IH" [OF Inr a [symmetric]] recv_round_Continue(1) [of L cs sv ps sv2 ps2] "1.prems" Inr
      by (simp add: recv_loop.simps [of L cs sv ps])
  qed
qed

lemma recv_finished:
  assumes "recv L cs sv ps = (Inr b, sv', cs', ps')"
  shows "sv_buffer sv' = []" and "\<not> data_available sv' \<Longrightarrow> pending_large_message sv' = None"
proof -
  have "sv_buffer sv' = [] \<and> (pending_large_message sv' \<noteq> None \<longrightarrow> data_available sv')"
  proof (cases "pending_large_message sv")
    case None
    then show ?thesis
      using assms recv_loop_finished [of L cs sv ps b sv' cs' ps'] by (simp add: recv_def)
  next
    case (Some p)
    then obtain sv2 where "handle_large_message (fst p) (snd p) sv cs = (Inr b, sv2, cs')"
      and s: "sv' = sv2\<lparr>pending_large_message := None\<rparr>"
      using assms by (auto simp: recv_def split: prod.splits if_splits)
    from handle_large_finished [OF this(1)] s show ?thesis by simp
  qed
  then show "sv_buffer sv' = []" and "\<not> data_available sv' \<Longrightarrow> pending_large_message sv' = None" by blast+
qed

lemma drain_Inl: "recv L noop_sink sv None = (Inl e, sv', cs', ps') \<Longrightarrow> drain L query sv = (Inl e, sv')"
  by (subst drain.simps) simp

lemma drain_Inr:
  "recv L noop_sink sv None = (Inr b, sv', cs', ps') \<Longrightarrow>
    drain L query sv = (if query \<and> resetting sv' \<and> in_copy_mode sv' then (Inl QueryError, sv')
      else if data_available sv' then drain L query sv' else (Inr (), sv'))"
  by (subst drain.simps) simp

lemma same_config_resetting: "same_config sv sv' \<Longrightarrow> resetting sv' = resetting sv"
  by (simp add: same_config_def)

lemma drain_Ok:
  "drain L query sv = (res, sv') \<Longrightarrow> same_config sv sv' \<and>
    (res = Inr () \<longrightarrow> sv_buffer sv' = [] \<and> pending_large_message sv' = None \<and> \<not> data_available sv' \<and>
       (query \<and> resetting sv \<longrightarrow> \<not> in_copy_mode sv'))"
proof (induction L query sv arbitrary: res sv' rule: drain.induct)
  case (1 L query sv)
  obtain r sv2 cs2 ps2 where recv: "recv L noop_sink sv None = (r, sv2, cs2, ps2)"
    by (rule prod_cases4)
  have c: "same_config sv sv2"
    by (rule recv_config [OF recv])
  show ?case
  proof (cases r)
    case (Inl e)
    then show ?thesis
      using drain_Inl [of L sv e sv2 cs2 ps2 query] recv "1.prems" c by simp
  next
    case (Inr b)
    note ok = recv [unfolded Inr]
    consider "query \<and> resetting sv2 \<and> in_copy_mode sv2"
      | "\<not> (query \<and> resetting sv2 \<and> in_copy_mode sv2)" "\<not> data_available sv2"
      | "\<not> (query \<and> resetting sv2 \<and> in_copy_mode sv2)" "data_available sv2" by blast
    then show ?thesis
    proof cases
      case 1
      then show ?thesis
        using drain_Inr [OF ok, of query] "1.prems" c by auto
    next
      case 2
      then have "sv' = sv2"
        using drain_Inr [OF ok, of query, unfolded if_not_P [OF 2(1)]] "1.prems" by simp
      then show ?thesis
        using recv_finished [OF ok] c 2 same_config_resetting [OF c] by simp
    next
      case 3
      then have "drain L query sv2 = (res, sv')"
        using drain_Inr [OF ok, of query, unfolded if_not_P [OF 3(1)]] "1.prems" by simp
      from "1.IH" [OF recv [symmetric] Inr refl refl 3 this] show ?thesis
        using same_config_resetting [OF c] same_config_trans [OF c] by simp
    qed
  qed
qed

text \<open>An idle connection: everything the server sent has been read and forwarded.\<close>

definition quiescent :: "'l server \<Rightarrow> bool" where
  "quiescent sv \<longleftrightarrow> sv_buffer sv = [] \<and> pending_large_message sv = None \<and> \<not> data_available sv"

lemma small_simple_query_Ok:
  assumes "small_simple_query L q sv = (res, sv')"
  shows "same_config sv sv'"
    and "res = Inr () \<Longrightarrow> quiescent sv' \<and> (resetting sv \<longrightarrow> \<not> in_copy_mode sv')"
proof -
  let ?sv = "sv\<lparr>last_sql_error := None, sv_sent := sv_sent sv @ [simple_query q], sv_writable := sv_writable sv - 1\<rparr>"
  obtain r sv2 where d: "drain L True ?sv = (r, sv2)" by (cases "drain L True ?sv")
  have c: "same_config sv sv2"
    using drain_Ok [OF d] by (simp add: same_config_def)
  then have c': "same_config sv (sv2\<lparr>last_sql_error := None\<rparr>)"
    by (simp add: same_config_def)
  have m: "same_config sv (mark_bad (sv\<lparr>last_sql_error := None\<rparr>))"
    by (simp add: mark_bad_def same_config_def)
  show "same_config sv sv'"
    using assms d c c' m
    by (auto simp: small_simple_query_def send_bytes_def and_then_def split: if_splits sum.splits option.splits)
  assume "res = Inr ()"
  then have "r = Inr ()" "sv' = sv2"
    using assms d
    by (auto simp: small_simple_query_def send_bytes_def and_then_def split: if_splits sum.splits option.splits)
  then show "quiescent sv' \<and> (resetting sv \<longrightarrow> \<not> in_copy_mode sv')"
    using drain_Ok [OF d] by (simp add: quiescent_def)
qed

lemma small_simple_query_quiescent: "small_simple_query L q sv = (Inr (), sv') \<Longrightarrow> quiescent sv'"
  using small_simple_query_Ok(2) by blast

lemma quiescent_params [simp]:
  "quiescent (sv\<lparr>server_parameters := p, cleanup_st := c\<rparr>) = quiescent sv"
  "quiescent (sv\<lparr>in_transaction := a, in_copy_mode := b\<rparr>) = quiescent sv"
  "quiescent (reconcile_cache sv) = quiescent sv"
  by (simp_all add: quiescent_def reconcile_cache_def Let_def)

lemma reconcile_cache_simps [simp]:
  "has_pending_cache_entries (reconcile_cache sv) = False" "deferred_eviction_closes (reconcile_cache sv) = []"
  "cleanup_connections (reconcile_cache sv) = cleanup_connections sv"
  by (simp_all add: reconcile_cache_def Let_def)

lemma cleanup_legacy_Ok:
  assumes "cleanup_legacy L sv = (Inr (), sv')" and "quiescent sv"
  shows "quiescent sv' \<and> \<not> in_transaction sv' \<and> \<not> in_copy_mode sv' \<and>
    \<not> has_pending_cache_entries sv' \<and> deferred_eviction_closes sv' = [] \<and>
    (cleanup_connections sv \<noteq> CleanupOff \<longrightarrow> \<not> needs_cleanup (cleanup_st sv'))"
proof -
  obtain sv1 where r: "(if in_transaction sv then small_simple_query L (ascii ''ROLLBACK'') sv
      else (Inr (), sv)) = (Inr (), sv1)"
    using assms(1) unfolding cleanup_legacy_def and_then_unit by blast
  have c1: "same_config sv sv1" and q1: "quiescent sv1"
    using r assms(2)
    by (auto split: if_splits dest: small_simple_query_Ok(1) small_simple_query_quiescent)
  define sv2 where "sv2 = reconcile_cache sv1"
  let ?reset = "needs_cleanup (cleanup_st sv2) \<and> cleanup_connections sv2 \<noteq> CleanupOff"
  let ?clean = "\<lambda>sv. sv\<lparr>server_parameters :=
     (if needs_cleanup_set (cleanup_st sv2) then forget_untracked (server_parameters sv)
      else remove_param (ascii ''role'') (server_parameters sv)), cleanup_st := cleanup_reset (cleanup_st sv)\<rparr>"
  obtain sv3 where s: "if ?reset then small_simple_query L (reset_string (cleanup_st sv2)) sv2 = (Inr (), sv3) else sv3 = sv2"
    and sv': "sv' = (if ?reset then ?clean sv3 else sv3)\<lparr>in_transaction := False, in_copy_mode := False\<rparr>"
    using assms(1) r unfolding cleanup_legacy_def and_then_unit Let_def sv2_def
    by (auto split: if_splits simp: and_then_unit)
  have "quiescent sv3" "same_config sv2 sv3"
    using s q1
    by (auto simp: sv2_def split: if_splits dest: small_simple_query_Ok(1) small_simple_query_quiescent)
  moreover have "cleanup_connections sv2 = cleanup_connections sv"
    using c1 by (simp add: sv2_def same_config_def)
  moreover have "\<not> needs_cleanup (cleanup_reset c)" for c
    by (simp add: needs_cleanup_def cleanup_reset_def)
  ultimately show ?thesis
    using s unfolding sv' by (auto simp: same_config_def sv2_def split: if_splits)
qed

lemma reset_exchange_Ok:
  assumes "reset_exchange L query sv = (Inr (), sv')" and "query \<noteq> None \<or> in_transaction sv" and "resetting sv"
  shows "quiescent sv' \<and> \<not> in_transaction sv' \<and> \<not> in_copy_mode sv' \<and> same_config sv sv'"
proof -
  obtain sv1 where r: "(if in_transaction sv then small_simple_query L (ascii ''ROLLBACK'') sv
      else (Inr (), sv)) = (Inr (), sv1)"
    and s: "(case query of Some q \<Rightarrow> small_simple_query L q sv1 | None \<Rightarrow> (Inr (), sv1)) = (Inr (), sv')"
    and f: "\<not> in_transaction sv'" "\<not> in_copy_mode sv'"
    using assms(1) unfolding reset_exchange_def and_then_unit
    by (auto simp: and_then_unit split: if_splits option.splits)
  have c1: "same_config sv sv1" and q1: "in_transaction sv \<longrightarrow> quiescent sv1"
    using r by (auto split: if_splits dest: small_simple_query_Ok(1) small_simple_query_quiescent)
  have "same_config sv1 sv'" "quiescent sv'"
    using s q1 assms(2)
    by (auto split: option.splits dest: small_simple_query_Ok(1) small_simple_query_quiescent)
  with f c1 show ?thesis
    using same_config_trans by blast
qed

section \<open>A clean checkin\<close>

text \<open>
  The state a connection must have before another client gets it: nothing is left to read, no
  transaction and no COPY is open, and, unless cleaning is switched off, no session state of the last
  client and no difference between the statement cache and the server is left to repair.
\<close>

definition clean :: "'l server \<Rightarrow> bool" where
  "clean sv \<longleftrightarrow> quiescent sv \<and> \<not> in_transaction sv \<and> \<not> in_copy_mode sv"

lemma reset_with_query_Ok:
  assumes "reset_with_query L expired query sv = (Inr (), sv')" and "query \<noteq> None \<or> in_transaction sv"
  shows "clean sv'"
    and "query \<noteq> None \<Longrightarrow> \<not> unfinished_cache sv'"
    and "\<not> has_pending_cache_entries sv \<Longrightarrow> deferred_eviction_closes sv = [] \<Longrightarrow>
      \<not> has_pending_cache_entries sv' \<and> deferred_eviction_closes sv' = []"
proof -
  obtain sv1 where r: "reset_exchange L query (begin_reset sv) = (Inr (), sv1)"
    using assms(1) by (auto simp: reset_with_query_def Let_def split: prod.splits if_splits sum.splits)
  have ok: "quiescent sv1 \<and> \<not> in_transaction sv1 \<and> \<not> in_copy_mode sv1 \<and> same_config (begin_reset sv) sv1"
    by (rule reset_exchange_Ok [OF r]) (use assms(2) in \<open>simp_all add: begin_reset_def\<close>)
  have exp: "\<not> expired"
    using assms(1) by (auto simp: reset_with_query_def Let_def split: prod.splits if_splits)
  show "clean sv'"
    using assms(1) r ok exp by (auto simp: reset_with_query_def Let_def clean_def quiescent_def split: if_splits)
  show "\<not> unfinished_cache sv'" if "query \<noteq> None"
    using assms(1) r exp that
    by (auto simp: reset_with_query_def Let_def unfinished_cache_def needs_cleanup_def cleanup_reset_def
        split: if_splits)
  show "\<not> has_pending_cache_entries sv' \<and> deferred_eviction_closes sv' = []"
    if "\<not> has_pending_cache_entries sv" "deferred_eviction_closes sv = []"
    using assms(1) r ok exp that
    by (auto simp: reset_with_query_def Let_def same_config_def begin_reset_def split: if_splits)
qed

text \<open>What a successful cleanup leaves behind, for the three ways it can go.\<close>

definition repaired :: "'l server \<Rightarrow> 'l server \<Rightarrow> bool" where
  "repaired sv sv' \<longleftrightarrow> \<not> has_pending_cache_entries sv' \<and> deferred_eviction_closes sv' = [] \<and>
     (needs_cleanup (cleanup_st sv') \<longrightarrow>
        custom_cleanup_enabled sv \<and> in_transaction sv \<and> \<not> unfinished_cache sv)"

lemma checkin_custom_Ok:
  assumes "custom_cleanup_enabled sv" and "quiescent sv" and "\<not> in_copy_mode sv"
    and "query = (if needed then cleanup_server_query sv else None)" and "unfinished_cache sv \<longrightarrow> needed"
    and "(if query \<noteq> None \<or> in_transaction sv then reset_with_query L expired query sv else (Inr (), sv))
           = (Inr (), sv')"
  shows "clean sv' \<and> repaired sv sv'"
proof (cases "query \<noteq> None \<or> in_transaction sv")
  case True
  then have r: "reset_with_query L expired query sv = (Inr (), sv')"
    using assms(6) by simp
  note ok = reset_with_query_Ok [OF r True]
  show ?thesis
  proof (cases "query = None")
    case True
    then have "\<not> unfinished_cache sv"
      using assms(1,4,5) by (auto simp: custom_cleanup_enabled_def)
    then show ?thesis
      using ok(1,3) assms(1) True \<open>query \<noteq> None \<or> in_transaction sv\<close>
      by (auto simp: repaired_def unfinished_cache_def)
  next
    case False
    then show ?thesis
      using ok(1,2) by (auto simp: repaired_def unfinished_cache_def)
  qed
next
  case False
  then show ?thesis
    using assms by (auto simp: repaired_def clean_def unfinished_cache_def custom_cleanup_enabled_def split: if_splits)
qed

lemma checkin_inner_bad:
  assumes "in_copy_mode sv \<or> data_available sv \<or> sv_buffer sv \<noteq> [] \<or> bad sv"
  shows "bad (snd (checkin_cleanup_inner L expired sv))"
proof -
  consider "in_copy_mode sv" | "\<not> in_copy_mode sv" "data_available sv"
    | "\<not> in_copy_mode sv" "\<not> data_available sv" "sv_buffer sv \<noteq> []"
    | "\<not> in_copy_mode sv" "\<not> data_available sv" "sv_buffer sv = []" "bad sv"
    using assms by blast
  then show ?thesis
    by cases (simp_all add: checkin_cleanup_inner_def Let_def mark_bad_def)
qed

lemma checkin_inner_Ok:
  assumes "checkin_cleanup_inner L expired sv = (Inr (), sv')" and "\<not> bad sv" and "\<not> in_copy_mode sv"
    and "quiescent (sv\<lparr>pending_large_message := None\<rparr>)"
  shows "clean sv' \<and> (cleanup_connections sv \<noteq> CleanupOff \<longrightarrow> repaired sv sv')"
proof -
  let ?sv = "sv\<lparr>pending_large_message := None\<rparr>"
  have same: "repaired ?sv = repaired sv" "custom_cleanup_enabled ?sv = custom_cleanup_enabled sv"
      "unfinished_cache ?sv = unfinished_cache sv"
    by (auto simp: fun_eq_iff repaired_def custom_cleanup_enabled_def unfinished_cache_def)
  have go: "\<not> data_available sv" "sv_buffer sv = []"
    using assms(4) by (simp_all add: quiescent_def)
  consider "custom_cleanup_enabled sv"
    | "\<not> custom_cleanup_enabled sv"
      "in_transaction sv \<or> cleanup_connections sv \<noteq> CleanupOff \<and> unfinished_cache sv"
    | "\<not> custom_cleanup_enabled sv"
      "\<not> (in_transaction sv \<or> cleanup_connections sv \<noteq> CleanupOff \<and> unfinished_cache sv)" by blast
  then show ?thesis
  proof cases
    case 1
    define needed where "needed = (unfinished_cache ?sv \<or> (cleanup_connections ?sv = Always \<and> used_since_cleanup ?sv))"
    define query where "query = (if needed then cleanup_server_query ?sv else None)"
    have "checkin_cleanup_inner L expired sv =
        (if query \<noteq> None \<or> in_transaction ?sv then reset_with_query L expired query ?sv else (Inr (), ?sv))"
      unfolding checkin_cleanup_inner_def Let_def query_def needed_def using 1 assms(2,3) go same by auto
    then have "clean sv' \<and> repaired ?sv sv'"
      using checkin_custom_Ok [OF _ assms(4) _ query_def] 1 assms(1,3) same(2)
      by (auto simp: needed_def)
    then show ?thesis by (simp add: same)
  next
    case 2
    obtain r sv1 where l: "cleanup_legacy L (begin_reset ?sv) = (r, sv1)" by (cases "cleanup_legacy L (begin_reset ?sv)")
    have "r = Inr ()" "sv' = sv1\<lparr>resetting := False, bad := False\<rparr>"
      using 2 assms go same l by (auto simp: checkin_cleanup_inner_def Let_def split: if_splits)
    moreover have "quiescent (begin_reset ?sv)" "cleanup_connections (begin_reset ?sv) = cleanup_connections sv"
      using assms(4) by (simp_all add: quiescent_def begin_reset_def)
    ultimately show ?thesis
      using cleanup_legacy_Ok [of L "begin_reset ?sv" sv1] l by (auto simp: clean_def repaired_def quiescent_def)
  next
    case 3
    then have "sv' = ?sv"
      using assms go same by (auto simp: checkin_cleanup_inner_def Let_def)
    then show ?thesis
      using 3 assms by (auto simp: clean_def repaired_def unfinished_cache_def)
  qed
qed


section \<open>The answer to a query of pg\_doorman\<close>

text \<open>
  The effect of one message on the connection, without the bytes; and the messages that occur in the
  answer to an internal query before its ReadyForQuery.
\<close>

definition effect :: "'l names \<Rightarrow> frame \<Rightarrow> 'l server \<Rightarrow> 'l server" where
  "effect L f sv = fst (snd (recv_dispatch L (fst f) (snd f) sv None))"

definition quiet :: "frame \<Rightarrow> bool" where
  "quiet f \<longleftrightarrow> fst f \<notin> set (map code ''ZGHd'') \<and>
     (fst f = code (CHR ''S'') \<longrightarrow>
        (case split_string (snd f) of Inl e \<Rightarrow> False | Inr (k, r) \<Rightarrow> \<not> isl (split_string r)))"

definition fits :: "'l server \<Rightarrow> frame \<Rightarrow> bool" where
  "fits sv f \<longleftrightarrow> length (snd f) + 4 \<le> 256 * 1024 * 1024 \<and>
     \<not> is_large (fst f) (of_nat (length (snd f)) + 4) sv"

lemma handlers_stream:
  "handle_ready_for_query m (sv\<lparr>sv_stream := s, sv_buffer := b\<rparr>) =
     map_prod id (\<lambda>sv. sv\<lparr>sv_stream := s, sv_buffer := b\<rparr>) (handle_ready_for_query m sv)"
  "answered (sv\<lparr>sv_stream := s, sv_buffer := b\<rparr>) = (answered sv)\<lparr>sv_stream := s, sv_buffer := b\<rparr>"
  "handle_error_response L m (sv\<lparr>sv_stream := s, sv_buffer := b\<rparr>) =
     (handle_error_response L m sv)\<lparr>sv_stream := s, sv_buffer := b\<rparr>"
  "handle_command_complete L m (sv\<lparr>sv_stream := s, sv_buffer := b\<rparr>) =
     (handle_command_complete L m sv)\<lparr>sv_stream := s, sv_buffer := b\<rparr>"
  subgoal by (simp add: handle_ready_for_query_def mark_bad_def split: list.split)
  subgoal by (simp add: answered_def decrement_expected_def)
  subgoal by (cases "prepared_cache_of sv"; cases "registering_prepared_statement sv = []";
        cases "async_mode sv"; simp add: handle_error_response_def Let_def mark_bad_def)
  subgoal by (cases "classify_command_complete m")
        (simp_all add: handle_command_complete_def Let_def custom_cleanup_enabled_def
          drop_prepared_statement_cache_on_reset_def)
  done

lemma code_neq [simp]: "code c = code d \<longleftrightarrow> c = d"
proof -
  have "inj (\<lambda>c. of_nat (of_char c) :: u8)"
    by (rule injI) (metis of_char_eq_iff unat_ascii)
  then show ?thesis by (auto simp: code_def dest: injD)
qed

lemma dispatch_quiet:
  assumes "quiet (c, p)"
  obtains f where "recv_dispatch L c p (sv\<lparr>sv_stream := s, sv_buffer := b\<rparr>) None
      = (f, (effect L (c, p) sv)\<lparr>sv_stream := s, sv_buffer := b\<rparr>, None)"
    "f = Continue \<or> f = Break \<and> data_available (effect L (c, p) sv)"
proof -
  have "\<exists>f. recv_dispatch L c p (sv\<lparr>sv_stream := s, sv_buffer := b\<rparr>) None
      = (f, (effect L (c, p) sv)\<lparr>sv_stream := s, sv_buffer := b\<rparr>, None) \<and>
    (f = Continue \<or> f = Break \<and> data_available (effect L (c, p) sv))"
  proof (cases "c = code (CHR ''S'')")
    case True
    then obtain k r v r' where "split_string p = Inr (k, r)" "split_string r = Inr (v, r')"
      using assms by (auto simp: quiet_def isl_def split: sum.splits) (metis old.sum.exhaust prod.exhaust)
    with True show ?thesis
      by (simp add: effect_def recv_dispatch_def handle_parameter_status_def)
  next
    case False
    then show ?thesis
      using assms
      by (auto simp: quiet_def effect_def recv_dispatch_def Let_def handlers_stream flush_or_continue_def
          answered_def decrement_expected_def)
  qed
  with that show thesis by blast
qed

definition ready :: "u8 \<Rightarrow> frame" where
  "ready t = (code (CHR ''Z''), [t])"

definition status_byte :: "u8 \<Rightarrow> bool" where
  "status_byte t \<longleftrightarrow> t \<in> set (map code ''TIE'')"

lemma dispatch_ready:
  assumes "status_byte t"
  shows "recv_dispatch L (code (CHR ''Z'')) [t] sv ps = (Break, effect L (ready t) sv, ps)"
    and "effect L (ready t) sv = sv\<lparr>in_transaction := (t \<noteq> code (CHR ''I'')), data_available := False\<rparr>"
  using assms by (auto simp: effect_def ready_def status_byte_def recv_dispatch_def handle_ready_for_query_def)

lemma effect_stream:
  assumes "quiet f \<or> (\<exists>t. status_byte t \<and> f = ready t)"
  shows "effect L f (sv\<lparr>sv_stream := s, sv_buffer := b\<rparr>) = (effect L f sv)\<lparr>sv_stream := s, sv_buffer := b\<rparr>"
proof (cases "quiet f")
  case True
  obtain fl where "recv_dispatch L (fst f) (snd f) (sv\<lparr>sv_stream := s, sv_buffer := b\<rparr>) None
      = (fl, (effect L f sv)\<lparr>sv_stream := s, sv_buffer := b\<rparr>, None)"
    using dispatch_quiet [where c = "fst f" and p = "snd f" and L = L and sv = sv and s = s and b = b] True
    by (metis prod.collapse)
  then show ?thesis
    by (simp add: effect_def)
next
  case False
  then obtain t where "status_byte t" "f = ready t"
    using assms by blast
  then show ?thesis
    by (simp add: dispatch_ready(2))
qed

lemma fold_effect_stream:
  assumes "\<forall>f \<in> set fs. quiet f \<or> (\<exists>t. status_byte t \<and> f = ready t)"
  shows "(fold (effect L) fs (sv\<lparr>sv_stream := s, sv_buffer := b\<rparr>)) =
    (fold (effect L) fs sv)\<lparr>sv_stream := s, sv_buffer := b\<rparr>"
  using assms by (induction fs arbitrary: sv) (simp_all add: effect_stream)

lemma round_frame:
  assumes "\<not> async_mode sv" and "sv_stream sv = frame_bytes (c, p) @ r" and "fits sv (c, p)"
    and "recv_dispatch L c p (sv\<lparr>sv_stream := r, sv_buffer := sv_buffer sv @ frame_bytes (c, p)\<rparr>) None
      = (fl, sv', ps')"
  shows "recv_round L cs sv None =
     (case fl of Raise e \<Rightarrow> Inl (Inl e, sv', cs, ps')
      | Break \<Rightarrow> Inl (take_buffer sv' cs ps') | Continue \<Rightarrow> Inr (sv', ps'))"
proof -
  define len :: u32 where "len = of_nat (length p) + 4"
  have n: "length p + 4 \<le> 256 * 1024 * 1024"
    using assms(3) by (simp add: fits_def)
  have u: "unat len = 4 + length p"
    using n by (simp add: len_def unat_word_ariths unat_of_nat take_bit_nat_eq_self)
  have "sint (of_nat (length p + 4) :: u32) = int (length p + 4)"
    using n by (intro sint_small_nat) simp
  then have l: "\<not> len <s 4"
    by (simp add: word_sless_alt len_def)
  have "read_message_header (sv_stream sv) = Inr ((c, len), p @ r)"
    using assms(2) by (simp add: read_header_Inr frame_bytes_def len_def)
  moreover have "read_message_body_reuse c len (p @ r) = Inr (frame_bytes (c, p), r)"
    using read_exact_body_frame [OF l] u l by (simp add: read_message_body_reuse_def)
  moreover have "\<not> MAX_MESSAGE_SIZE <s len" "\<not> is_large c len sv"
    using MAX_MESSAGE_SIZE_less [OF l] u n assms(3) by (simp_all add: fits_def len_def)
  ultimately show ?thesis
    using assms(1,4) by (simp add: recv_round_def Let_def split: flow.split)
qed

lemma drain_round_Continue:
  assumes "recv_round L noop_sink sv None = Inr (sv', None)" and "pending_large_message sv = None"
  shows "drain L query sv = drain L query sv'"
proof -
  have "recv L noop_sink sv None = recv L noop_sink sv' None"
    using assms recv_round_Continue(1) [OF assms(1)]
    by (simp add: recv_def recv_loop.simps [of L noop_sink sv None])
  then show ?thesis
    by (simp add: drain.simps [of L query sv] drain.simps [of L query sv'])
qed

lemma drain_round_Break:
  assumes "recv_round L noop_sink sv None = Inl (take_buffer sv' noop_sink None)"
    and "pending_large_message sv = None" and "\<not> (query \<and> resetting sv' \<and> in_copy_mode sv')"
  shows "drain L query sv = (if data_available sv' then drain L query (sv'\<lparr>sv_buffer := []\<rparr>)
     else (Inr (), sv'\<lparr>sv_buffer := []\<rparr>))"
proof -
  have "recv L noop_sink sv None = (Inr (sv_buffer sv'), sv'\<lparr>sv_buffer := []\<rparr>, noop_sink, None)"
    using assms(1,2) by (simp add: recv_def recv_loop.simps [of L noop_sink sv None] take_buffer_def)
  from drain_Inr [OF this, of query] show ?thesis
    using assms(3) by auto
qed

lemma effect_frame:
  "same_stream sv (effect L f sv)" "same_config sv (effect L f sv)"
  using dispatch_stream [of sv L "fst f" "snd f" None] same_config_dispatch [of sv L "fst f" "snd f" None]
  by (simp_all add: effect_def)

lemma effect_copy_mode:
  assumes "quiet f" and "in_copy_mode (effect L f sv)"
  shows "in_copy_mode sv"
proof -
  have e: "\<not> in_copy_mode (handle_error_response L m sv)" for m
    by (simp add: handle_error_response_def Let_def mark_bad_def)
  have c: "\<not> in_copy_mode (handle_command_complete L m sv)" for m
    by (simp add: handle_command_complete_def Let_def drop_prepared_statement_cache_on_reset_def
        split: command_complete_effect.split)
  have a: "in_copy_mode (answered sv') = in_copy_mode sv'" for sv' :: "'a server"
    by (simp add: answered_def decrement_expected_def)
  have p: "in_copy_mode (fst (snd (handle_parameter_status m sv ps))) = in_copy_mode sv" for m ps
    by (simp add: handle_parameter_status_def split: sum.split prod.split)
  show ?thesis
    using assms e c a p [of "snd f" None]
    unfolding effect_def recv_dispatch_def quiet_def Let_def
    by (auto split: if_splits sum.splits prod.splits)
qed

lemma fits_same: "max_message_size sv' = max_message_size sv \<Longrightarrow> fits sv' = fits sv"
  by (simp add: fun_eq_iff fits_def is_large_def)

lemma drain_frames:
  "list_all quiet fs \<Longrightarrow> list_all (fits sv) fs \<Longrightarrow> status_byte t \<Longrightarrow>
    sv_stream sv = frames fs @ frame_bytes (ready t) @ rest \<Longrightarrow>
    \<not> async_mode sv \<Longrightarrow> pending_large_message sv = None \<Longrightarrow> \<not> (query \<and> resetting sv \<and> in_copy_mode sv) \<Longrightarrow>
    drain L query sv = (Inr (), (fold (effect L) (fs @ [ready t]) sv)\<lparr>sv_stream := rest, sv_buffer := []\<rparr>)"
proof (induction fs arbitrary: sv)
  case Nil
  let ?sv = "sv\<lparr>sv_stream := rest, sv_buffer := sv_buffer sv @ frame_bytes (ready t)\<rparr>"
  have "fits sv (code (CHR ''Z''), [t])"
    by (simp add: fits_def is_large_def)
  then have "recv_round L noop_sink sv None = Inl (take_buffer (effect L (ready t) ?sv) noop_sink None)"
    using round_frame [of sv "code (CHR ''Z'')" "[t]" rest L Break "effect L (ready t) ?sv" None noop_sink]
      Nil dispatch_ready(1) [of t L ?sv None]
    by (simp add: frames_def ready_def)
  from drain_round_Break [OF this, of query] show ?case
    using Nil effect_stream [where f = "ready t" and L = L and sv = sv and s = rest] by (simp add: dispatch_ready(2) same_stream_def)
next
  case (Cons f fs)
  obtain c p where f: "f = (c, p)" by (cases f)
  let ?r = "frames fs @ frame_bytes (ready t) @ rest"
  let ?b = "sv_buffer sv @ frame_bytes (c, p)"
  let ?sv = "effect L (c, p) sv"
  obtain fl where d: "recv_dispatch L c p (sv\<lparr>sv_stream := ?r, sv_buffer := ?b\<rparr>) None
      = (fl, ?sv\<lparr>sv_stream := ?r, sv_buffer := ?b\<rparr>, None)"
    and fl: "fl = Continue \<or> fl = Break \<and> data_available ?sv"
    using dispatch_quiet [where c = c and p = p and L = L and sv = sv and s = ?r and b = ?b] Cons.prems(1) f by auto
  have round: "recv_round L noop_sink sv None =
     (case fl of Raise e \<Rightarrow> Inl (Inl e, ?sv\<lparr>sv_stream := ?r, sv_buffer := ?b\<rparr>, noop_sink, None)
      | Break \<Rightarrow> Inl (take_buffer (?sv\<lparr>sv_stream := ?r, sv_buffer := ?b\<rparr>) noop_sink None)
      | Continue \<Rightarrow> Inr (?sv\<lparr>sv_stream := ?r, sv_buffer := ?b\<rparr>, None))"
    by (rule round_frame [OF _ _ _ d]) (use Cons.prems f in \<open>simp_all add: frames_def\<close>)
  note same = effect_frame [of sv L "(c, p)"]
  have step: "drain L query (?sv\<lparr>sv_stream := ?r, sv_buffer := b\<rparr>) =
      (Inr (), (fold (effect L) (fs @ [ready t]) ?sv)\<lparr>sv_stream := rest, sv_buffer := []\<rparr>)" for b
  proof -
    let ?s = "?sv\<lparr>sv_stream := ?r, sv_buffer := b\<rparr>"
    have all: "\<forall>f \<in> set (fs @ [ready t]). quiet f \<or> (\<exists>t. status_byte t \<and> f = ready t)"
      using Cons.prems(1,3) by (auto simp: list_all_iff)
    have "fits ?s = fits sv"
      using same(2) by (intro fits_same) (simp add: same_config_def)
    moreover have "\<not> (query \<and> resetting ?s \<and> in_copy_mode ?s)"
      using Cons.prems(1,7) same(2) effect_copy_mode [of "(c, p)" L sv] f by (auto simp: same_config_def)
    ultimately have "drain L query ?s = (Inr (), (fold (effect L) (fs @ [ready t]) ?s)\<lparr>sv_stream := rest, sv_buffer := []\<rparr>)"
      using Cons.prems same by (intro Cons.IH) (simp_all add: same_config_def same_stream_def)
    then show ?thesis
      by (simp only: fold_effect_stream [OF all]) simp
  qed
  show ?case
    using fl
  proof
    assume "fl = Continue"
    then show ?thesis
      using drain_round_Continue [of L sv "?sv\<lparr>sv_stream := ?r, sv_buffer := ?b\<rparr>" query] round step Cons.prems f by simp
  next
    assume "fl = Break \<and> data_available ?sv"
    moreover have "\<not> (query \<and> resetting ?sv \<and> in_copy_mode ?sv)"
      using Cons.prems(1,7) same(2) effect_copy_mode [of "(c, p)" L sv] f by (auto simp: same_config_def)
    ultimately show ?thesis
      using drain_round_Break [of L sv "?sv\<lparr>sv_stream := ?r, sv_buffer := ?b\<rparr>" query] round step [of "[]"]
        Cons.prems f by simp
  qed
qed

lemma last_sql_error_effect:
  assumes "quiet f"
  shows "last_sql_error (effect L f sv) = None \<longleftrightarrow>
    last_sql_error sv = None \<and> fst f \<noteq> code (CHR ''E'') \<and> \<not> (resetting sv \<and> fst f = code (CHR ''I''))"
proof -
  have e: "(last_sql_error (handle_error_response L m sv) = None) = False" for m
    by (simp add: handle_error_response_def Let_def mark_bad_def)
  have c: "last_sql_error (handle_command_complete L m sv) = last_sql_error sv" for m
    by (simp add: handle_command_complete_def Let_def drop_prepared_statement_cache_on_reset_def
        split: command_complete_effect.split)
  have a: "last_sql_error (answered sv') = last_sql_error sv'" for sv' :: "'a server"
    by (simp add: answered_def decrement_expected_def)
  have p: "last_sql_error (fst (snd (handle_parameter_status m sv ps))) = last_sql_error sv" for m ps
    by (simp add: handle_parameter_status_def split: sum.split prod.split)
  show ?thesis
    using assms e c a p [of "snd f" None]
    unfolding effect_def recv_dispatch_def quiet_def Let_def ends_operation_def
    by (auto split: if_splits sum.splits prod.splits)
qed

lemma last_sql_error_fold:
  "list_all quiet fs \<Longrightarrow> last_sql_error (fold (effect L) fs sv) = None \<longleftrightarrow>
    last_sql_error sv = None \<and> \<not> (\<exists>f \<in> set fs. fst f = code (CHR ''E'') \<or> resetting sv \<and> fst f = code (CHR ''I''))"
proof (induction fs arbitrary: sv)
  case (Cons f fs)
  have "resetting (effect L f sv) = resetting sv"
    using effect_frame(2) [of sv L f] by (simp add: same_config_def)
  with Cons show ?case
    using last_sql_error_effect [of f L sv] by auto
qed simp

lemma fold_effect_frame: "same_stream sv (fold (effect L) fs sv) \<and> same_config sv (fold (effect L) fs sv)"
proof (induction fs arbitrary: sv)
  case (Cons f fs)
  show ?case
    using effect_frame [of sv L f] Cons.IH [of "effect L f sv"] same_config_trans same_stream_trans by fastforce
qed (simp add: same_stream_def)


section \<open>A connection left in a transaction\<close>

text \<open>A connection whose client has disappeared in a transaction, and the answer to its ROLLBACK.\<close>

definition rollback_answer :: "frame list" where
  "rollback_answer = [(code (CHR ''C''), ascii ''ROLLBACK'' @ [0])]"

definition abandoned_server :: "(nat \<times> (bytes \<times> unit) list) server" where
  "abandoned_server = \<lparr>
     sv_stream = frames rollback_answer @ frame_bytes (ready (code (CHR ''I''))), sv_sent = [],
     sv_writable = 10, sv_buffer = [], in_transaction = True, data_available = False,
     in_copy_mode = False, async_mode = False, expected_responses = 0, bad = False,
     cleanup_st = cleanup_new, cleanup_connections = Adaptive, cleanup_server_query = None,
     used_since_cleanup = False, resetting = False, prepared_cache_of = Some (2, []),
     registering_prepared_statement = [], has_pending_cache_entries = False,
     deferred_eviction_closes = [], session_mode = False, max_message_size = 0,
     pending_large_message = None, operator_managed_startup_keys = {}, last_sql_error = None,
     server_parameters = new_params\<rparr>"



section \<open>Transparency\<close>

lemma proxy_copy_data_prefix:
  assumes "proxy_copy_data rd wr len s = (e, out, rest)"
  shows "\<exists>r. s = out @ r"
proof (cases "0 < len")
  case True
  then show ?thesis
    using copy_loop_prefix [OF assms [unfolded proxy_copy_data_def]] by auto
next
  case False
  then show ?thesis
    using assms by (auto simp: proxy_copy_data_def copy_loop.simps [of rd wr 0 0] bytes_read_def split: io_event.splits)
qed

lemma handle_large_Inl:
  assumes "handle_large_message c len sv cs = (Inl e, sv', cs')"
  shows "\<exists>out r. cs_out cs' = cs_out cs @ out \<and> sv_buffer sv @ c # put_i32 len @ sv_stream sv = out @ r"
proof -
  let ?n = "unat (scast len - 4 :: u64)"
  obtain e2 out rest where c: "proxy_copy_data (cs_reads cs) (cs_writes cs) ?n (sv_stream sv) = (e2, out, rest)"
    by (rule prod_cases3)
  have "cs' = cs \<or> cs_out cs' = cs_out cs @ sv_buffer sv @ c # put_i32 len @ out"
    using assms c
    by (auto simp: handle_large_message_def handle_large_data_row_def handle_large_copy_data_def
        handle_large_function_call_response_def handle_large_def Let_def split: if_splits option.splits)
  then show ?thesis
    using proxy_copy_data_prefix [OF c] by auto
qed

lemma recv_loop_Inl:
  "recv_loop L cs sv ps = (Inl e, sv', cs', ps') \<Longrightarrow>
    \<exists>out r. cs_out cs' = cs_out cs @ out \<and> sv_buffer sv @ sv_stream sv = out @ r"
proof (induction L cs sv ps rule: recv_loop.induct)
  case (1 L cs sv ps)
  show ?case
  proof (cases "recv_round L cs sv ps")
    case (Inl a)
    then have "recv_round L cs sv ps = Inl (Inl e, sv', cs', ps')"
      using "1.prems" by (simp add: recv_loop.simps [of L cs sv ps])
    then show ?thesis
    proof (cases rule: recv_round_cases [of L cs sv ps])
      case (large c len r res sv2 cs2)
      with \<open>recv_round L cs sv ps = Inl (Inl e, sv', cs', ps')\<close> show ?thesis
        using handle_large_Inl [of c len "sv\<lparr>sv_stream := r\<rparr>" cs e sv' cs'] by simp
    next
      case (frame c p r f sv2 ps2)
      with \<open>recv_round L cs sv ps = Inl (Inl e, sv', cs', ps')\<close> have "cs' = cs"
        by (cases f) (simp_all add: take_buffer_def)
      then show ?thesis by simp
    qed (simp_all add: take_buffer_def)
  next
    case (Inr a)
    obtain sv2 ps2 where a: "a = (sv2, ps2)" by (cases a)
    then have r: "recv_round L cs sv ps = Inr (sv2, ps2)" and "recv_loop L cs sv2 ps2 = (Inl e, sv', cs', ps')"
      using "1.prems" Inr by (simp_all add: recv_loop.simps [of L cs sv ps])
    from "1.IH" [OF Inr a [symmetric] this(2)] show ?thesis
      by (simp add: recv_round_Continue(2) [OF r])
  qed
qed

text \<open>
  C6. The client gets exactly what the server sent. A successful call of \<^verbatim>\<open>recv\<close> splits the bytes
  of the server without loss, change or reordering into those written straight to the client (large
  messages, streamed in chunks), those returned for forwarding, and those still buffered, announced by
  a header that was already read, or unread; and when a call fails, what reached the client is still a
  prefix of the bytes of the server.
\<close>

theorem recv_transparent:
  assumes "recv L cs sv ps = (res, sv', cs', ps')"
  shows "\<exists>out. cs_out cs' = cs_out cs @ out \<and>
    (case res of
       Inr b \<Rightarrow> sv_buffer sv @ inflight sv @ sv_stream sv = out @ b @ sv_buffer sv' @ inflight sv' @ sv_stream sv'
     | Inl e \<Rightarrow> \<exists>r. sv_buffer sv @ inflight sv @ sv_stream sv = out @ r)"
proof (cases res)
  case (Inr b)
  then show ?thesis
    using recv_Ok [of L cs sv ps b sv' cs' ps'] assms by (simp add: forwards_def)
next
  case (Inl e)
  show ?thesis
  proof (cases "pending_large_message sv")
    case None
    then show ?thesis
      using recv_loop_Inl [of L cs sv ps e sv' cs' ps'] assms Inl by (simp add: recv_def inflight_def)
  next
    case (Some p)
    obtain r sv2 cs2 where h: "handle_large_message (fst p) (snd p) sv cs = (r, sv2, cs2)"
      by (rule prod_cases3)
    then have "r = Inl e" "cs2 = cs'"
      using assms Some Inl by (auto simp: recv_def split: prod.splits)
    with h handle_large_Inl [of "fst p" "snd p" sv cs e sv2 cs'] show ?thesis
      using Some Inl by (simp add: inflight_def case_prod_beta)
  qed
qed

theorem recv_transparent_witness:
  "\<exists>b sv' cs' ps'. recv list_lru noop_sink abandoned_server None = (Inr b, sv', cs', ps') \<and>
     sv_stream abandoned_server = cs_out cs' @ b @ sv_buffer sv' @ inflight sv' @ sv_stream sv'"
proof -
  obtain res sv' cs' ps' where r: "recv list_lru noop_sink abandoned_server None = (res, sv', cs', ps')"
    by (rule prod_cases4)
  have "\<not> isl (fst (recv list_lru noop_sink abandoned_server None))"
    by code_simp
  then obtain b where "res = Inr b"
    using r by (cases res) auto
  then show ?thesis
    using recv_transparent [OF r] r by (auto simp: noop_sink_def abandoned_server_def inflight_def)
qed

end
