(* ===== verification/Prepared.thy ===== *)
theory Prepared imports Server_Exchange Query_Cache Batch begin

text \<open>
  Prepared statements of a client (\<^verbatim>\<open>src/src/client/core.rs\<close>, \<^verbatim>\<open>src/src/client/protocol.rs\<close>).

  A client names its statements itself; the pooler gives every statement a name of its own, shared by
  all clients of a pool, and rewrites Parse, Bind and Describe messages. The theory models the cache a
  client keeps (named statements in a map, anonymous ones in a map or an LRU), the four handlers of
  extended query messages with all their branches, and the bookkeeping of the batch they leave behind.
  The handlers run on a \<open>session\<close>: the client, the state shared by the pool, and the server connection
  the client holds. Third-party collections and hash functions come in one record of parameters.
\<close>

section \<open>The cache of a client\<close>

datatype prepared_statement_key = Named bytes | Anonymous u64

definition from_name_or_hash :: "bytes \<Rightarrow> u64 \<Rightarrow> prepared_statement_key" where
  "from_name_or_hash name hash = (if name = [] then Anonymous hash else Named name)"

record cached_statement =
  cst_parse :: parse_msg
  cst_hash :: u64
  cst_async_name :: "bytes option"

definition server_name :: "cached_statement \<Rightarrow> bytes" where
  "server_name c = (case cst_async_name c of Some n \<Rightarrow> n | None \<Rightarrow> p_name (cst_parse c))"

datatype put_outcome = Inserted | Replaced cached_statement | Evicted cached_statement

datatype 'q anonymous_cache = Unlimited "(u64 \<times> cached_statement) list" | Limited 'q

record 'q statement_cache =
  stc_named :: "(bytes \<times> cached_statement) list"
  stc_anonymous :: "'q anonymous_cache"

type_synonym 'q anon_lru = "('q, u64, cached_statement) lru"

definition statement_cache_new :: "'q anon_lru \<Rightarrow> nat \<Rightarrow> 'q statement_cache" where
  "statement_cache_new A anon_size =
     \<lparr>stc_named = [], stc_anonymous = (if anon_size > 0 then Limited (lru_new A anon_size) else Unlimited [])\<rparr>"

definition statement_cache_get ::
  "'q anon_lru \<Rightarrow> prepared_statement_key \<Rightarrow> 'q statement_cache \<Rightarrow> cached_statement option \<times> 'q statement_cache" where
  "statement_cache_get A key sc =
     (case key of
        Named s \<Rightarrow> (map_of (stc_named sc) s, sc)
      | Anonymous h \<Rightarrow>
          (case stc_anonymous sc of
             Unlimited m \<Rightarrow> (map_of m h, sc)
           | Limited l \<Rightarrow> (let (v, l') = lru_get A h l in (v, sc\<lparr>stc_anonymous := Limited l'\<rparr>))))"

definition insert_outcome :: "cached_statement option \<Rightarrow> put_outcome" where
  "insert_outcome prev = (case prev of None \<Rightarrow> Inserted | Some p \<Rightarrow> Replaced p)"

definition statement_cache_put ::
  "'q anon_lru \<Rightarrow> prepared_statement_key \<Rightarrow> cached_statement \<Rightarrow> 'q statement_cache \<Rightarrow> put_outcome \<times> 'q statement_cache" where
  "statement_cache_put A key v sc =
     (case key of
        Named s \<Rightarrow> (insert_outcome (map_of (stc_named sc) s), sc\<lparr>stc_named := AList.update s v (stc_named sc)\<rparr>)
      | Anonymous h \<Rightarrow>
          (case stc_anonymous sc of
             Unlimited m \<Rightarrow> (insert_outcome (map_of m h), sc\<lparr>stc_anonymous := Unlimited (AList.update h v m)\<rparr>)
           | Limited l \<Rightarrow>
               (let key_existed = lru_contains A h l; (pushed, l') = lru_push A h v l
                in (case pushed of
                      None \<Rightarrow> Inserted
                    | Some (_, prev) \<Rightarrow> if key_existed then Replaced prev else Evicted prev,
                    sc\<lparr>stc_anonymous := Limited l'\<rparr>))))"

definition statement_cache_pop ::
  "'q anon_lru \<Rightarrow> prepared_statement_key \<Rightarrow> 'q statement_cache \<Rightarrow> cached_statement option \<times> 'q statement_cache" where
  "statement_cache_pop A key sc =
     (case key of
        Named s \<Rightarrow> (map_of (stc_named sc) s, sc\<lparr>stc_named := AList.delete s (stc_named sc)\<rparr>)
      | Anonymous h \<Rightarrow>
          (case stc_anonymous sc of
             Unlimited m \<Rightarrow> (map_of m h, sc\<lparr>stc_anonymous := Unlimited (AList.delete h m)\<rparr>)
           | Limited l \<Rightarrow> (let (v, l') = lru_pop A h l in (v, sc\<lparr>stc_anonymous := Limited l'\<rparr>))))"

definition named_count :: "'q statement_cache \<Rightarrow> nat" where
  "named_count sc = length (stc_named sc)"

definition anonymous_count :: "'q anon_lru \<Rightarrow> 'q statement_cache \<Rightarrow> nat" where
  "anonymous_count A sc = (case stc_anonymous sc of Unlimited m \<Rightarrow> length m | Limited l \<Rightarrow> lru_len A l)"

definition statement_cache_len :: "'q anon_lru \<Rightarrow> 'q statement_cache \<Rightarrow> nat" where
  "statement_cache_len A sc = named_count sc + anonymous_count A sc"

definition statement_cache_clear :: "'q anon_lru \<Rightarrow> 'q statement_cache \<Rightarrow> 'q statement_cache" where
  "statement_cache_clear A sc =
     \<lparr>stc_named = [], stc_anonymous =
        (case stc_anonymous sc of Unlimited m \<Rightarrow> Unlimited [] | Limited l \<Rightarrow> Limited (lru_clear A l))\<rparr>"

section \<open>The state of a client and its session\<close>

datatype parse_complete_target = ToBindComplete | ToParameterDescription

record skipped_parse =
  sk_statement_name :: bytes
  sk_target :: parse_complete_target
  sk_insert_at_beginning :: bool
  sk_has_bind :: bool

record 'q prepared_state =
  pst_enabled :: bool
  pst_async_client :: bool
  pst_cache :: "'q statement_cache"
  pst_last_anonymous_hash :: "u64 option"
  pst_last_bound_for_top :: "(u64 \<times> bool) option"
  pst_skipped_parses :: "skipped_parse list"
  pst_batch_operations :: "batch_operation list"
  pst_parses_sent_in_batch :: u32
  pst_processed_response_counts :: response_counts
  pst_pending_close_complete :: u32
  pst_anonymous_evictions :: u64

definition prepared_state_new :: "'q anon_lru \<Rightarrow> bool \<Rightarrow> nat \<Rightarrow> 'q prepared_state" where
  "prepared_state_new A enabled anon_cache_size =
     \<lparr>pst_enabled = enabled, pst_async_client = False, pst_cache = statement_cache_new A anon_cache_size,
      pst_last_anonymous_hash = None, pst_last_bound_for_top = None, pst_skipped_parses = [],
      pst_batch_operations = [], pst_parses_sent_in_batch = 0, pst_processed_response_counts = no_responses,
      pst_pending_close_complete = 0, pst_anonymous_evictions = 0\<rparr>"

definition reset_batch :: "'q prepared_state \<Rightarrow> 'q prepared_state" where
  "reset_batch ps = ps\<lparr>pst_parses_sent_in_batch := 0, pst_skipped_parses := [], pst_batch_operations := [],
     pst_processed_response_counts := no_responses\<rparr>"

record 'q client =
  cl_prepared :: "'q prepared_state"
  cl_buffer :: bytes
  cl_parameters :: server_params
  cl_write :: client_stream

definition reset_buffered_state :: "'q client \<Rightarrow> 'q client" where
  "reset_buffered_state cl = cl\<lparr>cl_buffer := [],
     cl_prepared := (cl_prepared cl)\<lparr>pst_pending_close_complete := 0, pst_skipped_parses := [],
                                   pst_parses_sent_in_batch := 0\<rparr>\<rparr>"

text \<open>
  What the handlers see: the client, the shared state of the pool (\<open>se_pool_cache\<close> tells whether the pool
  has a cache of prepared statements), and the server connection.
\<close>

record ('q, 'c, 'n, 'a, 'l) session =
  se_client :: "'q client"
  se_pool_cache :: bool
  se_world :: "('c, 'n, 'a) cache_world"
  se_server :: "'l server"

record ('q, 'c, 'n, 'a, 'l) libs =
  lb_anon :: "'q anon_lru"
  lb_pool :: "('c, u64, cache_entry) dashmap"
  lb_interners :: "('n, 'a) interner_maps"
  lb_names :: "'l names"
  lb_hashers :: hashers
  lb_planner :: "planner_write list \<Rightarrow> u64"
  lb_entry_bytes :: "parse_msg \<Rightarrow> u64"
  lb_now :: u64

definition on_prepared :: "('q prepared_state \<Rightarrow> 'q prepared_state) \<Rightarrow> ('q, 'c, 'n, 'a, 'l) session \<Rightarrow> ('q, 'c, 'n, 'a, 'l) session" where
  "on_prepared f st = st\<lparr>se_client := (se_client st)\<lparr>cl_prepared := f (cl_prepared (se_client st))\<rparr>\<rparr>"

definition on_pool ::
  "('c prepared_cache \<Rightarrow> 'c prepared_cache) \<Rightarrow> ('q, 'c, 'n, 'a, 'l) session \<Rightarrow> ('q, 'c, 'n, 'a, 'l) session" where
  "on_pool f st =
     (if se_pool_cache st then st\<lparr>se_world := (se_world st)\<lparr>cw_pool := f (cw_pool (se_world st))\<rparr>\<rparr> else st)"

definition push_operation :: "batch_operation \<Rightarrow> ('q, 'c, 'n, 'a, 'l) session \<Rightarrow> ('q, 'c, 'n, 'a, 'l) session" where
  "push_operation opn = on_prepared (\<lambda>ps. ps\<lparr>pst_batch_operations := pst_batch_operations ps @ [opn]\<rparr>)"

definition buffer_put :: "bytes \<Rightarrow> ('q, 'c, 'n, 'a, 'l) session \<Rightarrow> ('q, 'c, 'n, 'a, 'l) session" where
  "buffer_put m st = st\<lparr>se_client := (se_client st)\<lparr>cl_buffer := cl_buffer (se_client st) @ m\<rparr>\<rparr>"

definition client_cache_get ::
  "('q, 'c, 'n, 'a, 'l) libs \<Rightarrow> prepared_statement_key \<Rightarrow> ('q, 'c, 'n, 'a, 'l) session
     \<Rightarrow> cached_statement option \<times> ('q, 'c, 'n, 'a, 'l) session" where
  "client_cache_get E key st =
     (let (v, sc) = statement_cache_get (lb_anon E) key (pst_cache (cl_prepared (se_client st)))
      in (v, on_prepared (\<lambda>ps. ps\<lparr>pst_cache := sc\<rparr>) st))"

text \<open>A write to the client, flushed; and the answer to a reference to an unknown statement.\<close>

definition write_client :: "bytes \<Rightarrow> ('q, 'c, 'n, 'a, 'l) session \<Rightarrow> (error + unit) \<times> ('q, 'c, 'n, 'a, 'l) session" where
  "write_client bs st =
     (let w = cl_write (se_client st)
      in if cs_open w
         then (Inr (), st\<lparr>se_client := (se_client st)\<lparr>cl_write := w\<lparr>cs_out := cs_out w @ bs\<rparr>\<rparr>\<rparr>)
         else (Inl SocketErr, st))"

definition missing_statement :: "bytes \<Rightarrow> bytes" where
  "missing_statement name =
     (if name = [] then error_response (ascii ''unnamed prepared statement does not exist'') (ascii ''26000'')
      else error_response (ascii ''prepared statement '' @ [34] @ name @ [34] @ ascii '' does not exist'') (ascii ''26000''))"

definition refuse_statement ::
  "bytes \<Rightarrow> ('q, 'c, 'n, 'a, 'l) session \<Rightarrow> (error + 'b) \<times> ('q, 'c, 'n, 'a, 'l) session" where
  "refuse_statement name st = and_then (write_client (missing_statement name) st) (\<lambda>u st. (Inl ClientError, st))"

section \<open>The handlers\<close>

definition register_parse_to_cache ::
  "('q, 'c, 'n, 'a, 'l) libs \<Rightarrow> u64 \<Rightarrow> parse_msg \<Rightarrow> bytes option \<Rightarrow> ('q, 'c, 'n, 'a, 'l) session
     \<Rightarrow> (parse_msg option \<times> ('q, 'c, 'n, 'a, 'l) session) option" where
  "register_parse_to_cache E hash parse client_given_name st =
     (if se_pool_cache st
      then map_option (\<lambda>(p, w). (Some p, st\<lparr>se_world := w\<rparr>))
             (get_or_insert (lb_pool E) (lb_interners E) (lb_entry_bytes E) (lb_now E) parse hash
                client_given_name (se_world st))
      else Some (None, st))"

definition promote_prepared_statement_hash ::
  "('q, 'c, 'n, 'a, 'l) libs \<Rightarrow> u64 \<Rightarrow> ('q, 'c, 'n, 'a, 'l) session \<Rightarrow> ('q, 'c, 'n, 'a, 'l) session" where
  "promote_prepared_statement_hash E hash = on_pool (promote (lb_pool E) hash)"

definition register_parse_to_server_cache ::
  "('q, 'c, 'n, 'a, 'l) libs \<Rightarrow> bool \<Rightarrow> u64 \<Rightarrow> parse_msg \<Rightarrow> bytes \<Rightarrow> ('q, 'c, 'n, 'a, 'l) session
     \<Rightarrow> (error + unit) \<times> ('q, 'c, 'n, 'a, 'l) session" where
  "register_parse_to_server_cache E should_send hash parse name st =
     (let st = promote_prepared_statement_hash E hash st;
          (r, sv) = register_prepared_statement (lb_names E) parse name should_send (se_server st)
      in (r, st\<lparr>se_server := sv\<rparr>))"

definition ensure_prepared_statement_is_on_server ::
  "('q, 'c, 'n, 'a, 'l) libs \<Rightarrow> prepared_statement_key \<Rightarrow> ('q, 'c, 'n, 'a, 'l) session
     \<Rightarrow> (error + unit) \<times> ('q, 'c, 'n, 'a, 'l) session" where
  "ensure_prepared_statement_is_on_server E key st =
     (case client_cache_get E key st of
        (None, st) \<Rightarrow> (Inl ClientError, st)
      | (Some c, st) \<Rightarrow>
          (case register_parse_to_server_cache E True (cst_hash c) (cst_parse c) (server_name c) st of
             (Inr u, st) \<Rightarrow> (Inr (), st)
           | (Inl e, st) \<Rightarrow>
               if e = PreparedStatementError
               then (Inr (), on_prepared (\<lambda>ps. ps\<lparr>pst_cache := snd (statement_cache_pop (lb_anon E) key (pst_cache ps))\<rparr>) st)
               else (Inl e, st)))"

text \<open>The parts of \<^verbatim>\<open>process_parse_immediate\<close>, in the order of the code.\<close>

definition async_statement_name :: "u64 \<Rightarrow> bytes" where
  "async_statement_name n = ascii (''DOORMAN_async_'' @ show_nat (unat n))"

definition draw_async_name ::
  "('q, 'c, 'n, 'a, 'l) session \<Rightarrow> bytes option \<times> ('q, 'c, 'n, 'a, 'l) session" where
  "draw_async_name st =
     (if pst_async_client (cl_prepared (se_client st))
      then (let n = cw_statement_counter (se_world st)
            in (Some (async_statement_name n), st\<lparr>se_world := (se_world st)\<lparr>cw_statement_counter := n + 1\<rparr>\<rparr>))
      else (None, st))"

definition remember_statement ::
  "('q, 'c, 'n, 'a, 'l) libs \<Rightarrow> bytes \<Rightarrow> cached_statement \<Rightarrow> 'q prepared_state \<Rightarrow> 'q prepared_state" where
  "remember_statement E name cached ps =
     (let ps = (if name = [] then ps\<lparr>pst_last_anonymous_hash := Some (cst_hash cached)\<rparr> else ps);
          (outcome, sc) = statement_cache_put (lb_anon E) (from_name_or_hash name (cst_hash cached)) cached (pst_cache ps);
          ps = ps\<lparr>pst_cache := sc\<rparr>
      in case outcome of
           Evicted e \<Rightarrow> ps\<lparr>pst_anonymous_evictions := pst_anonymous_evictions ps + 1\<rparr>
         | _ \<Rightarrow> ps)"

definition skip_parse :: "bytes \<Rightarrow> ('q, 'c, 'n, 'a, 'l) session \<Rightarrow> ('q, 'c, 'n, 'a, 'l) session" where
  "skip_parse name st = push_operation (ParseSkipped name)
     (on_prepared (\<lambda>ps. ps\<lparr>pst_skipped_parses := pst_skipped_parses ps @
        [\<lparr>sk_statement_name = name, sk_target = ToBindComplete, sk_insert_at_beginning = False, sk_has_bind = False\<rparr>]\<rparr>) st)"

definition note_parse_sent :: "'q prepared_state \<Rightarrow> 'q prepared_state" where
  "note_parse_sent ps = ps\<lparr>pst_parses_sent_in_batch := pst_parses_sent_in_batch ps + 1\<rparr>"

definition mark_at_beginning :: "'q prepared_state \<Rightarrow> 'q prepared_state" where
  "mark_at_beginning ps = ps\<lparr>pst_skipped_parses :=
     map (\<lambda>s. if \<not> sk_insert_at_beginning s \<and> \<not> sk_has_bind s then s\<lparr>sk_insert_at_beginning := True\<rparr> else s)
       (pst_skipped_parses ps)\<rparr>"

definition put_parse ::
  "parse_msg \<Rightarrow> bytes \<Rightarrow> ('q, 'c, 'n, 'a, 'l) session \<Rightarrow> (error + unit) \<times> ('q, 'c, 'n, 'a, 'l) session" where
  "put_parse shared name st =
     (case to_bytes_with_name shared name of
        Inl e \<Rightarrow> (Inl (CodecErr e), st)
      | Inr bs \<Rightarrow> (Inr (), buffer_put bs st))"

definition forward_parse ::
  "('q, 'c, 'n, 'a, 'l) libs \<Rightarrow> u64 \<Rightarrow> parse_msg \<Rightarrow> bytes \<Rightarrow> ('q, 'c, 'n, 'a, 'l) session
     \<Rightarrow> (error + unit) \<times> ('q, 'c, 'n, 'a, 'l) session" where
  "forward_parse E hash shared name st =
     (let (server_has_it, sv) = has_prepared_statement (lb_names E) name (se_server st);
          st = on_pool (if server_has_it then record_hit (lb_pool E) hash else record_miss (lb_pool E) hash)
                 (st\<lparr>se_server := sv\<rparr>)
      in if server_has_it
         then (if pst_async_client (cl_prepared (se_client st)) then put_parse shared name st
               else (Inr (), skip_parse name st))
         else and_then (register_parse_to_server_cache E False hash shared name st) (\<lambda>u st.
              and_then (put_parse shared name (on_prepared mark_at_beginning st)) (\<lambda>u st.
                (Inr (), push_operation (ParseSent name) (on_prepared note_parse_sent st)))))"

definition byte_or :: "nat \<Rightarrow> u8 \<Rightarrow> bytes \<Rightarrow> u8" where
  "byte_or i d m = (if i < length m then m ! i else d)"

text \<open>\<open>None\<close> when the eviction loop of the pool cache does not end.\<close>

definition process_parse_immediate ::
  "('q, 'c, 'n, 'a, 'l) libs \<Rightarrow> bytes \<Rightarrow> ('q, 'c, 'n, 'a, 'l) session
     \<Rightarrow> ((error + unit) \<times> ('q, 'c, 'n, 'a, 'l) session) option" where
  "process_parse_immediate E message st =
     (if \<not> pst_enabled (cl_prepared (se_client st))
      then (let st = (if byte_or 5 0 message \<noteq> 0 then st\<lparr>se_server := mark_dirty (se_server st)\<rparr> else st)
            in Some (Inr (), push_operation (ParseSent []) (buffer_put message st)))
      else (case rbind (parse_get_name message) (\<lambda>n. rbind (parse_try_from message) (\<lambda>p. Inr (n, p))) of
              Inl e \<Rightarrow> Some (Inl (CodecErr e), st)
            | Inr (name, parse) \<Rightarrow>
                (let (planner_hash, params) = planner_param_hash (lb_planner E) (cl_parameters (se_client st));
                     st = st\<lparr>se_client := (se_client st)\<lparr>cl_parameters := params\<rparr>\<rparr>;
                     hash = get_hash_with_planner_params (lb_hashers E) planner_hash parse
                 in Option.bind (register_parse_to_cache E hash parse (if name = [] then None else Some name) st)
                      (\<lambda>(shared, st).
                        case shared of
                          None \<Rightarrow> Some (Inl ClientError, st)
                        | Some shared \<Rightarrow>
                            (let (async_name, st) = draw_async_name st;
                                 cached = \<lparr>cst_parse = shared, cst_hash = hash, cst_async_name = async_name\<rparr>
                             in Some (forward_parse E hash shared (server_name cached)
                                        (on_prepared (remember_statement E name cached) st)))))))"

definition get_prepared_statement_lookup_key ::
  "bytes \<Rightarrow> ('q, 'c, 'n, 'a, 'l) session
     \<Rightarrow> (error + prepared_statement_key) \<times> ('q, 'c, 'n, 'a, 'l) session" where
  "get_prepared_statement_lookup_key name st =
     (if name = []
      then (case pst_last_anonymous_hash (cl_prepared (se_client st)) of
              Some h \<Rightarrow> (Inr (Anonymous h), st)
            | None \<Rightarrow> refuse_statement [] st)
      else (Inr (Named name), st))"

text \<open>\<^verbatim>\<open>iter_mut().find(p)\<close> with a change of what was found, and \<^verbatim>\<open>position\<close>, \<^verbatim>\<open>remove\<close>, \<^verbatim>\<open>push\<close>.\<close>

fun change_first :: "('x \<Rightarrow> bool) \<Rightarrow> ('x \<Rightarrow> 'x) \<Rightarrow> 'x list \<Rightarrow> 'x list" where
  "change_first p f [] = []"
| "change_first p f (x # xs) = (if p x then f x # xs else x # change_first p f xs)"

definition mark_bound :: "bytes \<Rightarrow> 'q prepared_state \<Rightarrow> 'q prepared_state" where
  "mark_bound name ps = ps\<lparr>pst_skipped_parses := change_first
     (\<lambda>s. sk_statement_name s = name \<and> sk_target s = ToBindComplete \<and> \<not> sk_has_bind s)
     (\<lambda>s. s\<lparr>sk_has_bind := True\<rparr>) (pst_skipped_parses ps)\<rparr>"

definition retarget_described :: "bytes \<Rightarrow> 'q prepared_state \<Rightarrow> 'q prepared_state" where
  "retarget_described name ps =
     (let xs = pst_skipped_parses ps
      in case position (\<lambda>s. sk_statement_name s = name \<and> sk_target s = ToBindComplete) xs of
           None \<Rightarrow> ps
         | Some i \<Rightarrow> ps\<lparr>pst_skipped_parses := take i xs @ drop (Suc i) xs @
             [\<lparr>sk_statement_name = name, sk_target = ToParameterDescription,
               sk_insert_at_beginning = sk_insert_at_beginning (xs ! i), sk_has_bind = sk_has_bind (xs ! i)\<rparr>]\<rparr>)"

definition count_bind :: "('q, 'c, 'n, 'a, 'l) libs \<Rightarrow> u64 \<Rightarrow> bool \<Rightarrow> ('q, 'c, 'n, 'a, 'l) session \<Rightarrow> ('q, 'c, 'n, 'a, 'l) session" where
  "count_bind E hash is_anonymous st = on_prepared (\<lambda>ps. ps\<lparr>pst_last_bound_for_top := Some (hash, is_anonymous)\<rparr>)
     (st\<lparr>se_world := (se_world st)\<lparr>cw_interners :=
        record_query_count (lb_interners E) hash is_anonymous (cw_interners (se_world st))\<rparr>\<rparr>)"

definition process_bind_immediate ::
  "('q, 'c, 'n, 'a, 'l) libs \<Rightarrow> bytes \<Rightarrow> ('q, 'c, 'n, 'a, 'l) session
     \<Rightarrow> (error + unit) \<times> ('q, 'c, 'n, 'a, 'l) session" where
  "process_bind_immediate E message st =
     (if \<not> pst_enabled (cl_prepared (se_client st))
      then (Inr (), push_operation (BindOp []) (buffer_put message st))
      else (case bind_get_name message of
              Inl e \<Rightarrow> (Inl (CodecErr e), st)
            | Inr name \<Rightarrow>
                and_then (get_prepared_statement_lookup_key name st) (\<lambda>key st.
                  case client_cache_get E key st of
                    (None, st) \<Rightarrow> refuse_statement name st
                  | (Some cached, st) \<Rightarrow>
                      (case bind_rename message (server_name cached) of
                         Inl e \<Rightarrow> (Inl (CodecErr e), st)
                       | Inr renamed \<Rightarrow>
                           and_then (ensure_prepared_statement_is_on_server E key st) (\<lambda>u st.
                             (Inr (), count_bind E (cst_hash cached) (name = [])
                                        (push_operation (BindOp (server_name cached))
                                          (buffer_put renamed
                                            (on_prepared (mark_bound (server_name cached)) st)))))))))"

definition process_describe_immediate ::
  "('q, 'c, 'n, 'a, 'l) libs \<Rightarrow> bytes \<Rightarrow> ('q, 'c, 'n, 'a, 'l) session
     \<Rightarrow> (error + unit) \<times> ('q, 'c, 'n, 'a, 'l) session" where
  "process_describe_immediate E message st =
     (if \<not> pst_enabled (cl_prepared (se_client st))
      then (Inr (), push_operation
              (if byte_or 5 (code (CHR ''S'')) message = code (CHR ''P'') then DescribePortal else DescribeOp [])
              (buffer_put message st))
      else (case describe_try_from message of
              Inl e \<Rightarrow> (Inl (CodecErr e), st)
            | Inr describe \<Rightarrow>
                if d_target describe = code (CHR ''P'')
                then (Inr (), push_operation DescribePortal (buffer_put message st))
                else and_then (get_prepared_statement_lookup_key (d_statement_name describe) st) (\<lambda>key st.
                  case client_cache_get E key st of
                    (None, st) \<Rightarrow> refuse_statement (d_statement_name describe) st
                  | (Some cached, st) \<Rightarrow>
                      and_then (ensure_prepared_statement_is_on_server E key st) (\<lambda>u st.
                        let st = on_prepared (retarget_described (server_name cached)) st
                        in case describe_into (describe_rename describe (server_name cached)) of
                             Inl e \<Rightarrow> (Inl (CodecErr e), st)
                           | Inr bs \<Rightarrow> (Inr (), push_operation (DescribeOp (server_name cached)) (buffer_put bs st))))))"

definition process_close_immediate ::
  "('q, 'c, 'n, 'a, 'l) libs \<Rightarrow> bytes \<Rightarrow> ('q, 'c, 'n, 'a, 'l) session
     \<Rightarrow> (error + unit) \<times> ('q, 'c, 'n, 'a, 'l) session" where
  "process_close_immediate E message st =
     (case close_try_from message of
        Inl e \<Rightarrow> (Inl (CodecErr e), st)
      | Inr close \<Rightarrow>
          (let st = push_operation CloseOp (buffer_put message st)
           in (Inr (), if pst_enabled (cl_prepared (se_client st)) \<and> close_is_prepared_statement close
                            \<and> \<not> close_anonymous close
                         then on_prepared (\<lambda>ps. ps\<lparr>pst_cache :=
                                snd (statement_cache_pop (lb_anon E) (Named (c_name close)) (pst_cache ps))\<rparr>) st
                         else st)))"

text \<open>The messages of the extended protocol that only add to the buffer, as the client loop dispatches them.\<close>

definition process_extended ::
  "('q, 'c, 'n, 'a, 'l) libs \<Rightarrow> bytes \<Rightarrow> ('q, 'c, 'n, 'a, 'l) session
     \<Rightarrow> ((error + unit) \<times> ('q, 'c, 'n, 'a, 'l) session) option" where
  "process_extended E message st =
     (let c = byte_or 0 0 message
      in if c = code (CHR ''P'') then process_parse_immediate E message st
         else if c = code (CHR ''B'') then Some (process_bind_immediate E message st)
         else if c = code (CHR ''D'') then Some (process_describe_immediate E message st)
         else if c = code (CHR ''E'') then Some (Inr (), push_operation Execute (buffer_put message st))
         else if c = code (CHR ''C'') then Some (process_close_immediate E message st)
         else Some (Inr (), st))"

end
