(* ===== verification/Prepared_Names.thy ===== *)
theory Prepared_Names imports Prepared begin

text \<open>
  Renamed statements stay the client's statements.

  PostgreSQL is described by the names a session knows and their statements: a Parse of a name that
  exists and a Bind or Describe of a name that does not are errors. The theorem about a batch of extended
  query messages says that PostgreSQL accepts everything the pooler sends for it, first the Parse
  messages the pooler sends on its own account and then the buffer, and that every Bind and Describe
  reaches the very statement the client prepared under the name it used.
\<close>

section \<open>Names on the server connection\<close>

definition cached_names :: "'l names \<Rightarrow> 'l server \<Rightarrow> bytes set" where
  "cached_names L sv = (case prepared_cache_of sv of None \<Rightarrow> {} | Some l \<Rightarrow> fst ` set (lru_iter L l))"

definition known_names :: "'l names \<Rightarrow> 'l server \<Rightarrow> bytes set" where
  "known_names L sv = set (deferred_eviction_closes sv) \<union> cached_names L sv"

definition names_inv :: "'l names \<Rightarrow> 'l server \<Rightarrow> bool" where
  "names_inv L sv \<longleftrightarrow>
     (case prepared_cache_of sv of None \<Rightarrow> False | Some l \<Rightarrow> lru_ok L l)
     \<and> set (deferred_eviction_closes sv) \<inter> cached_names L sv = {} \<and> pending_large_message sv = None"

lemma names_invE:
  assumes "names_inv L sv"
  obtains l where "prepared_cache_of sv = Some l" "lru_ok L l"
    "set (deferred_eviction_closes sv) \<inter> fst ` set (lru_iter L l) = {}" "pending_large_message sv = None"
  using assms by (auto simp: names_inv_def cached_names_def split: option.splits)

lemma has_prepared_names:
  assumes L: "lru_laws L" and inv: "names_inv L sv"
  obtains sv' where "has_prepared_statement L n sv = (n \<in> known_names L sv, sv')" "names_inv L sv'"
    "known_names L sv' = known_names L sv"
    "sv' = sv \<or> (\<exists>c. sv' = sv\<lparr>prepared_cache_of := c\<rparr>)"
proof (cases "n \<in> set (deferred_eviction_closes sv)")
  case True
  then show thesis
    using inv by (intro that [of sv]) (simp_all add: has_prepared_statement_def known_names_def)
next
  case False
  obtain l where l: "prepared_cache_of sv = Some l" "lru_ok L l"
    "set (deferred_eviction_closes sv) \<inter> fst ` set (lru_iter L l) = {}" "pending_large_message sv = None"
    using inv by (rule names_invE)
  have keys: "fst ` set (lru_iter L (snd (lru_get L n l))) = fst ` set (lru_iter L l)"
    by (auto simp: lru_get_simps [OF L l(2)] split: option.split) (metis fst_conv image_eqI map_of_SomeD)
  have "(map_of (lru_iter L l) n \<noteq> None) = (n \<in> fst ` set (lru_iter L l))"
    by (simp add: map_of_eq_None_iff)
  then show thesis
    using False l keys lru_ok_preserved(1) [OF L l(2)] lru_get_simps(1) [OF L l(2)]
    by (intro that [of "sv\<lparr>prepared_cache_of := Some (snd (lru_get L n l))\<rparr>"])
      (auto simp: has_prepared_statement_def has_in_cache_def known_names_def cached_names_def names_inv_def split_beta)
qed

lemma add_name:
  assumes L: "lru_laws L" and inv: "names_inv L sv" and fresh: "n \<notin> known_names L sv"
    and add: "add_to_cache L n (prepared_cache_of sv) = (evicted, cache)"
  shows "names_inv L (defer_eviction L evicted (sv\<lparr>prepared_cache_of := cache\<rparr>))"
    and "known_names L (defer_eviction L evicted (sv\<lparr>prepared_cache_of := cache\<rparr>)) = insert n (known_names L sv)"
proof -
  obtain l where l: "prepared_cache_of sv = Some l" "lru_ok L l"
    "set (deferred_eviction_closes sv) \<inter> fst ` set (lru_iter L l) = {}" "pending_large_message sv = None"
    using inv by (rule names_invE)
  let ?xs = "lru_iter L l" and ?l = "snd (lru_push L n () l)"
  have d: "distinct (map fst ?xs)" "length ?xs \<le> lru_cap L l" "0 < lru_cap L l"
    using l(2) by (simp_all add: lru_ok_def)
  have n: "n \<notin> fst ` set ?xs" "map_of ?xs n = None" "n \<notin> set (deferred_eviction_closes sv)"
    using fresh l(1) by (auto simp: known_names_def cached_names_def map_of_eq_None_iff)
  have ok: "lru_ok L ?l" by (rule lru_ok_preserved(2) [OF L l(2)])
  have push: "fst (lru_push L n () l) = (if length ?xs < lru_cap L l then None else Some (last ?xs))"
    "lru_iter L ?l = (n, ()) # (if length ?xs < lru_cap L l then ?xs else butlast ?xs)"
    using lru_push_simps(2,3) [OF L l(2), of n "()"] n by (simp_all add: push_spec_def)
  have last: "?xs \<noteq> []" "set ?xs = insert (last ?xs) (set (butlast ?xs))" "fst (last ?xs) \<notin> fst ` set (butlast ?xs)"
    if "\<not> length ?xs < lru_cap L l"
  proof -
    show *: "?xs \<noteq> []" using that d by auto
    then have e: "?xs = butlast ?xs @ [last ?xs]" by simp
    show "set ?xs = insert (last ?xs) (set (butlast ?xs))" by (subst e) auto
    show "fst (last ?xs) \<notin> fst ` set (butlast ?xs)" using d(1) by (subst (asm) e) auto
  qed
  have "names_inv L (defer_eviction L evicted (sv\<lparr>prepared_cache_of := cache\<rparr>))
    \<and> known_names L (defer_eviction L evicted (sv\<lparr>prepared_cache_of := cache\<rparr>)) = insert n (known_names L sv)"
  proof (cases "length ?xs < lru_cap L l")
    case True
    then have "evicted = None" "cache = Some ?l"
      using add push(1) by (simp_all add: l(1) add_to_cache_def split_beta)
    then show ?thesis
      using l n ok push(2) True
      by (auto simp: defer_eviction_def names_inv_def known_names_def cached_names_def)
  next
    case False
    note last = last [OF False]
    have "fst (last ?xs) \<noteq> n" using n(1) last(2) by auto
    then have "evicted = Some (fst (last ?xs))" "cache = Some ?l"
      using add push(1) False by (simp_all add: l(1) add_to_cache_def split_beta split: prod.splits)
    then show ?thesis
      using l n ok push(2) False last(2,3) lru_ok_preserved(3) [OF L ok] lru_pop_simps(3) [OF L ok]
      by (auto simp: defer_eviction_def names_inv_def known_names_def cached_names_def remove_prepared_statement_def
          remove_from_cache_def)
  qed
  then show "names_inv L (defer_eviction L evicted (sv\<lparr>prepared_cache_of := cache\<rparr>))"
    and "known_names L (defer_eviction L evicted (sv\<lparr>prepared_cache_of := cache\<rparr>)) = insert n (known_names L sv)"
    by blast+
qed
text \<open>The answer of PostgreSQL to a Parse and a Sync, and what the exchange leaves of the connection.\<close>

definition parse_answer :: "u8 \<Rightarrow> bytes" where
  "parse_answer t = frames [(code (CHR ''1''), []), ready t]"

lemma names_fields:
  "names_inv L (sv\<lparr>registering_prepared_statement := r\<rparr>) = names_inv L sv"
  "known_names L (sv\<lparr>registering_prepared_statement := r\<rparr>) = known_names L sv"
  "names_inv L (sv\<lparr>has_pending_cache_entries := b\<rparr>) = names_inv L sv"
  "known_names L (sv\<lparr>has_pending_cache_entries := b\<rparr>) = known_names L sv"
  "names_inv L (sv\<lparr>sv_stream := s\<rparr>) = names_inv L sv"
  "known_names L (sv\<lparr>sv_stream := s\<rparr>) = known_names L sv"
  by (simp_all add: names_inv_def known_names_def cached_names_def)

definition kept_names :: "'l server \<Rightarrow> 'l server \<Rightarrow> bool" where
  "kept_names sv sv' \<longleftrightarrow> prepared_cache_of sv' = prepared_cache_of sv
     \<and> deferred_eviction_closes sv' = deferred_eviction_closes sv
     \<and> pending_large_message sv' = pending_large_message sv"

lemma kept_names:
  assumes "kept_names sv sv'"
  shows "names_inv L sv' = names_inv L sv" and "known_names L sv' = known_names L sv"
  using assms by (simp_all add: kept_names_def names_inv_def known_names_def cached_names_def)

lemma exchange_parse:
  assumes "status_byte t" and "sv_stream sv = parse_answer t" and "pending_large_message sv = None"
    and "sv_writable sv = Suc k"
  obtains sv' where "exchange L m sv = (Inr (), sv')" "kept_names sv sv'"
    "sv_sent sv' = sv_sent sv @ [m]" "sv_writable sv' = k"
proof -
  define s1 where "s1 = (note_use sv)\<lparr>async_mode := False, sv_sent := sv_sent sv @ [m], sv_writable := k\<rparr>"
  let ?one = "(code (CHR ''1''), [] :: bytes)"
  have "drain L False s1 = (Inr (), (fold (effect L) ([?one] @ [ready t]) s1)\<lparr>sv_stream := [], sv_buffer := []\<rparr>)"
    by (rule drain_frames)
      (use assms in \<open>simp_all add: quiet_def fits_def is_large_def s1_def note_use_def parse_answer_def frames_def\<close>)
  moreover define s2 where "s2 = (fold (effect L) ([?one] @ [ready t]) s1)\<lparr>sv_stream := [], sv_buffer := []\<rparr>"
  ultimately have d: "drain L False s1 = (Inr (), s2)" by simp
  have s2: "kept_names sv s2" "sv_sent s2 = sv_sent sv @ [m]" "sv_writable s2 = k"
    using assms(1)
    by (auto simp: s2_def effect_def ready_def recv_dispatch_def handle_ready_for_query_def kept_names_def answered_def
        decrement_expected_def status_byte_def s1_def mark_bad_def note_use_def)
  have f: "send_and_flush m (if async_mode sv then sv\<lparr>async_mode := False\<rparr> else sv) = (Inr (), s1)"
    using assms(4) by (simp add: send_and_flush_def send_bytes_def note_use_def s1_def)
  have "exchange L m sv =
      (Inr (), if async_mode sv then s2\<lparr>async_mode := True, expected_responses := expected_responses sv\<rparr> else s2)"
    unfolding exchange_def Let_def f by (simp add: and_then_def d)
  then show thesis
    by (rule that) (use s2 in \<open>simp_all add: kept_names_def\<close>)
qed
lemma defer_eviction_simps [simp]:
  "sv_sent (defer_eviction L e sv) = sv_sent sv" "sv_writable (defer_eviction L e sv) = sv_writable sv"
  "sv_stream (defer_eviction L e sv) = sv_stream sv" 
  by (simp_all add: defer_eviction_def remove_prepared_statement_def split: option.split)

text \<open>A registered name is known; a new name that is not deferred is parsed at once.\<close>

lemma register_known:
  assumes L: "lru_laws L" and inv: "names_inv L sv" and known: "n \<in> known_names L sv"
  obtains sv' where "register_prepared_statement L p n send sv = (Inr (), sv')" "names_inv L sv'"
    "known_names L sv' = known_names L sv" "sv_sent sv' = sv_sent sv" "sv_writable sv' = sv_writable sv"
proof -
  obtain s1 where s1: "has_prepared_statement L n sv = (n \<in> known_names L sv, s1)" "names_inv L s1"
    "known_names L s1 = known_names L sv" "s1 = sv \<or> (\<exists>c. s1 = sv\<lparr>prepared_cache_of := c\<rparr>)"
    using has_prepared_names [OF L inv] by blast
  obtain s2 where s2: "has_prepared_statement L n s1 = (n \<in> known_names L s1, s2)" "names_inv L s2"
    "known_names L s2 = known_names L s1" "s2 = s1 \<or> (\<exists>c. s2 = s1\<lparr>prepared_cache_of := c\<rparr>)"
    using has_prepared_names [OF L s1(2)] by blast
  have "sv_sent s2 = sv_sent sv" "sv_writable s2 = sv_writable sv"
    using s1(4) s2(4) by auto
  then show thesis
    using s1 s2 known by (intro that [of s2]) (simp_all add: register_prepared_statement_def and_then_def)
qed

lemma register_new:
  assumes L: "lru_laws L" and inv: "names_inv L sv" and new: "n \<notin> known_names L sv"
    and send: "send \<Longrightarrow> to_bytes_with_name p n = Inr bs \<and> bs \<noteq> [] \<and> status_byte t
        \<and> sv_stream sv = parse_answer t \<and> 0 < sv_writable sv"
  obtains sv' where "register_prepared_statement L p n send sv = (Inr (), sv')" "names_inv L sv'"
    "known_names L sv' = insert n (known_names L sv)"
    "sv_sent sv' = sv_sent sv @ (if send then [bs @ sync_msg] else [])"
    "sv_writable sv' = sv_writable sv - (if send then 1 else 0)"
proof -
  obtain s1 where s1: "has_prepared_statement L n sv = (False, s1)" "names_inv L s1"
    "known_names L s1 = known_names L sv" "s1 = sv \<or> (\<exists>c. s1 = sv\<lparr>prepared_cache_of := c\<rparr>)"
    using has_prepared_names [OF L inv, of n] new by auto
  define s2 where "s2 = (if send then id else has_pending_cache_entries_update (\<lambda>_. True))
    (s1\<lparr>registering_prepared_statement := registering_prepared_statement s1 @ [n]\<rparr>)"
  obtain evicted cache where add: "add_to_cache L n (prepared_cache_of s2) = (evicted, cache)" by fastforce
  have s2: "names_inv L s2" "known_names L s2 = known_names L sv" "sv_sent s2 = sv_sent sv"
    "sv_writable s2 = sv_writable sv" "sv_stream s2 = sv_stream sv"
    using s1(2-4) by (auto simp: s2_def names_fields)
  define s3 where "s3 = defer_eviction L evicted (s2\<lparr>prepared_cache_of := cache\<rparr>)"
  have s3: "names_inv L s3" "known_names L s3 = insert n (known_names L sv)" "sv_sent s3 = sv_sent sv"
    "sv_writable s3 = sv_writable sv" "sv_stream s3 = sv_stream sv"
    using add_name [OF L s2(1) _ add] new s2 by (simp_all add: s3_def)
  have "\<exists>s4. (if send then exchange L (bs @ sync_msg) s3 else (Inr (), s3)) = (Inr (), s4) \<and> kept_names s3 s4
    \<and> sv_sent s4 = sv_sent s3 @ (if send then [bs @ sync_msg] else [])
    \<and> sv_writable s4 = sv_writable s3 - (if send then 1 else 0)"
  proof (cases send)
    case True
    then have "sv_writable s3 = Suc (sv_writable s3 - 1)" "sv_stream s3 = parse_answer t" "status_byte t"
      "pending_large_message s3 = None"
      using send s3 by (auto simp: names_inv_def)
    with True show ?thesis
      using exchange_parse [of t s3 "sv_writable s3 - 1" L "bs @ sync_msg"] by auto
  qed (simp add: kept_names_def)
  then obtain s4 where s4: "(if send then exchange L (bs @ sync_msg) s3 else (Inr (), s3)) = (Inr (), s4)"
    "kept_names s3 s4" "sv_sent s4 = sv_sent s3 @ (if send then [bs @ sync_msg] else [])"
    "sv_writable s4 = sv_writable s3 - (if send then 1 else 0)" by blast
  have s4': "names_inv L s4" "known_names L s4 = insert n (known_names L sv)"
    using kept_names [OF s4(2)] s3 by auto
  obtain s5 where s5: "has_prepared_statement L n s4 = (True, s5)" "names_inv L s5"
    "known_names L s5 = known_names L s4" "s5 = s4 \<or> (\<exists>c. s5 = s4\<lparr>prepared_cache_of := c\<rparr>)"
    using has_prepared_names [OF L s4'(1), of n] s4'(2) by auto
  have "register_prepared_statement L p n send sv = (Inr (), s5)"
    using send s1(1) add s4(1) s5(1)
    by (cases send) (simp_all add: register_prepared_statement_def and_then_def s2_def s3_def Let_def)
  moreover have "sv_sent s5 = sv_sent s4" "sv_writable s5 = sv_writable s4"
    using s5(4) by auto
  ultimately show thesis
    using s4(3,4) s3(3,4) s4' s5(2,3) by (intro that [of s5]) simp_all
qed
section \<open>The statements of a PostgreSQL session\<close>

type_synonym statement = "bytes \<times> u16 \<times> u32 list"
type_synonym statements = "bytes \<rightharpoonup> statement"

datatype pg_request = PgParse bytes statement | PgUse bytes | PgClose bytes | PgOther

text \<open>What PostgreSQL reads from a message, and what it does with it: \<open>None\<close> is an error.\<close>

definition pg_reads :: "frame \<Rightarrow> pg_request" where
  "pg_reads f =
     (let m = frame_bytes f
      in if fst f = code (CHR ''P'')
         then (case parse_try_from m of Inl e \<Rightarrow> PgOther | Inr p \<Rightarrow> PgParse (p_name p) (statement_of p))
         else if fst f = code (CHR ''B'')
         then (case bind_get_name m of Inl e \<Rightarrow> PgOther | Inr n \<Rightarrow> PgUse n)
         else if fst f = code (CHR ''D'')
         then (case describe_try_from m of Inl e \<Rightarrow> PgOther
               | Inr d \<Rightarrow> if d_target d = code (CHR ''S'') then PgUse (d_statement_name d) else PgOther)
         else if fst f = code (CHR ''C'')
         then (case close_try_from m of Inl e \<Rightarrow> PgOther
               | Inr c \<Rightarrow> if c_type c = code (CHR ''S'') then PgClose (c_name c) else PgOther)
         else PgOther)"

primrec pg_step :: "pg_request \<Rightarrow> statements \<Rightarrow> (statements \<times> statement list) option" where
  "pg_step (PgParse n s) pg = (if n \<noteq> [] \<and> pg n \<noteq> None then None else Some (pg(n \<mapsto> s), []))"
| "pg_step (PgUse n) pg = map_option (\<lambda>s. (pg, [s])) (pg n)"
| "pg_step (PgClose n) pg = Some (pg(n := None), [])"
| "pg_step PgOther pg = Some (pg, [])"

fun pg_run :: "frame list \<Rightarrow> statements \<Rightarrow> (statements \<times> statement list) option" where
  "pg_run [] pg = Some (pg, [])"
| "pg_run (f # fs) pg =
     Option.bind (pg_step (pg_reads f) pg) (\<lambda>(pg, us). map_option (\<lambda>(pg, vs). (pg, us @ vs)) (pg_run fs pg))"

lemma pg_run_Cons:
  "pg_run (f # fs) pg = Some (pg', us) \<longleftrightarrow>
     (\<exists>pg1 us1 us2. pg_step (pg_reads f) pg = Some (pg1, us1) \<and> pg_run fs pg1 = Some (pg', us2) \<and> us = us1 @ us2)"
  by (auto split: bind_splits)

lemma pg_run_append:
  "pg_run (fs @ gs) pg = Some (pg', us) \<longleftrightarrow>
     (\<exists>pg1 us1 us2. pg_run fs pg = Some (pg1, us1) \<and> pg_run gs pg1 = Some (pg', us2) \<and> us = us1 @ us2)"
proof (induction fs arbitrary: pg us)
  case (Cons f fs)
  then show ?case
    unfolding append_Cons pg_run_Cons Cons.IH by (fastforce simp del: pg_run.simps)
qed simp

text \<open>The names the pooler gives out.\<close>

definition reserved :: "bytes \<Rightarrow> bool" where
  "reserved n \<longleftrightarrow> (\<exists>k. n = doorman_name k \<or> n = async_statement_name k)"

definition spares_reserved :: "frame \<Rightarrow> bool" where
  "spares_reserved f \<longleftrightarrow> (case pg_reads f of PgClose n \<Rightarrow> \<not> reserved n | _ \<Rightarrow> True)"

lemma pg_step_keeps:
  assumes "pg_step r pg = Some (pg', us)" and "r \<noteq> PgClose n" and "pg' n = None"
  shows "pg n = None \<and> pg_step r (pg(n \<mapsto> s)) = Some (pg'(n \<mapsto> s), us)"
  using assms by (cases r) (auto split: if_splits)

text \<open>A Parse of a name that is still unused after a batch can as well come before the batch.\<close>

lemma pg_run_parse_first:
  assumes "pg_run fs pg = Some (pg', us)" and "list_all spares_reserved fs" and "reserved n" and "pg' n = None"
  shows "pg n = None \<and> pg_run fs (pg(n \<mapsto> s)) = Some (pg'(n \<mapsto> s), us)"
  using assms
proof (induction fs arbitrary: pg us)
  case (Cons f fs)
  obtain pg1 us1 us2 where 1: "pg_step (pg_reads f) pg = Some (pg1, us1)" "pg_run fs pg1 = Some (pg', us2)" "us = us1 @ us2"
    using Cons.prems(1) unfolding pg_run_Cons by blast
  have "list_all spares_reserved fs" using Cons.prems(2) by simp
  note 2 = Cons.IH [OF 1(2) this Cons.prems(3,4)]
  have "pg_reads f \<noteq> PgClose n"
    using Cons.prems(2,3) by (auto simp: spares_reserved_def)
  then show ?case
    using pg_step_keeps [OF 1(1)] 1(3) 2 unfolding pg_run_Cons by blast
qed simp

lemma utf8_ascii: "list_all (\<lambda>b. b < 0x80) bs \<Longrightarrow> utf8_valid bs"
  by (induction bs) (simp_all add: utf8_width_def utf8_run_def)

lemma ascii_text_ok:
  assumes "list_all (\<lambda>c. of_char c < (128 :: nat) \<and> of_char c \<noteq> (0 :: nat)) s"
  shows "text_ok (ascii s)"
proof -
  have "list_all (\<lambda>b. b < 0x80) (ascii s)" "0 \<notin> set (ascii s)"
    using assms by (auto simp: ascii_def list_all_iff word_less_nat_alt simp flip: unat_eq_zero)
  then show ?thesis
    using utf8_ascii by (simp add: text_ok_def)
qed

lemma reserved_text: assumes "reserved n" shows "text_ok n" and "n \<noteq> []"
proof -
  have "list_all (\<lambda>c. of_char c < (128 :: nat) \<and> of_char c \<noteq> (0 :: nat)) (show_nat k)" for k
    using show_nat_all_digits [of k] by (auto simp: list_all_iff is_digit_def char_digit_def Let_def split: if_splits)
  then show "text_ok n"
    using assms unfolding reserved_def doorman_name_def async_statement_name_def
    by (auto intro!: ascii_text_ok simp del: ascii_append)
  show "n \<noteq> []"
    using assms by (auto simp: reserved_def doorman_name_def async_statement_name_def ascii_def)
qed

lemma reserved_names [simp]: "reserved (doorman_name k)" "reserved (async_statement_name k)"
  by (auto simp: reserved_def)

lemma async_name_inject [simp]: "async_statement_name m = async_statement_name n \<longleftrightarrow> m = n"
  by (simp add: async_statement_name_def word_unat_eq_iff)

lemma async_name_neq [simp]: "async_statement_name m \<noteq> doorman_name n" "doorman_name n \<noteq> async_statement_name m"
proof -
  have "doorman_name n \<noteq> async_statement_name m"
  proof
    assume "doorman_name n = async_statement_name m"
    then have "show_nat (unat n) = ''async_'' @ show_nat (unat m)"
      by (simp add: doorman_name_def async_statement_name_def del: ascii_append)
    then have "is_digit (CHR ''a'')"
      using show_nat_all_digits [of "unat n"] by simp
    then show False
      by (simp add: is_digit_def char_digit_def)
  qed
  then show "async_statement_name m \<noteq> doorman_name n" "doorman_name n \<noteq> async_statement_name m" by metis+
qed
section \<open>The requests of a client\<close>

datatype request =
    RParse parse_msg | RBind bytes bytes bytes | RDescribe u8 bytes | RExecute bytes | RClose u8 bytes

definition parse_payload :: "bytes \<Rightarrow> statement \<Rightarrow> bytes" where
  "parse_payload n s = (case s of (q, k, ts) \<Rightarrow> n @ 0 # q @ 0 # put_i16 k @ concat (map put_i32 ts))"

primrec request_frame :: "request \<Rightarrow> frame" where
  "request_frame (RParse p) = (code (CHR ''P''), parse_payload (p_name p) (statement_of p))"
| "request_frame (RBind portal n rest) = (code (CHR ''B''), portal @ 0 # n @ 0 # rest)"
| "request_frame (RDescribe t n) = (code (CHR ''D''), t # n @ [0])"
| "request_frame (RExecute bs) = (code (CHR ''E''), bs)"
| "request_frame (RClose t n) = (code (CHR ''C''), t # n @ [0])"

definition statement_ok :: "statement \<Rightarrow> bool" where
  "statement_ok s = (case s of (q, k, ts) \<Rightarrow> text_ok q \<and> length ts < 2 ^ 15 \<and> k = of_nat (length ts))"

primrec request_ok :: "request \<Rightarrow> bool" where
  "request_ok (RParse p) = (text_ok (p_name p) \<and> statement_ok (statement_of p))"
| "request_ok (RBind portal n rest) = (0 \<notin> set portal \<and> text_ok n)"
| "request_ok (RDescribe t n) = (t \<in> {code (CHR ''S''), code (CHR ''P'')} \<and> text_ok n)"
| "request_ok (RExecute bs) = True"
| "request_ok (RClose t n) = (text_ok n \<and> \<not> (t = code (CHR ''S'') \<and> reserved n))"

text \<open>What the client means: a Parse defines a name again, and a Close of the unnamed statement leaves it.\<close>

primrec request_step :: "request \<Rightarrow> statements \<Rightarrow> (statements \<times> statement list) option" where
  "request_step (RParse p) v = Some (v(p_name p \<mapsto> statement_of p), [])"
| "request_step (RBind portal n rest) v = map_option (\<lambda>s. (v, [s])) (v n)"
| "request_step (RDescribe t n) v =
     (if t = code (CHR ''P'') then Some (v, []) else map_option (\<lambda>s. (v, [s])) (v n))"
| "request_step (RExecute bs) v = Some (v, [])"
| "request_step (RClose t n) v = Some (if t = code (CHR ''S'') \<and> n \<noteq> [] then v(n := None) else v, [])"

fun request_run :: "request list \<Rightarrow> statements \<Rightarrow> (statements \<times> statement list) option" where
  "request_run [] v = Some (v, [])"
| "request_run (r # rs) v =
     Option.bind (request_step r v) (\<lambda>(v, us). map_option (\<lambda>(v, ws). (v, us @ ws)) (request_run rs v))"

lemma statement_okD:
  assumes "statement_ok (statement_of p)" and "text_ok n"
  shows "parse_wf (p\<lparr>p_name := n\<rparr>)"
  using assms by (simp add: statement_ok_def statement_of_def parse_wf_def)

lemma to_bytes_frame:
  assumes "statement_ok (statement_of p)" and "text_ok n"
  shows "to_bytes_with_name p n = Inr (frame_bytes (p_code p, parse_payload n (statement_of p)))"
    and "\<exists>len. parse_try_from (frame_bytes (c, parse_payload n (statement_of p)))
      = Inr (p\<lparr>p_code := c, p_name := n, p_len := len\<rparr>)"
proof -
  have bytes: "to_bytes_with_name p n = Inr (frame_bytes (p_code p, parse_payload n (statement_of p)))"
    if ok: "statement_ok (statement_of p)" "text_ok n" for p
  proof -
    obtain bs where bs: "parse_into (p\<lparr>p_name := n\<rparr>) = Inr bs"
      "parse_try_from bs = Inr ((p\<lparr>p_name := n\<rparr>)\<lparr>p_len := of_nat (length bs - 1)\<rparr>)"
      using parse_decode_encode [OF statement_okD [OF ok]] .
    have "text_ok (p_query p)" using ok by (simp add: statement_ok_def statement_of_def)
    then have "\<exists>l. bs = p_code p # put_i32 l @ parse_payload n (statement_of p)"
      using bs(1) ok by (auto simp: parse_into_def cstring_ok parse_payload_def statement_of_def)
    then obtain l where l: "bs = p_code p # put_i32 l @ parse_payload n (statement_of p)" by blast
    have "get_i32 (put_i32 l @ parse_payload n (statement_of p)) = Inr (l, parse_payload n (statement_of p))"
      by (simp add: codec)
    then have "l = of_nat (length bs - 1)"
      using bs(2) l by (auto simp: parse_try_from_def dest: arg_cong [where f = p_len])
    then have "bs = frame_bytes (p_code p, parse_payload n (statement_of p))"
      using l by (simp add: frame_bytes_def add.commute)
    moreover have "to_bytes_with_name p n = parse_into (p\<lparr>p_name := n\<rparr>)"
      by (simp add: to_bytes_with_name_def parse_into_def)
    ultimately show ?thesis using bs(1) by simp
  qed
  show "to_bytes_with_name p n = Inr (frame_bytes (p_code p, parse_payload n (statement_of p)))"
    using bytes [OF assms] .
  let ?p = "p\<lparr>p_code := c\<rparr>"
  have s: "statement_of ?p = statement_of p" by (simp add: statement_of_def)
  obtain bs where bs: "parse_into (?p\<lparr>p_name := n\<rparr>) = Inr bs"
      "parse_try_from bs = Inr ((?p\<lparr>p_name := n\<rparr>)\<lparr>p_len := of_nat (length bs - 1)\<rparr>)"
    using parse_decode_encode [OF statement_okD [of ?p n]] assms s by metis
  have "bs = frame_bytes (c, parse_payload n (statement_of p))"
    using bytes [of ?p] bs(1) assms s by (auto simp: to_bytes_with_name_def parse_into_def)
  then show "\<exists>len. parse_try_from (frame_bytes (c, parse_payload n (statement_of p)))
      = Inr (p\<lparr>p_code := c, p_name := n, p_len := len\<rparr>)"
    using bs(2) by auto
qed

lemma rename_frame:
  assumes "0 \<notin> set portal" and "text_ok n" and "text_ok m"
  shows "bind_get_name (frame_bytes (c, portal @ 0 # n @ 0 # rest)) = Inr n"
    and "bind_rename (frame_bytes (c, portal @ 0 # n @ 0 # rest)) m = Inr (frame_bytes (c, portal @ 0 # m @ 0 # rest))"
proof -
  have z: "0 \<notin> set n" using assms(2) by (simp add: text_ok_def)
  show "bind_get_name (frame_bytes (c, portal @ 0 # n @ 0 # rest)) = Inr n"
    unfolding frame_bytes_def fst_conv snd_conv by (rule bind_get_name_bytes [OF assms(1,2)])
  show "bind_rename (frame_bytes (c, portal @ 0 # n @ 0 # rest)) m = Inr (frame_bytes (c, portal @ 0 # m @ 0 # rest))"
    unfolding frame_bytes_def fst_conv snd_conv bind_rename_bytes [OF assms(1) z] by (simp add: algebra_simps)
qed

lemma target_frame:
  assumes "text_ok n"
  shows "describe_try_from (frame_bytes (c, t # n @ [0])) = Inr \<lparr>d_code = c, d_len = of_nat (length n) + 6, d_target = t, d_statement_name = n\<rparr>"
    and "close_try_from (frame_bytes (c, t # n @ [0])) = Inr \<lparr>c_code = c, c_len = of_nat (length n) + 6, c_type = t, c_name = n\<rparr>"
    and "describe_into \<lparr>d_code = c, d_len = len, d_target = t, d_statement_name = n\<rparr> = Inr (frame_bytes (c, t # n @ [0]))"
  using assms
  by (simp_all add: frame_bytes_def describe_try_from_def close_try_from_def describe_into_def target_len_eq codec algebra_simps)

lemma pg_reads_frames:
  "statement_ok s \<Longrightarrow> text_ok n \<Longrightarrow> pg_reads (code (CHR ''P''), parse_payload n s) = PgParse n s"
  "0 \<notin> set portal \<Longrightarrow> text_ok n \<Longrightarrow> pg_reads (code (CHR ''B''), portal @ 0 # n @ 0 # rest) = PgUse n"
  "text_ok n \<Longrightarrow> pg_reads (code (CHR ''D''), t # n @ [0]) = (if t = code (CHR ''S'') then PgUse n else PgOther)"
  "text_ok n \<Longrightarrow> pg_reads (code (CHR ''C''), t # n @ [0]) = (if t = code (CHR ''S'') then PgClose n else PgOther)"
  "pg_reads (code (CHR ''E''), bs) = PgOther" "pg_reads (code (CHR ''S''), bs) = PgOther"
  subgoal
    using to_bytes_frame(2) [of "parse_from_parts [] []\<lparr>p_query := fst s, p_num_params := fst (snd s), p_param_types := snd (snd s)\<rparr>" n "code (CHR ''P'')"]
    by (auto simp: pg_reads_def statement_of_def)
  subgoal using rename_frame(1) [of portal n n] by (simp add: pg_reads_def)
  by (simp_all add: pg_reads_def target_frame)

end
