(* ===== verification/Prepared_Batch.thy ===== *)
theory Prepared_Batch imports Prepared_Names begin

text \<open>
  A batch of extended query messages: the joint invariant of the client's cache, the cache of the pool,
  the names on the server connection and the statements PostgreSQL has, its preservation by every
  handler, and the theorem about a whole batch.
\<close>

section \<open>The invariant\<close>

text \<open>
  \<open>S\<close> gives the statement of every name handed out so far. \<open>Q\<close> is the statement of a hash; that it exists
  for the statements in use is the absence of collisions.
\<close>

definition handed_out :: "u64 \<Rightarrow> statements \<Rightarrow> bool" where
  "handed_out counter S \<longleftrightarrow> (\<forall>n \<in> dom S. \<exists>k < counter. n = doorman_name k \<or> n = async_statement_name k)
     \<and> (\<forall>n s. S n = Some s \<longrightarrow> statement_ok s)"

definition entry_agrees :: "statements \<Rightarrow> parse_msg \<Rightarrow> bytes \<Rightarrow> bool" where
  "entry_agrees S p n \<longleftrightarrow> p_code p = code (CHR ''P'') \<and> S n = Some (statement_of p)"

definition world_inv ::
  "('q, 'c, 'n, 'a, 'l) libs \<Rightarrow> (u64 \<Rightarrow> statement) \<Rightarrow> statements \<Rightarrow> ('c, 'n, 'a) cache_world \<Rightarrow> bool" where
  "world_inv E Q S w \<longleftrightarrow>
     (\<exists>xs. cache_abs (lb_pool E) (lb_entry_bytes E) (cw_pool w) xs \<and> length xs \<le> pc_max_size (cw_pool w))
     \<and> cached_ok (lb_pool E) Q (cw_pool w) (cw_statement_counter w)
     \<and> interned_ok (lb_interners E) Q (cw_interners w)
     \<and> (\<forall>h e. dm_get (lb_pool E) (pc_cache (cw_pool w)) h = Some e \<longrightarrow>
          entry_agrees S (ce_parse e) (p_name (ce_parse e)))
     \<and> handed_out (cw_statement_counter w) S"

definition cache_entries :: "'q anon_lru \<Rightarrow> 'q statement_cache \<Rightarrow> prepared_statement_key \<rightharpoonup> cached_statement" where
  "cache_entries A sc key =
     (case key of
        Named n \<Rightarrow> map_of (stc_named sc) n
      | Anonymous h \<Rightarrow> (case stc_anonymous sc of Unlimited m \<Rightarrow> map_of m h | Limited l \<Rightarrow> map_of (lru_iter A l) h))"

definition anon_ok :: "'q anon_lru \<Rightarrow> 'q statement_cache \<Rightarrow> bool" where
  "anon_ok A sc \<longleftrightarrow> (case stc_anonymous sc of Unlimited m \<Rightarrow> True | Limited l \<Rightarrow> lru_ok A l)"

text \<open>The last anonymous statement is the most recently used one of a bounded cache.\<close>

definition last_anonymous_held :: "'q anon_lru \<Rightarrow> 'q prepared_state \<Rightarrow> bool" where
  "last_anonymous_held A ps \<longleftrightarrow>
     (case pst_last_anonymous_hash ps of None \<Rightarrow> True
      | Some h \<Rightarrow> cache_entries A (pst_cache ps) (Anonymous h) \<noteq> None)"

definition client_inv :: "('q, 'c, 'n, 'a, 'l) libs \<Rightarrow> statements \<Rightarrow> 'q prepared_state \<Rightarrow> bool" where
  "client_inv E S ps \<longleftrightarrow> pst_enabled ps \<and> anon_ok (lb_anon E) (pst_cache ps)
     \<and> last_anonymous_held (lb_anon E) ps
     \<and> (\<forall>key c. cache_entries (lb_anon E) (pst_cache ps) key = Some c \<longrightarrow> entry_agrees S (cst_parse c) (server_name c))"

text \<open>The statements as the client sees them.\<close>

definition client_view :: "'q anon_lru \<Rightarrow> 'q prepared_state \<Rightarrow> statements" where
  "client_view A ps n = map_option (\<lambda>c. statement_of (cst_parse c))
     (if n = [] then Option.bind (pst_last_anonymous_hash ps) (\<lambda>h. cache_entries A (pst_cache ps) (Anonymous h))
      else cache_entries A (pst_cache ps) (Named n))"

definition server_agrees :: "'l names \<Rightarrow> statements \<Rightarrow> statements \<Rightarrow> 'l server \<Rightarrow> bool" where
  "server_agrees L S pg sv \<longleftrightarrow> names_inv L sv \<and> known_names L sv \<subseteq> dom S
     \<and> (\<forall>n. reserved n \<longrightarrow> pg n = (if n \<in> known_names L sv then S n else None))"

definition session_inv ::
  "('q, 'c, 'n, 'a, 'l) libs \<Rightarrow> (u64 \<Rightarrow> statement) \<Rightarrow> statements \<Rightarrow> statements \<Rightarrow> ('q, 'c, 'n, 'a, 'l) session \<Rightarrow> bool" where
  "session_inv E Q S pg st \<longleftrightarrow> se_pool_cache st \<and> world_inv E Q S (se_world st)
     \<and> client_inv E S (cl_prepared (se_client st)) \<and> server_agrees (lb_names E) S pg (se_server st)"

definition libs_ok :: "('q, 'c, 'n, 'a, 'l) libs \<Rightarrow> bool" where
  "libs_ok E \<longleftrightarrow> lru_laws (lb_anon E) \<and> lru_laws (lb_names E) \<and> dashmap_laws (lb_pool E) \<and> interner_laws (lb_interners E)"

text \<open>Room for \<open>k\<close> more requests: neither of the two 64-bit counters wraps.\<close>

definition counters_room :: "nat \<Rightarrow> ('c, 'n, 'a) cache_world \<Rightarrow> bool" where
  "counters_room k w \<longleftrightarrow> unat (pc_counter (cw_pool w)) + 2 * k < 2 ^ 64 \<and> unat (cw_statement_counter w) + 2 * k < 2 ^ 64"

lemma handed_out_reserved: "handed_out k S \<Longrightarrow> S n = Some s \<Longrightarrow> reserved n"
  unfolding handed_out_def reserved_def by blast

lemma handed_outD: "handed_out k S \<Longrightarrow> S n = Some s \<Longrightarrow> statement_ok s"
  unfolding handed_out_def by blast

lemma handed_out_fresh:
  assumes "handed_out k S"
  shows "S (doorman_name k) = None" and "S (async_statement_name k) = None"
  using assms unfolding handed_out_def
  by (metis async_name_neq(2) doorman_name_inject domIff order_less_irrefl, metis async_name_inject async_name_neq(2) domIff order_less_irrefl)

lemma handed_out_mono: "handed_out k S \<Longrightarrow> k \<le> k' \<Longrightarrow> handed_out k' S"
  unfolding handed_out_def by (meson order_less_le_trans)

lemma handed_out_insert:
  assumes "handed_out k S" and "k < k'" and "n = doorman_name k \<or> n = async_statement_name k" and "statement_ok s"
  shows "handed_out k' (S(n \<mapsto> s))"
proof -
  have "\<exists>j < k'. m = doorman_name j \<or> m = async_statement_name j" if m: "m \<in> dom (S(n \<mapsto> s))" for m
  proof (cases "m = n")
    case False
    then have "m \<in> dom S" using m by auto
    then obtain j where j: "j < k" "m = doorman_name j \<or> m = async_statement_name j"
      using assms(1) unfolding handed_out_def by blast
    then show ?thesis using order_less_trans [OF j(1) assms(2)] by blast
  qed (use assms(2,3) in blast)
  moreover have "statement_ok s'" if "(S(n \<mapsto> s)) m = Some s'" for m s'
    using that handed_outD [OF assms(1), of m s'] assms(4) by (simp split: if_splits)
  ultimately show ?thesis
    unfolding handed_out_def by blast
qed

lemma map_leD: "m \<subseteq>\<^sub>m m' \<Longrightarrow> m k = Some v \<Longrightarrow> m' k = Some v"
  by (force simp: map_le_def dom_def)

lemma entry_agrees_mono: "entry_agrees S p n \<Longrightarrow> S \<subseteq>\<^sub>m S' \<Longrightarrow> entry_agrees S' p n"
  by (simp add: entry_agrees_def map_leD)

lemma entry_agreesD:
  assumes "handed_out k S" and "entry_agrees S p n"
  shows "reserved n" and "text_ok n" and "statement_ok (statement_of p)"
  using assms handed_out_reserved [OF assms(1), of n "statement_of p"] handed_outD [OF assms(1), of n "statement_of p"]
    reserved_text(1) [of n]
  by (simp_all add: entry_agrees_def)

lemma client_inv_mono: "client_inv E S ps \<Longrightarrow> S \<subseteq>\<^sub>m S' \<Longrightarrow> client_inv E S' ps"
  unfolding client_inv_def using entry_agrees_mono by blast

lemma server_agrees_mono:
  assumes "server_agrees L S pg sv" and "S \<subseteq>\<^sub>m S'"
  shows "server_agrees L S' pg sv"
proof -
  have "S' n = S n" if "n \<in> known_names L sv" for n
    using assms(1) that map_leD [OF assms(2), of n] by (auto simp: server_agrees_def)
  moreover have "dom S \<subseteq> dom S'" using assms(2) by (rule map_le_implies_dom_le)
  ultimately show ?thesis
    using assms(1) by (simp add: server_agrees_def) blast
qed

section \<open>The cache of the pool\<close>

lemma evict_excess_sub:
  assumes "dashmap_laws D" and "evict_excess D eb c = Some c'"
  shows "dm_get D (pc_cache c') \<subseteq>\<^sub>m dm_get D (pc_cache c)"
proof -
  let ?P = "\<lambda>D eb c c'. dashmap_laws D \<longrightarrow> dm_get D (pc_cache c') \<subseteq>\<^sub>m dm_get D (pc_cache c)"
  have "?P D eb c c'"
  proof (rule evict_excess.raw_induct [where P = ?P, OF _ assms(2)])
    fix evict and D :: "('a, u64, cache_entry) dashmap" and eb c c'
    assume IH: "\<And>D eb c c'. evict D eb c = Some c' \<Longrightarrow> ?P D eb c c'"
      and "(if pc_max_size c < dm_len D (pc_cache c) then evict D eb (evict_oldest D eb c) else Some c) = Some c'"
    then show "?P D eb c c'"
      using evict_oldest_sub [of D eb c] IH [of D eb "evict_oldest D eb c" c']
        map_le_trans [of "dm_get D (pc_cache c')" "dm_get D (pc_cache (evict_oldest D eb c))"]
      by (auto split: if_splits)
  qed
  with assms(1) show ?thesis by simp
qed

text \<open>An entry after \<^verbatim>\<open>get_or_insert\<close> is an old one or the one returned.\<close>

lemma get_or_insert_entries:
  assumes D: "dashmap_laws D" and goi: "get_or_insert D M eb now parse h name w = Some (p, w')"
  shows "dm_get D (pc_cache (cw_pool w')) h' = Some e' \<Longrightarrow>
      (\<exists>e. dm_get D (pc_cache (cw_pool w)) h' = Some e \<and> ce_parse e' = ce_parse e) \<or> ce_parse e' = p"
    and "(\<exists>e. dm_get D (pc_cache (cw_pool w)) h = Some e \<and> p = ce_parse e
        \<and> cw_statement_counter w' = cw_statement_counter w)
      \<or> (p_code p = p_code parse \<and> p_name p = doorman_name (cw_statement_counter w)
        \<and> cw_statement_counter w' = cw_statement_counter w + 1)"
proof -
  have "(dm_get D (pc_cache (cw_pool w')) h' = Some e' \<longrightarrow>
      (\<exists>e. dm_get D (pc_cache (cw_pool w)) h' = Some e \<and> ce_parse e' = ce_parse e) \<or> ce_parse e' = p)
    \<and> ((\<exists>e. dm_get D (pc_cache (cw_pool w)) h = Some e \<and> p = ce_parse e
        \<and> cw_statement_counter w' = cw_statement_counter w)
      \<or> (p_code p = p_code parse \<and> p_name p = doorman_name (cw_statement_counter w)
        \<and> cw_statement_counter w' = cw_statement_counter w + 1))"
  proof (cases "dm_get D (pc_cache (cw_pool w)) h")
    case (Some e)
    then show ?thesis
      using goi D by (auto simp: get_or_insert_def Let_def split: if_splits)
  next
    case None
    obtain t ins where iq: "intern_query M now (p_query parse) h (name = None) (cw_interners w) = (t, ins)"
      by fastforce
    define np where "np = parse\<lparr>p_query := t, p_name := doorman_name (cw_statement_counter w)\<rparr>"
    define e where "e = cache_entry_new np (pc_counter (cw_pool w)) (if name = None then KindAnonymous else KindNamed)"
    define c2 where "c2 = (cw_pool w)\<lparr>pc_counter := pc_counter (cw_pool w) + 1,
      pc_cache := dm_insert D h e (pc_cache (cw_pool w)), pc_memory := pc_memory (cw_pool w) + eb np\<rparr>"
    have "get_or_insert D M eb now parse h name w = Option.bind (evict_excess D eb c2) (\<lambda>c3.
        Some (np, w\<lparr>cw_pool := c3, cw_interners := ins, cw_statement_counter := cw_statement_counter w + 1\<rparr>))"
      using None iq by (simp add: get_or_insert_def Let_def parse_rewrite_def np_def c2_def e_def)
    then obtain c3 where c: "evict_excess D eb c2 = Some c3"
      and r: "p = np" "cw_pool w' = c3" "cw_statement_counter w' = cw_statement_counter w + 1"
      using goi by (cases "evict_excess D eb c2") auto
    have "dm_get D (pc_cache c3) h' = Some e' \<Longrightarrow> dm_get D (pc_cache c2) h' = Some e'"
      using map_leD [OF evict_excess_sub [OF D c]] by blast
    then show ?thesis
      using D r by (auto simp: c2_def e_def np_def cache_entry_new_def split: if_splits)
  qed
  then show "dm_get D (pc_cache (cw_pool w')) h' = Some e' \<Longrightarrow>
      (\<exists>e. dm_get D (pc_cache (cw_pool w)) h' = Some e \<and> ce_parse e' = ce_parse e) \<or> ce_parse e' = p"
    and "(\<exists>e. dm_get D (pc_cache (cw_pool w)) h = Some e \<and> p = ce_parse e
        \<and> cw_statement_counter w' = cw_statement_counter w)
      \<or> (p_code p = p_code parse \<and> p_name p = doorman_name (cw_statement_counter w)
        \<and> cw_statement_counter w' = cw_statement_counter w + 1)"
    by blast+
qed

text \<open>A statement of the client gets a name with that statement, handed out before or now.\<close>

lemma register_parse_world:
  assumes E: "libs_ok E" and inv: "world_inv E Q S w" and room: "counters_room (Suc k) w"
    and parse: "statement_of parse = Q h" "statement_ok (Q h)" "p_code parse = code (CHR ''P'')"
  obtains p w' S' where
    "get_or_insert (lb_pool E) (lb_interners E) (lb_entry_bytes E) (lb_now E) parse h name w = Some (p, w')"
    and "world_inv E Q S' w'" "S \<subseteq>\<^sub>m S'" "entry_agrees S' p (p_name p)" "statement_of p = Q h"
    and "unat (pc_counter (cw_pool w')) + 2 * k < 2 ^ 64 - 1" "unat (cw_statement_counter w') + 2 * k < 2 ^ 64 - 1"
proof -
  let ?D = "lb_pool E" and ?eb = "lb_entry_bytes E"
  have D: "dashmap_laws ?D" and M: "interner_laws (lb_interners E)" using E by (simp_all add: libs_ok_def)
  obtain xs where xs: "cache_abs ?D ?eb (cw_pool w) xs" "length xs \<le> pc_max_size (cw_pool w)"
    using inv by (auto simp: world_inv_def)
  have ctr: "pc_counter (cw_pool w) \<noteq> - 1" "cw_statement_counter w \<noteq> - 1"
    "unat (pc_counter (cw_pool w) + 1) = Suc (unat (pc_counter (cw_pool w)))"
    "unat (cw_statement_counter w + 1) = Suc (unat (cw_statement_counter w))"
    using room counter_room [of "pc_counter (cw_pool w)" 1] counter_room [of "cw_statement_counter w" 1]
    by (auto simp: counters_room_def)
  obtain p w' where goi: "get_or_insert ?D (lb_interners E) ?eb (lb_now E) parse h name w = Some (p, w')"
    and abs: "cache_abs ?D ?eb (cw_pool w') (take (pc_max_size (cw_pool w)) (h # removeAll h xs))"
    and m: "pc_max_size (cw_pool w') = pc_max_size (cw_pool w)" "pc_counter (cw_pool w') = pc_counter (cw_pool w) + 1"
    using get_or_insert_abs [OF D xs(1) ctr(1) xs(2)] by metis
  note ok = get_or_insert_ok [where Q = Q, OF D M xs(1) ctr(1,2) _ _ parse(1) goi]
  have ok: "cached_ok ?D Q (cw_pool w') (cw_statement_counter w')" "interned_ok (lb_interners E) Q (cw_interners w')"
    "statement_of p = Q h" "cw_statement_counter w' \<in> {cw_statement_counter w, cw_statement_counter w + 1}"
    using ok inv by (auto simp: world_inv_def)
  note ents = get_or_insert_entries [OF D goi]
  define S' where "S' = S(p_name p \<mapsto> Q h)"
  have out: "handed_out (cw_statement_counter w) S" using inv by (simp add: world_inv_def)
  have "S \<subseteq>\<^sub>m S' \<and> handed_out (cw_statement_counter w') S' \<and> p_code p = code (CHR ''P'')"
    using ents(2)
  proof
    assume "\<exists>e. dm_get ?D (pc_cache (cw_pool w)) h = Some e \<and> p = ce_parse e \<and> cw_statement_counter w' = cw_statement_counter w"
    then have a: "entry_agrees S p (p_name p)" and c: "cw_statement_counter w' = cw_statement_counter w"
      using inv by (auto simp: world_inv_def)
    then have "S' = S" using ok(3) by (auto simp: S'_def entry_agrees_def)
    then show ?thesis using out a c by (simp add: entry_agrees_def)
  next
    assume n: "p_code p = p_code parse \<and> p_name p = doorman_name (cw_statement_counter w)
        \<and> cw_statement_counter w' = cw_statement_counter w + 1"
    then have "S (p_name p) = None" using handed_out_fresh(1) [OF out] by simp
    then have "S \<subseteq>\<^sub>m S'" by (auto simp: S'_def map_le_def)
    moreover have "handed_out (cw_statement_counter w + 1) S'"
      unfolding S'_def using n parse(2) word_less_Suc [OF ctr(2)] by (intro handed_out_insert [OF out]) auto
    ultimately show ?thesis using n parse(3) by simp
  qed
  then have S': "S \<subseteq>\<^sub>m S'" "handed_out (cw_statement_counter w') S'" "p_code p = code (CHR ''P'')" by auto
  have agree: "entry_agrees S' p (p_name p)" using S'(3) ok(3) by (simp add: entry_agrees_def S'_def)
  have "entry_agrees S' (ce_parse e') (p_name (ce_parse e'))"
    if "dm_get ?D (pc_cache (cw_pool w')) h' = Some e'" for h' e'
    using ents(1) [OF that] inv agree entry_agrees_mono [OF _ S'(1)] unfolding world_inv_def by metis
  moreover have "length (take (pc_max_size (cw_pool w)) (h # removeAll h xs)) \<le> pc_max_size (cw_pool w')"
    using m(1) by simp
  ultimately have "world_inv E Q S' w'"
    using abs ok(1,2) S'(2) unfolding world_inv_def by blast
  moreover have "unat (pc_counter (cw_pool w')) + 2 * k < 2 ^ 64 - 1" "unat (cw_statement_counter w') + 2 * k < 2 ^ 64 - 1"
    using room ctr(3,4) m(2) ok(4) by (auto simp: counters_room_def)
  ultimately show thesis
    using that [OF goi _ S'(1) agree ok(3)] by blast
qed
lemma world_inv_pool:
  assumes D: "dashmap_laws (lb_pool E)" and inv: "world_inv E Q S w"
  shows "pc_counter (cw_pool w) \<noteq> - 1 \<Longrightarrow> world_inv E Q S (w\<lparr>cw_pool := promote (lb_pool E) h (cw_pool w)\<rparr>)"
    and "world_inv E Q S (w\<lparr>cw_pool := record_hit (lb_pool E) h (cw_pool w)\<rparr>)"
    and "world_inv E Q S (w\<lparr>cw_pool := record_miss (lb_pool E) h (cw_pool w)\<rparr>)"
proof -
  let ?D = "lb_pool E" and ?c = "cw_pool w" and ?k = "cw_statement_counter w"
  have upd: "world_inv E Q S (w\<lparr>cw_pool := c'\<rparr>)"
    if "\<exists>xs. cache_abs ?D (lb_entry_bytes E) c' xs \<and> length xs \<le> pc_max_size c'"
      and "dm_get ?D (pc_cache ?c) h = Some e" and "ce_parse e' = ce_parse e"
      and "dm_get ?D (pc_cache c') = (dm_get ?D (pc_cache ?c))(h \<mapsto> e')" for c' e e'
  proof -
    have "cached_ok ?D Q c' ?k"
      using cached_ok_update [OF _ that(2,3,4)] inv by (simp add: world_inv_def)
    moreover have "entry_agrees S (ce_parse d) (p_name (ce_parse d))" if "dm_get ?D (pc_cache c') h' = Some d" for h' d
      using that \<open>dm_get ?D (pc_cache c') = _\<close> \<open>dm_get ?D (pc_cache ?c) h = Some e\<close> \<open>ce_parse e' = ce_parse e\<close> inv
      by (auto simp: world_inv_def split: if_splits)
    ultimately show ?thesis
      using inv that(1) by (simp add: world_inv_def)
  qed
  obtain xs where xs: "cache_abs ?D (lb_entry_bytes E) ?c xs" "length xs \<le> pc_max_size ?c"
    using inv by (auto simp: world_inv_def)
  show "world_inv E Q S (w\<lparr>cw_pool := promote ?D h ?c\<rparr>)" if "pc_counter ?c \<noteq> - 1"
  proof (cases "dm_get ?D (pc_cache ?c) h")
    case (Some e)
    have "length (if h \<in> set xs then h # removeAll h xs else xs) \<le> pc_max_size (promote ?D h ?c)"
      using xs(2) promote_abs(2) [OF D xs(1) that, of h] length_removeAll_less [of h xs] by auto
    then show ?thesis
      using promote_abs(1) [OF D xs(1) that, of h] D Some
      by (intro upd [OF _ Some, where e' = "e\<lparr>ce_count_used := pc_counter ?c\<rparr>"]) (auto simp: promote_def)
  qed (use inv in \<open>simp add: promote_def\<close>)
  show "world_inv E Q S (w\<lparr>cw_pool := record_hit ?D h ?c\<rparr>)"
  proof (cases "dm_get ?D (pc_cache ?c) h")
    case (Some e)
    then show ?thesis
      using record_abs(1) [OF D xs(1), of h] xs(2) D
      by (intro upd [OF _ Some, where e' = "e\<lparr>ce_hit_count := ce_hit_count e + 1\<rparr>"]) (auto simp: record_hit_def)
  qed (use inv in \<open>simp add: record_hit_def\<close>)
  show "world_inv E Q S (w\<lparr>cw_pool := record_miss ?D h ?c\<rparr>)"
  proof (cases "dm_get ?D (pc_cache ?c) h")
    case (Some e)
    then show ?thesis
      using record_abs(2) [OF D xs(1), of h] xs(2) D
      by (intro upd [OF _ Some, where e' = "e\<lparr>ce_miss_count := ce_miss_count e + 1\<rparr>"]) (auto simp: record_miss_def)
  qed (use inv in \<open>simp add: record_miss_def\<close>)
qed

lemma world_inv_interners:
  assumes "interner_laws (lb_interners E)" and "world_inv E Q S w"
  shows "world_inv E Q S (w\<lparr>cw_interners := record_query_count (lb_interners E) h anon (cw_interners w)\<rparr>)"
  using assms
  by (auto simp: world_inv_def interned_ok_def record_query_count_def interner_laws_def split: option.split if_splits)

lemma world_inv_async:
  assumes inv: "world_inv E Q S w" and ctr: "cw_statement_counter w \<noteq> - 1" and ok: "statement_ok s"
  shows "world_inv E Q (S(async_statement_name (cw_statement_counter w) \<mapsto> s))
      (w\<lparr>cw_statement_counter := cw_statement_counter w + 1\<rparr>)"
    and "S \<subseteq>\<^sub>m S(async_statement_name (cw_statement_counter w) \<mapsto> s)"
proof -
  let ?k = "cw_statement_counter w" and ?S = "S(async_statement_name (cw_statement_counter w) \<mapsto> s)"
  have out: "handed_out ?k S" using inv by (simp add: world_inv_def)
  show le: "S \<subseteq>\<^sub>m ?S" using handed_out_fresh(2) [OF out] by (auto simp: map_le_def)
  have less: "?k < ?k + 1" using word_less_Suc [OF ctr] .
  have "cached_ok (lb_pool E) Q (cw_pool w) (?k + 1)"
    using inv less unfolding world_inv_def cached_ok_def by (meson order_less_trans)
  moreover have "handed_out (?k + 1) ?S" using less ok by (intro handed_out_insert [OF out]) auto
  ultimately show "world_inv E Q ?S (w\<lparr>cw_statement_counter := ?k + 1\<rparr>)"
    using inv entry_agrees_mono [OF _ le] by (simp add: world_inv_def)
qed

section \<open>The cache of the client\<close>

lemma cache_get_entries:
  assumes A: "lru_laws A" and ok: "anon_ok A sc"
  obtains sc' where "statement_cache_get A key sc = (cache_entries A sc key, sc')"
    and "cache_entries A sc' = cache_entries A sc" "anon_ok A sc'"
proof -
  let ?r = "statement_cache_get A key sc"
  have "fst ?r = cache_entries A sc key \<and> cache_entries A (snd ?r) = cache_entries A sc \<and> anon_ok A (snd ?r)"
  proof (cases key; cases "stc_anonymous sc")
    fix h l assume *: "key = Anonymous h" "stc_anonymous sc = Limited l"
    then have l: "lru_ok A l" using ok by (simp add: anon_ok_def)
    have "map_of (lru_iter A (snd (lru_get A h l))) = map_of (lru_iter A l)"
      by (auto simp: lru_get_simps [OF A l] map_of_without split: option.split)
    then show ?thesis
      using * lru_get_simps(1) [OF A l, of h] lru_ok_preserved(1) [OF A l, of h]
      by (auto simp: statement_cache_get_def cache_entries_def anon_ok_def split_beta fun_eq_iff
          split: prepared_statement_key.split)
  qed (use ok in \<open>auto simp: statement_cache_get_def cache_entries_def\<close>)
  then show thesis by (metis prod.collapse that)
qed

lemma cache_put_entries:
  fixes key v
  assumes A: "lru_laws A" and ok: "anon_ok A sc"
  defines "sc' \<equiv> snd (statement_cache_put A key v sc)"
  shows "anon_ok A sc'" and "cache_entries A sc' key = Some v"
    and "key' \<noteq> key \<Longrightarrow> cache_entries A sc' key' \<in> {None, cache_entries A sc key'}"
    and "key = Named n \<Longrightarrow> cache_entries A sc' = (cache_entries A sc)(key \<mapsto> v)"
    and "key = Anonymous h \<Longrightarrow> cache_entries A sc' (Named n') = cache_entries A sc (Named n')"
proof -
  show "key = Named n \<Longrightarrow> cache_entries A sc' = (cache_entries A sc)(key \<mapsto> v)"
    by (auto simp: sc'_def statement_cache_put_def cache_entries_def fun_eq_iff update_conv'
        split: prepared_statement_key.split)
  show "key = Anonymous h \<Longrightarrow> cache_entries A sc' (Named n') = cache_entries A sc (Named n')"
    by (cases "stc_anonymous sc") (simp_all add: sc'_def statement_cache_put_def cache_entries_def split_beta Let_def)
  have "anon_ok A sc' \<and> cache_entries A sc' key = Some v
    \<and> (key' \<noteq> key \<longrightarrow> cache_entries A sc' key' \<in> {None, cache_entries A sc key'})"
  proof (cases key; cases "stc_anonymous sc")
    fix h l assume *: "key = Anonymous h" "stc_anonymous sc = Limited l"
    then have l: "lru_ok A l" using ok by (simp add: anon_ok_def)
    let ?xs = "lru_iter A l"
    have d: "distinct (map fst ?xs)" using l by (simp add: lru_ok_def)
    have "map_of (butlast ?xs) g \<in> {None, map_of ?xs g}" for g
    proof (cases "map_of (butlast ?xs) g")
      case (Some v)
      then have "(g, v) \<in> set ?xs" by (meson in_set_butlastD map_of_SomeD)
      then show ?thesis using Some d by simp
    qed simp
    then have "map_of (lru_iter A (snd (lru_push A h v l))) h = Some v
      \<and> (g \<noteq> h \<longrightarrow> map_of (lru_iter A (snd (lru_push A h v l))) g \<in> {None, map_of ?xs g})" for g
      by (auto simp: lru_push_simps [OF A l] push_spec_def map_of_without split: option.split)
    then show ?thesis
      using * lru_ok_preserved(2) [OF A l, of h v]
      by (auto simp: sc'_def statement_cache_put_def cache_entries_def anon_ok_def split_beta Let_def
          split: prepared_statement_key.split)
  qed (use ok in \<open>auto simp: sc'_def statement_cache_put_def cache_entries_def anon_ok_def update_conv'
        split: prepared_statement_key.split\<close>)
  then show "anon_ok A sc'" and "cache_entries A sc' key = Some v"
    and "key' \<noteq> key \<Longrightarrow> cache_entries A sc' key' \<in> {None, cache_entries A sc key'}"
    by blast+
qed

lemma cache_pop_entries:
  "cache_entries A (snd (statement_cache_pop A (Named n) sc)) = (cache_entries A sc)(Named n := None)"
  "anon_ok A (snd (statement_cache_pop A (Named n) sc)) = anon_ok A sc"
  by (auto simp: statement_cache_pop_def cache_entries_def anon_ok_def fun_eq_iff delete_conv split: prepared_statement_key.split)

lemma remember_statement_fields:
  "pst_cache (remember_statement E n c ps) =
     snd (statement_cache_put (lb_anon E) (from_name_or_hash n (cst_hash c)) c (pst_cache ps))"
  "pst_last_anonymous_hash (remember_statement E n c ps) =
     (if n = [] then Some (cst_hash c) else pst_last_anonymous_hash ps)"
  "pst_enabled (remember_statement E n c ps) = pst_enabled ps"
  "pst_async_client (remember_statement E n c ps) = pst_async_client ps"
  by (simp_all add: remember_statement_def Let_def split_beta split: put_outcome.split)

lemma remember_statement_view:
  assumes A: "lru_laws (lb_anon E)" and inv: "client_inv E S ps" and c: "entry_agrees S (cst_parse c) (server_name c)"
  shows "client_inv E S (remember_statement E n c ps)"
    and "client_view (lb_anon E) (remember_statement E n c ps) = (client_view (lb_anon E) ps)(n \<mapsto> statement_of (cst_parse c))"
proof -
  let ?A = "lb_anon E" and ?sc = "pst_cache ps" and ?ps = "remember_statement E n c ps"
  define key where "key = from_name_or_hash n (cst_hash c)"
  have ok: "anon_ok ?A ?sc" using inv by (simp add: client_inv_def)
  note put = cache_put_entries [OF A ok, where key = key and v = c]
  have sc': "pst_cache ?ps = snd (statement_cache_put ?A key c ?sc)"
    by (simp add: key_def remember_statement_fields)
  have "entry_agrees S (cst_parse d) (server_name d)" if "cache_entries ?A (pst_cache ?ps) k = Some d" for k d
  proof (cases "k = key")
    case True
    then show ?thesis using that put(2) c unfolding sc' by simp
  next
    case False
    then have "cache_entries ?A ?sc k = Some d" using that put(3) [of k] unfolding sc' by auto
    then show ?thesis using inv by (auto simp: client_inv_def)
  qed
  moreover have "last_anonymous_held ?A ?ps"
  proof (cases "n = []")
    case True
    then have "key = Anonymous (cst_hash c)" by (simp add: key_def from_name_or_hash_def)
    then show ?thesis
      using True put(2) unfolding last_anonymous_held_def sc' by (simp add: remember_statement_fields)
  next
    case False
    then have "key = Named n" by (simp add: key_def from_name_or_hash_def)
    then show ?thesis
      using False put(4) [of n] inv unfolding last_anonymous_held_def client_inv_def sc'
      by (simp add: remember_statement_fields split: option.splits)
  qed
  ultimately show "client_inv E S ?ps"
    using inv put(1) unfolding client_inv_def sc' by (simp add: remember_statement_fields)
  show "client_view ?A ?ps = (client_view ?A ps)(n \<mapsto> statement_of (cst_parse c))"
  proof (cases "n = []")
    case True
    then have "key = Anonymous (cst_hash c)" by (simp add: key_def from_name_or_hash_def)
    then show ?thesis
      using True put(2,5) unfolding client_view_def sc' by (auto simp: fun_eq_iff remember_statement_fields)
  next
    case False
    then have "key = Named n" by (simp add: key_def from_name_or_hash_def)
    then show ?thesis
      using False put(4) [of n] unfolding client_view_def sc' by (auto simp: fun_eq_iff remember_statement_fields)
  qed
qed
section \<open>One request\<close>

text \<open>The connection is about to receive the answer to a Parse, should the pooler send one.\<close>

definition answering :: "u8 \<Rightarrow> ('q, 'c, 'n, 'a, 'l) session \<Rightarrow> ('q, 'c, 'n, 'a, 'l) session" where
  "answering t st = st\<lparr>se_server := (se_server st)\<lparr>sv_stream := parse_answer t\<rparr>\<rparr>"

text \<open>What a step puts on the wire at once, and what it leaves in the buffer.\<close>

definition parsed_first :: "statements \<Rightarrow> frame list \<Rightarrow> statements \<Rightarrow> bool" where
  "parsed_first pg gs pg1 \<longleftrightarrow> gs = [] \<and> pg1 = pg
     \<or> (\<exists>n s f. reserved n \<and> pg n = None \<and> gs = [f, (code (CHR ''S''), [])] \<and> pg_reads f = PgParse n s
          \<and> pg1 = pg(n \<mapsto> s))"

definition advanced ::
  "('q, 'c, 'n, 'a, 'l) libs \<Rightarrow> ('q, 'c, 'n, 'a, 'l) session \<Rightarrow> ('q, 'c, 'n, 'a, 'l) session \<Rightarrow> frame list \<Rightarrow> frame list \<Rightarrow> bool" where
  "advanced E st st' gs fs \<longleftrightarrow>
     (\<exists>chunks. sv_sent (se_server st') = sv_sent (se_server st) @ chunks \<and> concat chunks = frames gs)
     \<and> cl_buffer (se_client st') = cl_buffer (se_client st) @ frames fs
     \<and> sv_writable (se_server st) \<le> Suc (sv_writable (se_server st'))
     \<and> fst (planner_param_hash (lb_planner E) (cl_parameters (se_client st')))
         = fst (planner_param_hash (lb_planner E) (cl_parameters (se_client st)))"

lemma client_get:
  assumes E: "libs_ok E" and inv: "session_inv E Q S pg st"
  obtains sc where "client_cache_get E key st =
      (cache_entries (lb_anon E) (pst_cache (cl_prepared (se_client st))) key,
       on_prepared (\<lambda>ps. ps\<lparr>pst_cache := sc\<rparr>) st)"
    and "cache_entries (lb_anon E) sc = cache_entries (lb_anon E) (pst_cache (cl_prepared (se_client st)))"
    and "anon_ok (lb_anon E) sc"
proof -
  have "lru_laws (lb_anon E)" "anon_ok (lb_anon E) (pst_cache (cl_prepared (se_client st)))"
    using assms by (simp_all add: libs_ok_def session_inv_def client_inv_def)
  from cache_get_entries [OF this, of key] obtain sc where
    "statement_cache_get (lb_anon E) key (pst_cache (cl_prepared (se_client st)))
       = (cache_entries (lb_anon E) (pst_cache (cl_prepared (se_client st))) key, sc)"
    and sc: "cache_entries (lb_anon E) sc = cache_entries (lb_anon E) (pst_cache (cl_prepared (se_client st)))"
      "anon_ok (lb_anon E) sc" .
  then show thesis
    by (intro that [OF _ sc]) (simp add: client_cache_get_def)
qed

lemma same_entries_inv:
  assumes "cache_entries (lb_anon E) sc = cache_entries (lb_anon E) (pst_cache ps)" and "anon_ok (lb_anon E) sc"
    and "client_inv E S ps"
  shows "client_inv E S (ps\<lparr>pst_cache := sc\<rparr>)" and "client_view (lb_anon E) (ps\<lparr>pst_cache := sc\<rparr>) = client_view (lb_anon E) ps"
  using assms by (simp_all add: client_inv_def last_anonymous_held_def client_view_def fun_eq_iff split: option.splits)

lemma promote_counter:
  "unat (pc_counter c) < 2 ^ 64 - 1 \<Longrightarrow> unat (pc_counter (promote D h c)) \<le> Suc (unat (pc_counter c))"
  by (auto simp: promote_def unat_word_ariths take_bit_nat_eq_self split: option.split)

lemma register_on_server:
  assumes E: "libs_ok E" and inv: "server_agrees (lb_names E) S pg sv" and out: "handed_out k S"
    and c: "entry_agrees S p n" and t: "status_byte t" and stream: "sv_stream sv = parse_answer t"
    and writable: "0 < sv_writable sv"
  obtains sv' gs pg1 chunks where "register_prepared_statement (lb_names E) p n True sv = (Inr (), sv')"
    "server_agrees (lb_names E) S pg1 sv'" "parsed_first pg gs pg1" "pg1 n = Some (statement_of p)"
    "sv_sent sv' = sv_sent sv @ chunks" "concat chunks = frames gs" "sv_writable sv \<le> Suc (sv_writable sv')"
    "n \<in> known_names (lb_names E) sv \<longrightarrow> gs = []"
proof -
  let ?L = "lb_names E"
  have L: "lru_laws ?L" using E by (simp add: libs_ok_def)
  have Sn: "S n = Some (statement_of p)" "p_code p = code (CHR ''P'')" using c by (simp_all add: entry_agrees_def)
  have res: "reserved n" and ok: "statement_ok (statement_of p)"
    using handed_out_reserved [OF out Sn(1)] handed_outD [OF out Sn(1)] by auto
  have inv': "names_inv ?L sv" using inv by (simp add: server_agrees_def)
  show thesis
  proof (cases "n \<in> known_names ?L sv")
    case True
    obtain sv' where r: "register_prepared_statement ?L p n True sv = (Inr (), sv')" "names_inv ?L sv'"
      "known_names ?L sv' = known_names ?L sv" "sv_sent sv' = sv_sent sv" "sv_writable sv' = sv_writable sv"
      using register_known [OF L inv' True] by metis
    show thesis
      by (rule that [of sv' pg "[]" "[]", OF r(1)])
        (use inv r res Sn(1) True in \<open>simp_all add: server_agrees_def parsed_first_def frames_def\<close>)
  next
    case False
    let ?f = "(code (CHR ''P''), parse_payload n (statement_of p))"
    have bs: "to_bytes_with_name p n = Inr (frame_bytes ?f)"
      using to_bytes_frame(1) [OF ok reserved_text(1) [OF res]] Sn(2) by simp
    obtain sv' where r: "register_prepared_statement ?L p n True sv = (Inr (), sv')" "names_inv ?L sv'"
      "known_names ?L sv' = insert n (known_names ?L sv)" "sv_sent sv' = sv_sent sv @ [frame_bytes ?f @ sync_msg]"
      "sv_writable sv' = sv_writable sv - 1"
      using register_new [OF L inv' False, of True p "frame_bytes ?f" t] bs t stream writable
      by (auto simp: frame_bytes_def)
    have none: "pg n = None" using inv False res by (simp add: server_agrees_def)
    have "parsed_first pg [?f, (code (CHR ''S''), [])] (pg(n \<mapsto> statement_of p))"
      using res none pg_reads_frames(1) [OF ok reserved_text(1) [OF res]] by (auto simp: parsed_first_def)
    moreover have "server_agrees ?L S (pg(n \<mapsto> statement_of p)) sv'"
      using inv r Sn(1) by (auto simp: server_agrees_def)
    ultimately show thesis
      using r writable False
      by (intro that [of sv' "pg(n \<mapsto> statement_of p)" "[?f, (code (CHR ''S''), [])]" "[frame_bytes ?f @ sync_msg]"])
        (simp_all add: frames_def frame_bytes_def sync_msg_def)
  qed
qed
abbreviation entries_of :: "('q, 'c, 'n, 'a, 'l) libs \<Rightarrow> ('q, 'c, 'n, 'a, 'l) session \<Rightarrow> prepared_statement_key \<rightharpoonup> cached_statement" where
  "entries_of E st \<equiv> cache_entries (lb_anon E) (pst_cache (cl_prepared (se_client st)))"

abbreviation view_of :: "('q, 'c, 'n, 'a, 'l) libs \<Rightarrow> ('q, 'c, 'n, 'a, 'l) session \<Rightarrow> statements" where
  "view_of E st \<equiv> client_view (lb_anon E) (cl_prepared (se_client st))"

lemma ensure_on_server:
  assumes E: "libs_ok E" and inv: "session_inv E Q S pg st" and c: "entries_of E st key = Some c"
    and t: "status_byte t" and stream: "sv_stream (se_server st) = parse_answer t"
    and writable: "0 < sv_writable (se_server st)" and room: "counters_room (Suc k) (se_world st)"
  obtains st' gs pg1 where "ensure_prepared_statement_is_on_server E key st = (Inr (), st')"
    "session_inv E Q S pg1 st'" "parsed_first pg gs pg1" "advanced E st st' gs []" "view_of E st' = view_of E st"
    "pg1 (server_name c) = Some (statement_of (cst_parse c))" "counters_room k (se_world st')"
    "server_name c \<in> known_names (lb_names E) (se_server st) \<longrightarrow> gs = []"
proof -
  obtain sc where get: "client_cache_get E key st = (Some c, on_prepared (\<lambda>ps. ps\<lparr>pst_cache := sc\<rparr>) st)"
    and sc: "cache_entries (lb_anon E) sc = entries_of E st" "anon_ok (lb_anon E) sc"
    using client_get [OF E inv, of key] c by auto
  define w where "w = (se_world st)\<lparr>cw_pool := promote (lb_pool E) (cst_hash c) (cw_pool (se_world st))\<rparr>"
  have D: "dashmap_laws (lb_pool E)" using E by (simp add: libs_ok_def)
  have i: "se_pool_cache st" "world_inv E Q S (se_world st)" "client_inv E S (cl_prepared (se_client st))"
    "server_agrees (lb_names E) S pg (se_server st)"
    using inv by (simp_all add: session_inv_def)
  have ctr: "unat (pc_counter (cw_pool (se_world st))) < 2 ^ 64 - 1" "pc_counter (cw_pool (se_world st)) \<noteq> - 1"
    using room counter_room [of "pc_counter (cw_pool (se_world st))" 0] by (auto simp: counters_room_def)
  have w: "world_inv E Q S w" unfolding w_def by (rule world_inv_pool(1) [OF D i(2) ctr(2)])
  have agree: "entry_agrees S (cst_parse c) (server_name c)" using i(3) c by (auto simp: client_inv_def)
  have out: "handed_out (cw_statement_counter (se_world st)) S" using i(2) by (simp add: world_inv_def)
  obtain sv' gs pg1 chunks where
    r: "register_prepared_statement (lb_names E) (cst_parse c) (server_name c) True (se_server st) = (Inr (), sv')"
    "server_agrees (lb_names E) S pg1 sv'" "parsed_first pg gs pg1" "pg1 (server_name c) = Some (statement_of (cst_parse c))"
    "sv_sent sv' = sv_sent (se_server st) @ chunks" "concat chunks = frames gs" "sv_writable (se_server st) \<le> Suc (sv_writable sv')"
    "server_name c \<in> known_names (lb_names E) (se_server st) \<longrightarrow> gs = []"
    using register_on_server [OF E i(4) out agree t stream writable] .
  define st' where "st' = (on_prepared (\<lambda>ps. ps\<lparr>pst_cache := sc\<rparr>) st)\<lparr>se_world := w, se_server := sv'\<rparr>"
  have "register_parse_to_server_cache E True (cst_hash c) (cst_parse c) (server_name c)
      (on_prepared (\<lambda>ps. ps\<lparr>pst_cache := sc\<rparr>) st) = (Inr (), st')"
    using i(1) r(1)
    by (simp add: register_parse_to_server_cache_def promote_prepared_statement_hash_def on_pool_def on_prepared_def st'_def w_def)
  then have ens: "ensure_prepared_statement_is_on_server E key st = (Inr (), st')"
    by (simp add: ensure_prepared_statement_is_on_server_def get)
  have f: "se_client st' = (se_client st)\<lparr>cl_prepared := (cl_prepared (se_client st))\<lparr>pst_cache := sc\<rparr>\<rparr>"
    "se_world st' = w" "se_server st' = sv'" "se_pool_cache st' = se_pool_cache st"
    by (simp_all add: st'_def on_prepared_def)
  have "session_inv E Q S pg1 st'"
    using i(1) w r(2) same_entries_inv(1) [OF sc i(3)] by (simp add: session_inv_def f)
  moreover have "advanced E st st' gs []"
    using r(5-7) by (auto simp: advanced_def f frames_def)
  moreover have "view_of E st' = view_of E st"
    using same_entries_inv(2) [OF sc i(3)] by (simp add: f)
  moreover have "counters_room k (se_world st')"
    using room promote_counter [OF ctr(1), of "lb_pool E" "cst_hash c"] by (simp add: counters_room_def f w_def)
  ultimately show thesis
    using that [OF ens _ r(3) _ _ r(4) _ r(8)] by blast
qed

text \<open>What one request achieves.\<close>

definition step_done ::
  "('q, 'c, 'n, 'a, 'l) libs \<Rightarrow> (u64 \<Rightarrow> statement) \<Rightarrow> statements \<Rightarrow> statements \<Rightarrow> nat \<Rightarrow> ('q, 'c, 'n, 'a, 'l) session
     \<Rightarrow> statements \<Rightarrow> statement list \<Rightarrow> ('q, 'c, 'n, 'a, 'l) session \<Rightarrow> bool" where
  "step_done E Q S pg k st v us st' \<longleftrightarrow>
     (\<exists>S' gs fs pg1 pg'. S \<subseteq>\<^sub>m S' \<and> parsed_first pg gs pg1 \<and> pg_run fs pg1 = Some (pg', us)
        \<and> list_all spares_reserved fs \<and> advanced E st st' gs fs \<and> session_inv E Q S' pg' st'
        \<and> view_of E st' = v \<and> counters_room k (se_world st'))"

lemma view_entry:
  assumes "view_of E st n = Some s" and "client_inv E S (cl_prepared (se_client st))"
  obtains key c where "get_prepared_statement_lookup_key n st = (Inr key, st)" "entries_of E st key = Some c"
    "statement_of (cst_parse c) = s"
proof (cases "n = []")
  case True
  then obtain h c where "pst_last_anonymous_hash (cl_prepared (se_client st)) = Some h"
    "entries_of E st (Anonymous h) = Some c" "statement_of (cst_parse c) = s"
    using assms(1) by (auto simp: client_view_def bind_eq_Some_conv)
  with True show thesis
    by (intro that [of "Anonymous h" c]) (simp_all add: get_prepared_statement_lookup_key_def)
next
  case False
  then show thesis
    using assms(1) by (auto simp: client_view_def get_prepared_statement_lookup_key_def intro: that)
qed

text \<open>Changes of the client that no invariant sees.\<close>

definition same_core :: "'q prepared_state \<Rightarrow> 'q prepared_state \<Rightarrow> bool" where
  "same_core ps ps' \<longleftrightarrow> pst_enabled ps' = pst_enabled ps \<and> pst_cache ps' = pst_cache ps
     \<and> pst_last_anonymous_hash ps' = pst_last_anonymous_hash ps \<and> pst_async_client ps' = pst_async_client ps"

lemma same_core_inv:
  assumes "same_core ps ps'"
  shows "client_inv E S ps' = client_inv E S ps" and "client_view A ps' = client_view A ps"
  using assms by (simp_all add: same_core_def client_inv_def last_anonymous_held_def client_view_def fun_eq_iff split: option.split)

lemma same_core_updates [simp]:
  "same_core ps (mark_bound n ps)" "same_core ps (mark_at_beginning ps)" "same_core ps (note_parse_sent ps)"
  "same_core ps (retarget_described n ps)"
  by (simp_all add: same_core_def mark_bound_def mark_at_beginning_def note_parse_sent_def retarget_described_def
      Let_def split: option.split)
lemma session_inv_core:
  assumes "session_inv E Q S pg st" and "se_pool_cache st' = se_pool_cache st" and "se_server st' = se_server st"
    and "same_core (cl_prepared (se_client st)) (cl_prepared (se_client st'))" and "world_inv E Q S (se_world st')"
  shows "session_inv E Q S pg st'" and "view_of E st' = view_of E st"
  using assms same_core_inv(1) [OF assms(4), of E S] same_core_inv(2) [OF assms(4), of "lb_anon E"]
  by (simp_all add: session_inv_def)

lemma answering_inv:
  assumes "session_inv E Q S pg st"
  shows "session_inv E Q S pg (answering t st)" and "sv_stream (se_server (answering t st)) = parse_answer t"
    and "se_client (answering t st) = se_client st" "se_world (answering t st) = se_world st"
    and "sv_writable (se_server (answering t st)) = sv_writable (se_server st)"
    and "advanced E (answering t st) st' gs fs \<Longrightarrow> advanced E st st' gs fs"
  using assms by (simp_all add: answering_def session_inv_def server_agrees_def names_fields advanced_def)

text \<open>The part that Bind and Describe share: find the statement, and have it on the server.\<close>

lemma use_statement:
  assumes E: "libs_ok E" and inv: "session_inv E Q S pg st" and v: "view_of E st n = Some s"
    and t: "status_byte t" and writable: "0 < sv_writable (se_server st)" and room: "counters_room (Suc k) (se_world st)"
  obtains key c st1 st2 gs pg1 where
    "get_prepared_statement_lookup_key n (answering t st) = (Inr key, answering t st)"
    "client_cache_get E key (answering t st) = (Some c, st1)"
    "ensure_prepared_statement_is_on_server E key st1 = (Inr (), st2)"
    "text_ok (server_name c)" "session_inv E Q S pg1 st2" "parsed_first pg gs pg1" "advanced E st st2 gs []"
    "view_of E st2 = view_of E st" "pg1 (server_name c) = Some s" "counters_room k (se_world st2)"
    "entries_of E st key = Some c" "server_name c \<in> known_names (lb_names E) (se_server st) \<longrightarrow> gs = []"
proof -
  note a = answering_inv [OF inv, of t]
  obtain key c where key: "get_prepared_statement_lookup_key n (answering t st) = (Inr key, answering t st)"
    "entries_of E (answering t st) key = Some c" "statement_of (cst_parse c) = s"
    using view_entry [of E "answering t st" n s S] v inv a(1,3) by (auto simp: session_inv_def)
  obtain sc where get: "client_cache_get E key (answering t st) = (Some c, on_prepared (\<lambda>ps. ps\<lparr>pst_cache := sc\<rparr>) (answering t st))"
    and sc: "cache_entries (lb_anon E) sc = entries_of E (answering t st)" "anon_ok (lb_anon E) sc"
    using client_get [OF E a(1), of key] key(2) by auto
  define st1 where "st1 = on_prepared (\<lambda>ps. ps\<lparr>pst_cache := sc\<rparr>) (answering t st)"
  have f: "se_client st1 = (se_client st)\<lparr>cl_prepared := (cl_prepared (se_client st))\<lparr>pst_cache := sc\<rparr>\<rparr>"
    "se_world st1 = se_world st" "se_server st1 = se_server (answering t st)" "se_pool_cache st1 = se_pool_cache st"
    by (simp_all add: st1_def on_prepared_def answering_def)
  have cl: "client_inv E S (cl_prepared (se_client st))" using inv by (simp add: session_inv_def)
  have sc': "cache_entries (lb_anon E) sc = entries_of E st" using sc(1) a(3) by simp
  have inv1: "session_inv E Q S pg st1" and view1: "view_of E st1 = view_of E st"
    using a(1) same_entries_inv [OF sc' sc(2) cl] by (simp_all add: session_inv_def f a(4) answering_def)
  have c1: "entries_of E st1 key = Some c" using sc(1) key(2) by (simp add: f)
  have w: "sv_stream (se_server st1) = parse_answer t" "0 < sv_writable (se_server st1)" "counters_room (Suc k) (se_world st1)"
    using a(2,5) writable room by (simp_all add: f)
  obtain st2 gs pg1 where
    e: "ensure_prepared_statement_is_on_server E key st1 = (Inr (), st2)" "session_inv E Q S pg1 st2"
      "parsed_first pg gs pg1" "advanced E st1 st2 gs []" "view_of E st2 = view_of E st1"
      "pg1 (server_name c) = Some (statement_of (cst_parse c))" "counters_room k (se_world st2)"
      "server_name c \<in> known_names (lb_names E) (se_server st1) \<longrightarrow> gs = []"
    using ensure_on_server [OF E inv1 c1 t w] .
  have "entry_agrees S (cst_parse c) (server_name c)" using cl key(2) a(3) by (auto simp: client_inv_def)
  moreover have "handed_out (cw_statement_counter (se_world st)) S"
    using inv by (simp add: session_inv_def world_inv_def)
  ultimately have "text_ok (server_name c)"
    using entry_agreesD(2) by blast
  moreover have "advanced E st st2 gs []"
    using e(4) by (simp add: advanced_def f answering_def)
  ultimately show thesis
    using that [OF key(1) get [folded st1_def] e(1)] e(2,3,5-8) key(2,3) view1 a(3)
    by (simp add: f answering_def names_fields)
qed
lemma enabled: "session_inv E Q S pg st \<Longrightarrow> pst_enabled (cl_prepared (se_client st))"
  by (simp add: session_inv_def client_inv_def)

lemma world_of: "session_inv E Q S pg st \<Longrightarrow> world_inv E Q S (se_world st)"
  by (simp add: session_inv_def)

lemmas session_fields = push_operation_def on_prepared_def buffer_put_def count_bind_def

lemma bind_frame:
  assumes E: "libs_ok E" and inv: "session_inv E Q S pg st" and ok: "request_ok (RBind portal n rest)"
    and v: "view_of E st n = Some s"
    and t: "status_byte t" and writable: "0 < sv_writable (se_server st)" and room: "counters_room (Suc k) (se_world st)"
  obtains key c st' gs pg1 where "get_prepared_statement_lookup_key n (answering t st) = (Inr key, answering t st)"
    "entries_of E st key = Some c"
    "process_bind_immediate E (frame_bytes (request_frame (RBind portal n rest))) (answering t st) = (Inr (), st')"
    "parsed_first pg gs pg1" "advanced E st st' gs [(code (CHR ''B''), portal @ 0 # server_name c @ 0 # rest)]"
    "pg_reads (code (CHR ''B''), portal @ 0 # server_name c @ 0 # rest) = PgUse (server_name c)"
    "session_inv E Q S pg1 st'" "view_of E st' = view_of E st" "pg1 (server_name c) = Some s" "counters_room k (se_world st')"
    "server_name c \<in> known_names (lb_names E) (se_server st) \<longrightarrow> gs = []"
proof -
  obtain key c st1 st2 gs pg1 where
    u: "get_prepared_statement_lookup_key n (answering t st) = (Inr key, answering t st)"
      "client_cache_get E key (answering t st) = (Some c, st1)"
      "ensure_prepared_statement_is_on_server E key st1 = (Inr (), st2)"
      "text_ok (server_name c)" "session_inv E Q S pg1 st2" "parsed_first pg gs pg1" "advanced E st st2 gs []"
      "view_of E st2 = view_of E st" "pg1 (server_name c) = Some s" "counters_room k (se_world st2)"
      "entries_of E st key = Some c" "server_name c \<in> known_names (lb_names E) (se_server st) \<longrightarrow> gs = []"
    using use_statement [OF E inv v t writable room] .
  have z: "0 \<notin> set portal" "text_ok n" using ok by simp_all
  let ?m = "frame_bytes (code (CHR ''B''), portal @ 0 # n @ 0 # rest)"
  define f where "f = (code (CHR ''B''), portal @ 0 # server_name c @ 0 # rest)"
  have m: "bind_get_name ?m = Inr n" "bind_rename ?m (server_name c) = Inr (frame_bytes f)"
    using rename_frame [OF z u(4)] by (simp_all add: f_def)
  define st3 where "st3 = count_bind E (cst_hash c) (n = []) (push_operation (BindOp (server_name c))
      (buffer_put (frame_bytes f) (on_prepared (mark_bound (server_name c)) st2)))"
  have p: "process_bind_immediate E (frame_bytes (request_frame (RBind portal n rest))) (answering t st) = (Inr (), st3)"
    using enabled [OF inv] answering_inv(3) [OF inv, of t] u(1-3) m
    by (simp add: process_bind_immediate_def and_then_def st3_def)
  have f3: "se_pool_cache st3 = se_pool_cache st2" "se_server st3 = se_server st2"
    "cl_buffer (se_client st3) = cl_buffer (se_client st2) @ frame_bytes f" "cl_parameters (se_client st3) = cl_parameters (se_client st2)"
    "se_world st3 = (se_world st2)\<lparr>cw_interners := record_query_count (lb_interners E) (cst_hash c) (n = []) (cw_interners (se_world st2))\<rparr>"
    by (simp_all add: st3_def session_fields)
  have core: "same_core (cl_prepared (se_client st2)) (cl_prepared (se_client st3))"
    by (simp add: st3_def session_fields same_core_def mark_bound_def)
  have "interner_laws (lb_interners E)" using E by (simp add: libs_ok_def)
  from world_inv_interners [OF this world_of [OF u(5)], of "cst_hash c" "n = []"]
  have w: "world_inv E Q S (se_world st3)" unfolding f3(5) .
  have "pg_reads f = PgUse (server_name c)" unfolding f_def by (rule pg_reads_frames(2) [OF z(1) u(4)])
  moreover have "advanced E st st3 gs [f]"
    using u(7) by (simp add: advanced_def f3 frames_def)
  moreover have "counters_room k (se_world st3)" using u(10) by (simp add: counters_room_def f3)
  ultimately show thesis
    using that [OF u(1,11) p u(6)] session_inv_core [OF u(5) f3(1,2) core w] u(8,9,12) by (simp add: f_def)
qed

lemma step_bind:
  assumes E: "libs_ok E" and inv: "session_inv E Q S pg st" and ok: "request_ok (RBind portal n rest)"
    and v: "view_of E st n = Some s"
    and t: "status_byte t" and writable: "0 < sv_writable (se_server st)" and room: "counters_room (Suc k) (se_world st)"
  shows "\<exists>st'. process_bind_immediate E (frame_bytes (request_frame (RBind portal n rest))) (answering t st) = (Inr (), st')
    \<and> step_done E Q S pg k st (view_of E st) [s] st'"
proof -
  obtain key c st' gs pg1 where
    b: "get_prepared_statement_lookup_key n (answering t st) = (Inr key, answering t st)" "entries_of E st key = Some c"
      "process_bind_immediate E (frame_bytes (request_frame (RBind portal n rest))) (answering t st) = (Inr (), st')"
      "parsed_first pg gs pg1" "advanced E st st' gs [(code (CHR ''B''), portal @ 0 # server_name c @ 0 # rest)]"
      "pg_reads (code (CHR ''B''), portal @ 0 # server_name c @ 0 # rest) = PgUse (server_name c)"
      "session_inv E Q S pg1 st'" "view_of E st' = view_of E st" "pg1 (server_name c) = Some s" "counters_room k (se_world st')"
      "server_name c \<in> known_names (lb_names E) (se_server st) \<longrightarrow> gs = []"
    using bind_frame [OF E inv ok v t writable room] .
  let ?f = "(code (CHR ''B''), portal @ 0 # server_name c @ 0 # rest)"
  have "pg_run [?f] pg1 = Some (pg1, [s])" "list_all spares_reserved [?f]"
    using b(6,9) by (simp_all add: spares_reserved_def)
  then have "step_done E Q S pg k st (view_of E st) [s] st'"
    unfolding step_done_def using b(4,5,7,8,10) map_le_refl by blast
  with b(3) show ?thesis by blast
qed

lemma step_describe:
  assumes E: "libs_ok E" and inv: "session_inv E Q S pg st" and ok: "request_ok (RDescribe (code (CHR ''S'')) n)"
    and v: "view_of E st n = Some s"
    and t: "status_byte t" and writable: "0 < sv_writable (se_server st)" and room: "counters_room (Suc k) (se_world st)"
  shows "\<exists>st'. process_describe_immediate E (frame_bytes (request_frame (RDescribe (code (CHR ''S'')) n))) (answering t st) = (Inr (), st')
    \<and> step_done E Q S pg k st (view_of E st) [s] st'"
proof -
  obtain key c st1 st2 gs pg1 where
    u: "get_prepared_statement_lookup_key n (answering t st) = (Inr key, answering t st)"
      "client_cache_get E key (answering t st) = (Some c, st1)"
      "ensure_prepared_statement_is_on_server E key st1 = (Inr (), st2)"
      "text_ok (server_name c)" "session_inv E Q S pg1 st2" "parsed_first pg gs pg1" "advanced E st st2 gs []"
      "view_of E st2 = view_of E st" "pg1 (server_name c) = Some s" "counters_room k (se_world st2)"
      "entries_of E st key = Some c" "server_name c \<in> known_names (lb_names E) (se_server st) \<longrightarrow> gs = []"
    using use_statement [OF E inv v t writable room] .
  define f where "f = (code (CHR ''D''), code (CHR ''S'') # server_name c @ [0])"
  define st3 where "st3 = push_operation (DescribeOp (server_name c)) (buffer_put (frame_bytes f)
      (on_prepared (retarget_described (server_name c)) st2))"
  have n: "text_ok n" using ok by simp
  have "process_describe_immediate E (frame_bytes (request_frame (RDescribe (code (CHR ''S'')) n))) (answering t st) = (Inr (), st3)"
    using enabled [OF inv] answering_inv(3) [OF inv, of t] u(1-3) n u(4)
    by (simp add: process_describe_immediate_def and_then_def st3_def f_def target_frame describe_rename_def)
  moreover have "step_done E Q S pg k st (view_of E st) [s] st3"
  proof -
    have f3: "se_pool_cache st3 = se_pool_cache st2" "se_server st3 = se_server st2" "se_world st3 = se_world st2"
      "cl_buffer (se_client st3) = cl_buffer (se_client st2) @ frame_bytes f" "cl_parameters (se_client st3) = cl_parameters (se_client st2)"
      by (simp_all add: st3_def session_fields)
    have core: "same_core (cl_prepared (se_client st2)) (cl_prepared (se_client st3))"
      using same_core_updates(4) [of "cl_prepared (se_client st2)" "server_name c"]
      by (simp add: st3_def session_fields same_core_def)
    have "pg_run [f] pg1 = Some (pg1, [s])" "list_all spares_reserved [f]"
      using u(9) pg_reads_frames(3) [OF u(4), of "code (CHR ''S'')"] by (simp_all add: spares_reserved_def f_def)
    moreover have "advanced E st st3 gs [f]"
      using u(7) by (simp add: advanced_def f3 frames_def)
    ultimately show ?thesis
      unfolding step_done_def f3(3)
      using u(6,8,10) session_inv_core [OF u(5) f3(1,2) core, unfolded f3(3), OF world_of [OF u(5)]] map_le_refl by metis
  qed
  ultimately show ?thesis by auto
qed

text \<open>Messages that are passed on as they are.\<close>

lemma step_passed:
  assumes inv: "session_inv E Q S pg st" and f: "pg_step (pg_reads f) pg = Some (pg', [])" "spares_reserved f"
    and pg': "\<And>n. reserved n \<Longrightarrow> pg' n = pg n" and room: "counters_room (Suc k) (se_world st)"
    and st': "se_pool_cache st' = se_pool_cache st" "se_world st' = se_world st"
      "se_server st' = (se_server st)\<lparr>sv_stream := sm\<rparr>" "cl_buffer (se_client st') = cl_buffer (se_client st) @ frame_bytes f"
      "cl_parameters (se_client st') = cl_parameters (se_client st)"
    and cl: "client_inv E S (cl_prepared (se_client st'))"
  shows "step_done E Q S pg k st (view_of E st') [] st'"
proof -
  have "pg_run [f] pg = Some (pg', [])" "list_all spares_reserved [f]" "parsed_first pg [] pg"
    using f by (simp_all add: parsed_first_def)
  moreover have "advanced E st st' [] [f]" by (simp add: advanced_def st' frames_def)
  moreover have "session_inv E Q S pg' st'"
    using inv cl pg' by (simp add: session_inv_def st' server_agrees_def names_fields)
  moreover have "counters_room k (se_world st')" using room by (simp add: counters_room_def st')
  ultimately show ?thesis
    unfolding step_done_def using map_le_refl by blast
qed

lemma step_execute:
  assumes inv: "session_inv E Q S pg st" and room: "counters_room (Suc k) (se_world st)"
  shows "step_done E Q S pg k st (view_of E st) []
      (push_operation Execute (buffer_put (frame_bytes (code (CHR ''E''), bs)) (answering t st)))"
proof -
  let ?st = "push_operation Execute (buffer_put (frame_bytes (code (CHR ''E''), bs)) (answering t st))"
  have core: "same_core (cl_prepared (se_client st)) (cl_prepared (se_client ?st))"
    by (simp add: session_fields same_core_def answering_def)
  have "step_done E Q S pg k st (view_of E ?st) [] ?st"
    using inv room same_core_inv(1) [OF core, of E S]
    by (intro step_passed [where f = "(code (CHR ''E''), bs)" and pg' = pg and sm = "parse_answer t"])
      (simp_all add: session_fields answering_def pg_reads_frames spares_reserved_def session_inv_def)
  then show ?thesis using same_core_inv(2) [OF core] by simp
qed

lemma step_describe_portal:
  assumes inv: "session_inv E Q S pg st" and room: "counters_room (Suc k) (se_world st)" and n: "text_ok n"
  shows "\<exists>st'. process_describe_immediate E (frame_bytes (request_frame (RDescribe (code (CHR ''P'')) n))) (answering t st) = (Inr (), st')
    \<and> step_done E Q S pg k st (view_of E st) [] st'"
proof -
  let ?f = "(code (CHR ''D''), code (CHR ''P'') # n @ [0])"
  define st' where "st' = push_operation DescribePortal (buffer_put (frame_bytes ?f) (answering t st))"
  have core: "same_core (cl_prepared (se_client st)) (cl_prepared (se_client st'))"
    by (simp add: st'_def session_fields same_core_def answering_def)
  have "step_done E Q S pg k st (view_of E st') [] st'"
    using inv room n same_core_inv(1) [OF core, of E S]
    by (intro step_passed [where f = ?f and pg' = pg and sm = "parse_answer t"])
      (simp_all add: st'_def session_fields answering_def pg_reads_frames spares_reserved_def session_inv_def)
  moreover have "process_describe_immediate E (frame_bytes (request_frame (RDescribe (code (CHR ''P'')) n))) (answering t st) = (Inr (), st')"
    using enabled [OF inv] answering_inv(3) [OF inv, of t] n
    by (simp add: process_describe_immediate_def target_frame st'_def)
  ultimately show ?thesis using same_core_inv(2) [OF core] by simp
qed

lemma step_close:
  assumes inv: "session_inv E Q S pg st" and room: "counters_room (Suc k) (se_world st)" and ok: "request_ok (RClose ty n)"
  shows "\<exists>st'. process_close_immediate E (frame_bytes (request_frame (RClose ty n))) (answering t st) = (Inr (), st')
    \<and> step_done E Q S pg k st (if ty = code (CHR ''S'') \<and> n \<noteq> [] then (view_of E st)(n := None) else view_of E st) [] st'"
proof -
  let ?f = "(code (CHR ''C''), ty # n @ [0])"
  let ?close = "ty = code (CHR ''S'') \<and> n \<noteq> []"
  have n: "text_ok n" "\<not> (ty = code (CHR ''S'') \<and> reserved n)" using ok by simp_all
  define st1 where "st1 = push_operation CloseOp (buffer_put (frame_bytes ?f) (answering t st))"
  define st' where "st' = (if ?close then on_prepared (\<lambda>ps. ps\<lparr>pst_cache :=
      snd (statement_cache_pop (lb_anon E) (Named n) (pst_cache ps))\<rparr>) st1 else st1)"
  let ?pg = "if ty = code (CHR ''S'') then pg(n := None) else pg"
  have s: "close_is_prepared_statement \<lparr>c_code = a, c_len = b, c_type = ty, c_name = n\<rparr> = (ty = code (CHR ''S''))" for a b
    by (simp add: close_is_prepared_statement_def code_def)
  have cl: "client_inv E S (cl_prepared (se_client st))" using inv by (simp add: session_inv_def)
  have core: "same_core (cl_prepared (se_client st)) (cl_prepared (se_client st1))"
    by (simp add: st1_def session_fields same_core_def answering_def)
  have view: "client_inv E S (cl_prepared (se_client st'))
    \<and> view_of E st' = (if ?close then (view_of E st)(n := None) else view_of E st)"
  proof (cases ?close)
    case True
    have "client_inv E S (cl_prepared (se_client st1))" using cl same_core_inv(1) [OF core, of E S] by simp
    with True have "client_inv E S (cl_prepared (se_client st'))"
      by (auto simp: client_inv_def last_anonymous_held_def st'_def on_prepared_def cache_pop_entries split: option.splits if_splits)
    moreover have "view_of E st' = (view_of E st1)(n := None)"
      using True by (auto simp: client_view_def st'_def on_prepared_def cache_pop_entries fun_eq_iff)
    ultimately show ?thesis using True same_core_inv(2) [OF core, of "lb_anon E"] by simp
  next
    case False
    show ?thesis
      unfolding st'_def if_not_P [OF False] using cl same_core_inv(1) [OF core, of E S] same_core_inv(2) [OF core, of "lb_anon E"] by simp
  qed
  have "step_done E Q S pg k st (view_of E st') [] st'"
    using inv room n view
    by (intro step_passed [where f = ?f and pg' = ?pg and sm = "parse_answer t"])
      (auto simp: st'_def st1_def session_fields answering_def pg_reads_frames spares_reserved_def)
  moreover have "process_close_immediate E (frame_bytes (request_frame (RClose ty n))) (answering t st) = (Inr (), st')"
    using enabled [OF inv] n(1) core
    by (simp add: process_close_immediate_def target_frame st'_def close_anonymous_def s Let_def same_core_def
        st1_def [symmetric])
  ultimately show ?thesis unfolding conjunct2 [OF view] by blast
qed
lemma server_agrees_known:
  assumes "server_agrees L S pg sv" and "names_inv L sv'" and "known_names L sv' = known_names L sv"
  shows "server_agrees L S pg sv'"
  using assms by (simp add: server_agrees_def)

lemma put_parse_ok:
  assumes "handed_out k S" and "entry_agrees S sh n"
  shows "put_parse sh n st = (Inr (), buffer_put (frame_bytes (code (CHR ''P''), parse_payload n (statement_of sh))) st)"
  using to_bytes_frame(1) [OF entry_agreesD(3,2) [OF assms]] assms(2) by (simp add: put_parse_def entry_agrees_def)

lemma forward_parse_step:
  assumes E: "libs_ok E" and inv: "session_inv E Q S pg st" and sh: "entry_agrees S sh n"
    and async: "pst_async_client (cl_prepared (se_client st)) \<Longrightarrow> n \<notin> known_names (lb_names E) (se_server st)"
    and room: "unat (pc_counter (cw_pool (se_world st))) < 2 ^ 64 - 1"
  obtains st' fs pg' where "forward_parse E h sh n st = (Inr (), st')" "session_inv E Q S pg' st'"
    "pg_run fs pg = Some (pg', [])" "list_all spares_reserved fs" "advanced E st st' [] fs" "view_of E st' = view_of E st"
    "unat (pc_counter (cw_pool (se_world st'))) \<le> Suc (unat (pc_counter (cw_pool (se_world st))))"
    "cw_statement_counter (se_world st') = cw_statement_counter (se_world st)"
proof -
  let ?L = "lb_names E" and ?D = "lb_pool E" and ?sv = "se_server st" and ?w = "se_world st"
  have laws: "lru_laws ?L" "dashmap_laws ?D" using E by (simp_all add: libs_ok_def)
  have i: "se_pool_cache st" "world_inv E Q S ?w" "server_agrees ?L S pg ?sv" "names_inv ?L ?sv"
    using inv by (simp_all add: session_inv_def server_agrees_def)
  have out: "handed_out (cw_statement_counter ?w) S" using i(2) by (simp add: world_inv_def)
  obtain sv1 where has: "has_prepared_statement ?L n ?sv = (n \<in> known_names ?L ?sv, sv1)" and sv1: "names_inv ?L sv1"
    "known_names ?L sv1 = known_names ?L ?sv" "sv1 = ?sv \<or> (\<exists>c. sv1 = ?sv\<lparr>prepared_cache_of := c\<rparr>)"
    using has_prepared_names [OF laws(1) i(4)] .
  have sv1': "sv_sent sv1 = sv_sent ?sv" "sv_writable sv1 = sv_writable ?sv" using sv1(3) by auto
  show thesis
  proof (cases "n \<in> known_names ?L ?sv")
    case True
    define st1 where "st1 = on_pool (record_hit ?D h) (st\<lparr>se_server := sv1\<rparr>)"
    have f1: "se_pool_cache st1 = se_pool_cache st" "se_client st1 = se_client st" "se_server st1 = sv1"
      "se_world st1 = ?w\<lparr>cw_pool := record_hit ?D h (cw_pool ?w)\<rparr>"
      using i(1) by (simp_all add: st1_def on_pool_def)
    have inv1: "session_inv E Q S pg st1"
      using inv world_inv_pool(2) [OF laws(2) i(2), of h] server_agrees_known [OF i(3) sv1(1,2)]
      by (simp add: session_inv_def f1)
    let ?st = "skip_parse n st1"
    have "forward_parse E h sh n st = (Inr (), ?st)"
      using True has async by (auto simp: forward_parse_def st1_def [symmetric] f1)
    moreover have core: "same_core (cl_prepared (se_client st1)) (cl_prepared (se_client ?st))"
      by (simp add: skip_parse_def session_fields same_core_def)
    note sc = session_inv_core [OF inv1 _ _ core]
    have "session_inv E Q S pg ?st" "view_of E ?st = view_of E st"
      using sc world_of [OF inv1] by (simp_all add: skip_parse_def session_fields f1)
    moreover have "advanced E st ?st [] []"
      using sv1' by (simp add: advanced_def skip_parse_def session_fields f1 frames_def)
    moreover have "se_world ?st = se_world st1" by (simp add: skip_parse_def session_fields)
    ultimately show thesis
      by (intro that [of ?st pg "[]"]) (simp_all add: f1)
  next
    case False
    define w2 where "w2 = ?w\<lparr>cw_pool := promote ?D h (record_miss ?D h (cw_pool ?w))\<rparr>"
    have w1: "world_inv E Q S (?w\<lparr>cw_pool := record_miss ?D h (cw_pool ?w)\<rparr>)" by (rule world_inv_pool(3) [OF laws(2) i(2)])
    have ctr: "pc_counter (record_miss ?D h (cw_pool ?w)) = pc_counter (cw_pool ?w)" "pc_counter (cw_pool ?w) \<noteq> - 1"
      using room counter_room [of "pc_counter (cw_pool ?w)" 0] by (auto simp: record_miss_def split: option.split)
    have w2: "world_inv E Q S w2"
      using world_inv_pool(1) [OF laws(2) w1, of h] ctr by (simp add: w2_def)
    obtain sv2 where r: "register_prepared_statement ?L sh n False sv1 = (Inr (), sv2)" "names_inv ?L sv2"
      "known_names ?L sv2 = insert n (known_names ?L sv1)" "sv_sent sv2 = sv_sent sv1" "sv_writable sv2 = sv_writable sv1"
      using register_new [OF laws(1) sv1(1), of n False sh "[]" 0] False sv1(2) by auto
    define f where "f = (code (CHR ''P''), parse_payload n (statement_of sh))"
    let ?st = "push_operation (ParseSent n) (on_prepared note_parse_sent
      (buffer_put (frame_bytes f) (on_prepared mark_at_beginning (st\<lparr>se_world := w2, se_server := sv2\<rparr>))))"
    have "register_parse_to_server_cache E False h sh n (on_pool (record_miss ?D h) (st\<lparr>se_server := sv1\<rparr>))
        = (Inr (), st\<lparr>se_world := w2, se_server := sv2\<rparr>)"
      using i(1) r(1) by (simp add: register_parse_to_server_cache_def promote_prepared_statement_hash_def on_pool_def w2_def)
    then have fwd: "forward_parse E h sh n st = (Inr (), ?st)"
      using False has by (simp add: forward_parse_def and_then_def f_def Let_def put_parse_ok [OF out sh])
    have fs: "se_pool_cache ?st = se_pool_cache st" "se_world ?st = w2" "se_server ?st = sv2"
      "cl_buffer (se_client ?st) = cl_buffer (se_client st) @ frame_bytes f" "cl_parameters (se_client ?st) = cl_parameters (se_client st)"
      by (simp_all add: session_fields)
    have core: "same_core (cl_prepared (se_client st)) (cl_prepared (se_client ?st))"
      by (simp add: session_fields same_core_def mark_at_beginning_def note_parse_sent_def)
    have Sn: "S n = Some (statement_of sh)" using sh by (simp add: entry_agrees_def)
    have none: "pg n = None" using i(3) False entry_agreesD(1) [OF out sh] by (simp add: server_agrees_def)
    have rd: "pg_reads f = PgParse n (statement_of sh)"
      unfolding f_def by (rule pg_reads_frames(1) [OF entry_agreesD(3,2) [OF out sh]])
    have "server_agrees ?L S (pg(n \<mapsto> statement_of sh)) sv2"
      using i(3) r(2,3) sv1(2) Sn by (auto simp: server_agrees_def)
    then have "session_inv E Q S (pg(n \<mapsto> statement_of sh)) ?st"
      using inv w2 same_core_inv(1) [OF core, of E S] by (simp add: session_inv_def fs)
    moreover have "pg_run [f] pg = Some (pg(n \<mapsto> statement_of sh), [])" "list_all spares_reserved [f]"
      using rd none by (simp_all add: spares_reserved_def)
    moreover have "advanced E st ?st [] [f]"
      using r(4,5) sv1' by (simp add: advanced_def fs frames_def)
    moreover have "unat (pc_counter (cw_pool (se_world ?st))) \<le> Suc (unat (pc_counter (cw_pool ?w)))"
      using promote_counter [of "record_miss ?D h (cw_pool ?w)" ?D h] room ctr(1) unfolding fs(2) by (simp add: w2_def)
    moreover have "cw_statement_counter (se_world ?st) = cw_statement_counter ?w" unfolding fs(2) by (simp add: w2_def)
    ultimately show thesis
      using that [OF fwd] same_core_inv(2) [OF core, of "lb_anon E"] by blast
  qed
qed
lemma planner_hash_stable:
  "fst (planner_param_hash x (snd (planner_param_hash x ps))) = fst (planner_param_hash x ps)"
  by (auto simp: planner_param_hash_def Let_def planner_entries_def)

lemma hash_content:
  "get_hash_with_planner_params H pl (p\<lparr>p_code := a, p_name := b, p_len := c\<rparr>) = get_hash_with_planner_params H pl p"
  by (simp add: get_hash_with_planner_params_def parse_get_hash_def)

abbreviation planner_of :: "('q, 'c, 'n, 'a, 'l) libs \<Rightarrow> ('q, 'c, 'n, 'a, 'l) session \<Rightarrow> u64" where
  "planner_of E st \<equiv> fst (planner_param_hash (lb_planner E) (cl_parameters (se_client st)))"

text \<open>The name of a statement, with the draw of an asynchronous client's own name.\<close>

lemma name_statement:
  assumes E: "libs_ok E" and inv: "session_inv E Q S pg st" and room: "counters_room (Suc k) (se_world st)"
    and parse: "statement_of parse = Q h" "statement_ok (Q h)" "p_code parse = code (CHR ''P'')"
  obtains sh st1 a st2 S2 where "register_parse_to_cache E h parse nm st = Some (Some sh, st1)"
    "draw_async_name st1 = (a, st2)" "S \<subseteq>\<^sub>m S2" "session_inv E Q S2 pg st2" "se_client st2 = se_client st"
    "se_server st2 = se_server st" "entry_agrees S2 sh (case a of Some n \<Rightarrow> n | None \<Rightarrow> p_name sh)" "statement_of sh = Q h"
    "pst_async_client (cl_prepared (se_client st)) \<longrightarrow> (case a of Some n \<Rightarrow> n | None \<Rightarrow> p_name sh) \<notin> known_names (lb_names E) (se_server st)"
    "unat (pc_counter (cw_pool (se_world st2))) + 2 * k < 2 ^ 64 - 1" "unat (cw_statement_counter (se_world st2)) + 2 * k < 2 ^ 64"
proof -
  obtain sh w1 S1 where goi: "get_or_insert (lb_pool E) (lb_interners E) (lb_entry_bytes E) (lb_now E) parse h nm (se_world st) = Some (sh, w1)"
    and w1: "world_inv E Q S1 w1" "S \<subseteq>\<^sub>m S1" "entry_agrees S1 sh (p_name sh)" "statement_of sh = Q h"
      "unat (pc_counter (cw_pool w1)) + 2 * k < 2 ^ 64 - 1" "unat (cw_statement_counter w1) + 2 * k < 2 ^ 64 - 1"
    using register_parse_world [OF E world_of [OF inv] room parse] .
  define st1 where "st1 = st\<lparr>se_world := w1\<rparr>"
  have reg: "register_parse_to_cache E h parse nm st = Some (Some sh, st1)"
    using inv goi by (simp add: register_parse_to_cache_def session_inv_def st1_def)
  have ag: "server_agrees (lb_names E) S1 pg (se_server st)" "client_inv E S1 (cl_prepared (se_client st))"
    using inv w1(2) server_agrees_mono client_inv_mono by (auto simp: session_inv_def)
  have inv1: "session_inv E Q S1 pg st1"
    using inv w1(1) ag by (simp add: session_inv_def st1_def)
  show thesis
  proof (cases "pst_async_client (cl_prepared (se_client st))")
    case False
    then have "draw_async_name st1 = (None, st1)" by (simp add: draw_async_name_def st1_def)
    then show thesis
      by (rule that [OF reg _ w1(2) inv1]) (use False w1 in \<open>simp_all add: st1_def\<close>)
  next
    case True
    let ?n = "async_statement_name (cw_statement_counter w1)"
    let ?w = "w1\<lparr>cw_statement_counter := cw_statement_counter w1 + 1\<rparr>" and ?S = "S1(?n \<mapsto> Q h)"
    have ctr: "cw_statement_counter w1 \<noteq> - 1" "unat (cw_statement_counter w1 + 1) = Suc (unat (cw_statement_counter w1))"
      using w1(6) counter_room [of "cw_statement_counter w1" 0] by auto
    note as = world_inv_async [OF w1(1) ctr(1) parse(2)]
    have inv2: "session_inv E Q ?S pg (st1\<lparr>se_world := ?w\<rparr>)"
      using inv1 as server_agrees_mono [OF ag(1) as(2)] client_inv_mono [OF ag(2) as(2)]
      by (simp add: session_inv_def st1_def)
    have "S1 ?n = None" using w1(1) handed_out_fresh(2) by (auto simp: world_inv_def)
    then have fresh: "?n \<notin> known_names (lb_names E) (se_server st)" using ag(1) by (auto simp: server_agrees_def)
    have draw: "draw_async_name st1 = (Some ?n, st1\<lparr>se_world := ?w\<rparr>)"
      using True by (simp add: draw_async_name_def st1_def Let_def)
    show thesis
      by (rule that [OF reg draw map_le_trans [OF w1(2) as(2)] inv2])
        (use fresh w1 ctr(2) in \<open>simp_all add: st1_def entry_agrees_def\<close>)
  qed
qed

lemma step_parse:
  assumes E: "libs_ok E" and inv: "session_inv E Q S pg st" and ok: "request_ok (RParse p)"
    and room: "counters_room (Suc k) (se_world st)"
    and Q: "Q (get_hash_with_planner_params (lb_hashers E) (planner_of E st) p) = statement_of p"
  shows "\<exists>st'. process_parse_immediate E (frame_bytes (request_frame (RParse p))) (answering t st) = Some (Inr (), st')
    \<and> step_done E Q S pg k st ((view_of E st)(p_name p \<mapsto> statement_of p)) [] st'"
proof -
  let ?m = "frame_bytes (code (CHR ''P''), parse_payload (p_name p) (statement_of p))"
  have p: "text_ok (p_name p)" "statement_ok (statement_of p)" using ok by simp_all
  obtain len where dec: "parse_try_from ?m = Inr (p\<lparr>p_code := code (CHR ''P''), p_name := p_name p, p_len := len\<rparr>)"
    using to_bytes_frame(2) [OF p(2,1)] by blast
  define q where "q = p\<lparr>p_code := code (CHR ''P''), p_name := p_name p, p_len := len\<rparr>"
  have name: "parse_get_name ?m = Inr (p_name p)"
    using p(1) by (simp add: parse_get_name_def) (simp add: frame_bytes_def parse_payload_def codec split_beta)
  define h where "h = get_hash_with_planner_params (lb_hashers E) (planner_of E st) p"
  have h: "get_hash_with_planner_params (lb_hashers E) (planner_of E st) q = h"
    unfolding q_def h_def by (rule hash_content)
  have q: "statement_of q = Q h" "statement_ok (Q h)" "p_code q = code (CHR ''P'')"
    using Q p(2) by (simp_all add: q_def h_def statement_of_def)
  define params where "params = snd (planner_param_hash (lb_planner E) (cl_parameters (se_client st)))"
  define st0 where "st0 = (answering t st)\<lparr>se_client := (se_client st)\<lparr>cl_parameters := params\<rparr>\<rparr>"
  note a = answering_inv [OF inv, of t]
  have inv0: "session_inv E Q S pg st0" using a(1,3) by (simp add: session_inv_def st0_def)
  have f0: "se_world st0 = se_world st" "se_server st0 = se_server (answering t st)" "cl_prepared (se_client st0) = cl_prepared (se_client st)"
    by (simp_all add: st0_def answering_def)
  have room0: "counters_room (Suc k) (se_world st0)" using room by (simp add: f0)
  obtain sh st1 an st2 S2 where
    n: "register_parse_to_cache E h q (if p_name p = [] then None else Some (p_name p)) st0 = Some (Some sh, st1)"
      "draw_async_name st1 = (an, st2)" "S \<subseteq>\<^sub>m S2" "session_inv E Q S2 pg st2" "se_client st2 = se_client st0"
      "se_server st2 = se_server st0" "entry_agrees S2 sh (case an of Some n \<Rightarrow> n | None \<Rightarrow> p_name sh)" "statement_of sh = Q h"
      "pst_async_client (cl_prepared (se_client st0)) \<longrightarrow> (case an of Some n \<Rightarrow> n | None \<Rightarrow> p_name sh) \<notin> known_names (lb_names E) (se_server st0)"
      "unat (pc_counter (cw_pool (se_world st2))) + 2 * k < 2 ^ 64 - 1" "unat (cw_statement_counter (se_world st2)) + 2 * k < 2 ^ 64"
    using name_statement [OF E inv0 room0 q, where nm = "if p_name p = [] then None else Some (p_name p)"] .
  define c where "c = \<lparr>cst_parse = sh, cst_hash = h, cst_async_name = an\<rparr>"
  have sn: "server_name c = (case an of Some n \<Rightarrow> n | None \<Rightarrow> p_name sh)" "cst_parse c = sh"
    by (simp_all add: c_def server_name_def split: option.split)
  define st3 where "st3 = on_prepared (remember_statement E (p_name p) c) st2"
  have A: "lru_laws (lb_anon E)" using E by (simp add: libs_ok_def)
  have "client_inv E S2 (cl_prepared (se_client st2))" using n(4) by (simp add: session_inv_def)
  note rem = remember_statement_view [OF A this, of c "p_name p"]
  have f3: "se_world st3 = se_world st2" "se_server st3 = se_server st2" "se_pool_cache st3 = se_pool_cache st2"
    "cl_prepared (se_client st3) = remember_statement E (p_name p) c (cl_prepared (se_client st2))"
    "cl_buffer (se_client st3) = cl_buffer (se_client st2)" "cl_parameters (se_client st3) = cl_parameters (se_client st2)"
    by (simp_all add: st3_def on_prepared_def)
  have inv3: "session_inv E Q S2 pg st3"
    using n(4,7) rem(1) by (simp add: session_inv_def f3 sn)
  have "\<exists>st' fs pg'. forward_parse E h sh (server_name c) st3 = (Inr (), st') \<and> session_inv E Q S2 pg' st' \<and>
    pg_run fs pg = Some (pg', []) \<and> list_all spares_reserved fs \<and> advanced E st3 st' [] fs \<and> view_of E st' = view_of E st3 \<and>
    unat (pc_counter (cw_pool (se_world st'))) \<le> Suc (unat (pc_counter (cw_pool (se_world st3)))) \<and>
    cw_statement_counter (se_world st') = cw_statement_counter (se_world st3)"
    by (rule forward_parse_step [OF E inv3, of sh "server_name c" h])
      (use n(5-7,9,10) in \<open>auto simp: sn f3 remember_statement_fields f0\<close>)
  then obtain st' fs pg' where
    st': "forward_parse E h sh (server_name c) st3 = (Inr (), st')" "session_inv E Q S2 pg' st'"
      "pg_run fs pg = Some (pg', [])" "list_all spares_reserved fs" "advanced E st3 st' [] fs" "view_of E st' = view_of E st3"
      "unat (pc_counter (cw_pool (se_world st'))) \<le> Suc (unat (pc_counter (cw_pool (se_world st3))))"
      "cw_statement_counter (se_world st') = cw_statement_counter (se_world st3)" by blast
  have "process_parse_immediate E ?m (answering t st) = Some (Inr (), st')"
  proof -
    define pl where "pl = planner_of E st"
    have "planner_param_hash (lb_planner E) (cl_parameters (se_client (answering t st))) = (pl, params)"
      "pst_enabled (cl_prepared (se_client (answering t st)))"
      using enabled [OF inv] by (simp_all add: a(3) params_def pl_def)
    then show ?thesis
      unfolding process_parse_immediate_def
      by (simp add: name dec [folded q_def] Let_def a(3) h [folded pl_def] st0_def [symmetric] n(1,2) c_def [symmetric] st3_def [symmetric] st'(1)
          split del: if_split)
  qed
  moreover have "view_of E st' = (view_of E st)(p_name p \<mapsto> statement_of p)"
    using rem(2) n(5,7,8) st'(6) q(1) Q by (simp add: f3 sn f0 h_def)
  moreover have "advanced E st st' [] fs"
    using st'(5) planner_hash_stable [of "lb_planner E" "cl_parameters (se_client st)"]
    by (simp add: advanced_def f3 n(5,6) f0 st0_def params_def answering_def)
  moreover have "counters_room k (se_world st')"
    using st'(7,8) n(10,11) by (simp add: counters_room_def f3)
  moreover have "parsed_first pg [] pg" by (simp add: parsed_first_def)
  ultimately show ?thesis
    unfolding step_done_def request_frame.simps using n(3) st'(2-4) by blast
qed
definition no_collision :: "('q, 'c, 'n, 'a, 'l) libs \<Rightarrow> (u64 \<Rightarrow> statement) \<Rightarrow> u64 \<Rightarrow> request \<Rightarrow> bool" where
  "no_collision E Q planner r =
     (case r of RParse p \<Rightarrow> Q (get_hash_with_planner_params (lb_hashers E) planner p) = statement_of p | _ \<Rightarrow> True)"

lemma step_request:
  assumes E: "libs_ok E" and inv: "session_inv E Q S pg st" and ok: "request_ok r"
    and col: "no_collision E Q (planner_of E st) r" and step: "request_step r (view_of E st) = Some (v, us)"
    and t: "status_byte t" and writable: "0 < sv_writable (se_server st)" and room: "counters_room (Suc k) (se_world st)"
  shows "\<exists>st'. process_extended E (frame_bytes (request_frame r)) (answering t st) = Some (Inr (), st')
    \<and> step_done E Q S pg k st v us st'"
proof -
  have c: "byte_or 0 0 (frame_bytes f) = fst f" for f by (simp add: byte_or_def frame_bytes_def)
  show ?thesis
  proof (cases r)
    case (RParse p)
    then show ?thesis
      using step_parse [OF E inv _ room, of p t] ok col step by (auto simp: process_extended_def c no_collision_def)
  next
    case (RBind portal n rest)
    then obtain s where "view_of E st n = Some s" "v = view_of E st" "us = [s]" using step by auto
    then show ?thesis
      using step_bind [OF E inv _ _ t writable room] ok RBind by (simp add: process_extended_def c)
  next
    case (RDescribe ty n)
    show ?thesis
    proof (cases "ty = code (CHR ''P'')")
      case True
      then show ?thesis
        using step_describe_portal [OF inv room] ok step RDescribe by (simp add: process_extended_def c)
    next
      case False
      then have ty: "ty = code (CHR ''S'')" using ok RDescribe by auto
      then obtain s where "view_of E st n = Some s" "v = view_of E st" "us = [s]" using step RDescribe by auto
      then show ?thesis
        using step_describe [OF E inv _ _ t writable room] ok RDescribe ty by (simp add: process_extended_def c)
    qed
  next
    case (RExecute bs)
    then show ?thesis
      using step_execute [OF inv room] step by (simp add: process_extended_def c)
  next
    case (RClose ty n)
    then show ?thesis
      using step_close [OF inv room, of ty n t] ok step by (simp add: process_extended_def c split del: if_split)
  qed
qed

section \<open>A batch\<close>

fun process_requests ::
  "('q, 'c, 'n, 'a, 'l) libs \<Rightarrow> u8 \<Rightarrow> request list \<Rightarrow> ('q, 'c, 'n, 'a, 'l) session
     \<Rightarrow> ((error + unit) \<times> ('q, 'c, 'n, 'a, 'l) session) option" where
  "process_requests E t [] st = Some (Inr (), st)"
| "process_requests E t (r # rs) st =
     Option.bind (process_extended E (frame_bytes (request_frame r)) (answering t st)) (\<lambda>(res, st).
       case res of Inl e \<Rightarrow> Some (Inl e, st) | Inr u \<Rightarrow> process_requests E t rs st)"

definition own_frame :: "frame \<Rightarrow> bool" where
  "own_frame f \<longleftrightarrow> (case pg_reads f of PgParse n s \<Rightarrow> reserved n | PgOther \<Rightarrow> True | _ \<Rightarrow> False)"

lemma parsed_first_run:
  assumes "parsed_first pg gs pg1"
  shows "pg_run gs pg = Some (pg1, [])" and "list_all own_frame gs"
  using assms reserved_text(2) by (auto simp: parsed_first_def own_frame_def pg_reads_frames)

text \<open>The pooler's own Parse messages can move in front of the buffer.\<close>

lemma pg_run_early:
  assumes "list_all own_frame gs" and "list_all spares_reserved fs"
    and "pg_run fs m = Some (m', us)" and "pg_run gs m' = Some (m2, vs)"
  shows "vs = [] \<and> pg_run (gs @ fs) m = Some (m2, us)"
  using assms
proof (induction gs arbitrary: m m' vs)
  case (Cons g gs)
  obtain m1 us1 us2 where g: "pg_step (pg_reads g) m' = Some (m1, us1)" "pg_run gs m1 = Some (m2, us2)" "vs = us1 @ us2"
    using Cons.prems(4) unfolding pg_run_Cons by blast
  have own: "own_frame g" "list_all own_frame gs" using Cons.prems(1) by simp_all
  show ?case
  proof (cases "pg_reads g")
    case (PgParse n s)
    then have n: "reserved n" using own(1) by (simp add: own_frame_def)
    then have m1: "m' n = None" "m1 = m'(n \<mapsto> s)" "us1 = []"
      using g(1) PgParse reserved_text(2) [OF n] by (cases "m' n"; simp)+
    have f: "m n = None \<and> pg_run fs (m(n \<mapsto> s)) = Some (m1, us)"
      using pg_run_parse_first [OF Cons.prems(3,2) n m1(1)] unfolding m1(2) .
    have "us2 = [] \<and> pg_run (gs @ fs) (m(n \<mapsto> s)) = Some (m2, us)"
      using Cons.IH [OF own(2) Cons.prems(2) _ g(2)] f by blast
    then show ?thesis
      using PgParse f g(3) m1(3) by simp
  next
    case PgOther
    then have "m1 = m'" "us1 = []" using g(1) by simp_all
    then show ?thesis
      using Cons.IH [OF own(2) Cons.prems(2,3)] g(2,3) PgOther by simp
  qed (use own(1) in \<open>simp_all add: own_frame_def\<close>)
qed simp

lemma batch_refines:
  assumes E: "libs_ok E" and t: "status_byte t"
  shows "session_inv E Q S pg st \<Longrightarrow> list_all request_ok rs \<Longrightarrow> list_all (no_collision E Q (planner_of E st)) rs \<Longrightarrow>
    length rs \<le> sv_writable (se_server st) \<Longrightarrow> counters_room (length rs) (se_world st) \<Longrightarrow>
    request_run rs (view_of E st) = Some (v, us) \<Longrightarrow>
    \<exists>st' S' chunks gs fs pg'. process_requests E t rs st = Some (Inr (), st') \<and> view_of E st' = v
      \<and> sv_sent (se_server st') = sv_sent (se_server st) @ chunks \<and> concat chunks = frames gs
      \<and> cl_buffer (se_client st') = cl_buffer (se_client st) @ frames fs
      \<and> list_all own_frame gs \<and> list_all spares_reserved fs \<and> pg_run (gs @ fs) pg = Some (pg', us)
      \<and> S \<subseteq>\<^sub>m S' \<and> session_inv E Q S' pg' st'"
proof (induction rs arbitrary: S pg st us)
  case Nil
  then show ?case
    by (intro exI [of _ st] exI [of _ S] exI [of _ "[]"] exI [of _ pg]) (simp add: frames_def)
next
  case (Cons r rs)
  obtain v1 us1 us2 where r: "request_step r (view_of E st) = Some (v1, us1)" "request_run rs v1 = Some (v, us2)" "us = us1 @ us2"
    using Cons.prems(6) by (auto split: bind_splits)
  have ok: "request_ok r" "no_collision E Q (planner_of E st) r" "0 < sv_writable (se_server st)"
    "counters_room (Suc (length rs)) (se_world st)"
    using Cons.prems by simp_all
  obtain st1 where st1: "process_extended E (frame_bytes (request_frame r)) (answering t st) = Some (Inr (), st1)"
    and d: "step_done E Q S pg (length rs) st v1 us1 st1"
    using step_request [OF E Cons.prems(1) ok(1,2) r(1) t ok(3,4)] by blast
  obtain S1 gs1 fs1 pg1 pg' where s: "S \<subseteq>\<^sub>m S1" "parsed_first pg gs1 pg1" "pg_run fs1 pg1 = Some (pg', us1)"
    "list_all spares_reserved fs1" "advanced E st st1 gs1 fs1" "session_inv E Q S1 pg' st1" "view_of E st1 = v1"
    "counters_room (length rs) (se_world st1)"
    using d unfolding step_done_def by blast
  have "length rs \<le> sv_writable (se_server st1)" "list_all (no_collision E Q (planner_of E st1)) rs"
    using Cons.prems(3,4) s(5) by (auto simp: advanced_def)
  then obtain st' S' chunks gs fs pg2 where i: "process_requests E t rs st1 = Some (Inr (), st')" "view_of E st' = v"
    "sv_sent (se_server st') = sv_sent (se_server st1) @ chunks" "concat chunks = frames gs"
    "cl_buffer (se_client st') = cl_buffer (se_client st1) @ frames fs" "list_all own_frame gs" "list_all spares_reserved fs"
    "pg_run (gs @ fs) pg' = Some (pg2, us2)" "S1 \<subseteq>\<^sub>m S'" "session_inv E Q S' pg2 st'"
    using Cons.IH [OF s(6) _ _ _ s(8), of us2] Cons.prems(2) r(2) s(7) by auto
  obtain m2 vs ws where g: "pg_run gs pg' = Some (m2, vs)" "pg_run fs m2 = Some (pg2, ws)" "us2 = vs @ ws"
    using i(8) unfolding pg_run_append by blast
  note early = pg_run_early [OF i(6) s(4,3) g(1)]
  note first = parsed_first_run [OF s(2)]
  have "pg_run (gs1 @ (gs @ fs1) @ fs) pg = Some (pg2, us)"
    using first(1) early g(2,3) r(3) unfolding pg_run_append [of gs1] pg_run_append [of "gs @ fs1"]
    by (metis append_Nil)
  then have run: "pg_run ((gs1 @ gs) @ (fs1 @ fs)) pg = Some (pg2, us)" by simp
  obtain ch where ch: "sv_sent (se_server st1) = sv_sent (se_server st) @ ch" "concat ch = frames gs1"
    using s(5) by (auto simp: advanced_def)
  have "process_requests E t (r # rs) st = Some (Inr (), st')" using st1 i(1) by simp
  moreover have "sv_sent (se_server st') = sv_sent (se_server st) @ (ch @ chunks)" "concat (ch @ chunks) = frames (gs1 @ gs)"
    using ch i(3,4) by simp_all
  moreover have "cl_buffer (se_client st') = cl_buffer (se_client st) @ frames (fs1 @ fs)"
    using s(5) i(5) by (simp add: advanced_def)
  moreover have "list_all own_frame (gs1 @ gs)" "list_all spares_reserved (fs1 @ fs)"
    using first(2) i(6,7) s(4) by simp_all
  ultimately show ?case
    using run map_le_trans [OF s(1) i(9)] i(2,10) by blast
qed

end
