(* ===== verification/Spec2Isabelle.thy ===== *)
theory Spec2Isabelle
  imports Coordinator_Steps Pool_Invariants Pool_Maintenance Session_Parameters Batch Collections Query_Cache Socket Server_Session Server_Exchange Prepared Prepared_Names Prepared_Batch
begin

text \<open>
  A verification development for pg\_doorman, a connection pooler for PostgreSQL.

  The connection coordinator (\<^verbatim>\<open>src/src/pool/pool_coordinator.rs\<close>) is modelled by the theories
  \<open>Coordinator\<close> (operations, the acquisition program, the reserve arbiter) and
  \<open>Coordinator_Steps\<close> (interleavings of the atomic accesses).
\<close>

end
